(* ===== verification/C_Prelude.thy ===== *)
theory C_Prelude
  imports Main "HOL-Library.Word"
begin

text \<open>
  Shared vocabulary of the development: bytes and C strings, the outcome of a C
  computation (a value, or the fault that ends the process or is undefined
  behaviour), NULL-able pointers into partial heaps, mutexes, and the generic
  lemmas on lists and maps that the component theories use.

  \<^item> A C computation returns \<open>'a result\<close>: \<open>Inr v\<close> when it returns \<open>v\<close>,
    \<open>Inl f\<close> when it reaches the fault \<open>f\<close>. \<open>bind_result\<close> is the C
    sequencing: the rest runs only when the first part returned.
  \<^item> A heap is a partial map from addresses to objects with a bump pointer
    \<open>brk\<close>. \<open>free\<close> removes a cell and an address is never handed out twice,
    so every access through a dangling pointer is seen as \<open>Use_After_Free\<close>.
    Allocation never runs out of memory: the one thing \<open>xmalloc\<close> does in that case
    is to end the process.
  \<^item> A mutex is a flag. Taking a mutex that is already held blocks for ever in a
    single thread of control: the fault \<open>Deadlock\<close>.
\<close>

named_theorems heap_simps \<open>access to heap cells after an update\<close>
named_theorems result_simps \<open>evaluation of sequenced computations\<close>

subsection \<open>Bytes, C strings and outcomes\<close>

type_synonym byte = "8 word"
type_synonym u64 = "64 word"
type_synonym u32 = "32 word"
type_synonym cstring = "byte list"
type_synonym ptr = "nat option"

datatype fault =
    Null_Deref
  | Use_After_Free
  | Out_Of_Bounds
  | Int_Overflow
  | Assert_Fail
  | Exit_Failure
  | Deadlock
  | Stuck

type_synonym 'a result = "fault + 'a"

definition bind_result :: "'a result \<Rightarrow> ('a \<Rightarrow> 'b result) \<Rightarrow> 'b result" where
  "bind_result m f = (case m of Inl e \<Rightarrow> Inl e | Inr x \<Rightarrow> f x)"

lemma bind_result_Inl [simp, result_simps]: "bind_result (Inl e) f = Inl e"
  by (simp add: bind_result_def)

lemma bind_result_Inr [simp, result_simps]: "bind_result (Inr x) f = f x"
  by (simp add: bind_result_def)

lemma bind_result_eq_Inr:
  "bind_result m f = Inr y \<longleftrightarrow> (\<exists>x. m = Inr x \<and> f x = Inr y)"
  by (cases m) auto

lemma bind_result_assoc:
  "bind_result (bind_result m f) g = bind_result m (\<lambda>x. bind_result (f x) g)"
  by (cases m) auto

lemma bind_result_cong [fundef_cong]:
  assumes "m = m'" and "\<And>x. m' = Inr x \<Longrightarrow> f x = f' x"
  shows "bind_result m f = bind_result m' f'"
  using assms by (cases m') auto

definition c_assert :: "bool \<Rightarrow> unit result" where
  "c_assert b = (if b then Inr () else Inl Assert_Fail)"

lemma c_assert_True [simp]: "c_assert True = Inr ()"
  by (simp add: c_assert_def)

subsection \<open>Heaps\<close>

record 'a heap =
  cells :: "nat \<rightharpoonup> 'a"
  brk :: nat

definition heap_empty :: "'a heap" where
  "heap_empty = \<lparr>cells = Map.empty, brk = 0\<rparr>"

definition heap_alloc :: "'a \<Rightarrow> 'a heap \<Rightarrow> nat \<times> 'a heap" where
  "heap_alloc v h = (brk h, h\<lparr>cells := (cells h)(brk h \<mapsto> v), brk := Suc (brk h)\<rparr>)"

definition heap_free :: "nat \<Rightarrow> 'a heap \<Rightarrow> 'a heap" where
  "heap_free a h = h\<lparr>cells := (cells h)(a := None)\<rparr>"

definition heap_store :: "nat \<Rightarrow> 'a \<Rightarrow> 'a heap \<Rightarrow> 'a heap" where
  "heap_store a v h = h\<lparr>cells := (cells h)(a \<mapsto> v)\<rparr>"

definition heap_load :: "nat \<Rightarrow> 'a heap \<Rightarrow> 'a result" where
  "heap_load a h = (case cells h a of None \<Rightarrow> Inl Use_After_Free | Some v \<Rightarrow> Inr v)"

definition deref :: "ptr \<Rightarrow> nat result" where
  "deref p = (case p of None \<Rightarrow> Inl Null_Deref | Some a \<Rightarrow> Inr a)"

text \<open>Every allocated address is below the bump pointer, so a new one is fresh.\<close>

definition heap_ok :: "'a heap \<Rightarrow> bool" where
  "heap_ok h \<longleftrightarrow> dom (cells h) \<subseteq> {..<brk h}"

lemma heap_load_Some [simp]: "cells h a = Some v \<Longrightarrow> heap_load a h = Inr v"
  by (simp add: heap_load_def)

lemma deref_Some [simp]: "deref (Some a) = Inr a"
  by (simp add: deref_def)

lemma deref_None [simp]: "deref None = Inl Null_Deref"
  by (simp add: deref_def)

lemma cells_heap_store [simp, heap_simps]:
  "cells (heap_store a v h) = (cells h)(a \<mapsto> v)"
  by (simp add: heap_store_def)

lemma brk_heap_store [simp, heap_simps]: "brk (heap_store a v h) = brk h"
  by (simp add: heap_store_def)

lemma cells_heap_free [simp, heap_simps]:
  "cells (heap_free a h) = (cells h)(a := None)"
  by (simp add: heap_free_def)

lemma brk_heap_free [simp, heap_simps]: "brk (heap_free a h) = brk h"
  by (simp add: heap_free_def)

lemma heap_ok_empty [simp]: "heap_ok heap_empty"
  by (simp add: heap_ok_def heap_empty_def)

lemma heap_ok_fresh: "heap_ok h \<Longrightarrow> cells h (brk h) = None"
  by (auto simp: heap_ok_def)

lemma heap_ok_store: "heap_ok h \<Longrightarrow> a \<in> dom (cells h) \<Longrightarrow> heap_ok (heap_store a v h)"
  by (auto simp: heap_ok_def)

lemma heap_ok_free: "heap_ok h \<Longrightarrow> heap_ok (heap_free a h)"
  by (auto simp: heap_ok_def)

lemma heap_ok_alloc:
  "heap_ok h \<Longrightarrow> heap_ok (h\<lparr>cells := (cells h)(brk h \<mapsto> v), brk := Suc (brk h)\<rparr>)"
  by (auto simp: heap_ok_def less_Suc_eq)

lemma heap_ok_finite: "heap_ok h \<Longrightarrow> finite (dom (cells h))"
  by (auto simp: heap_ok_def intro: finite_subset)

lemma heap_ok_length_le:
  assumes "heap_ok h" and "distinct as" and "set as \<subseteq> dom (cells h)"
  shows "length as \<le> brk h"
proof -
  have "card (set as) \<le> card {..<brk h}"
    using assms by (intro card_mono) (auto simp: heap_ok_def)
  with assms(2) show ?thesis by (simp add: distinct_card)
qed

subsection \<open>Words\<close>

lemma unat_of_nat_u64 [simp]: "n < 2 ^ 64 \<Longrightarrow> unat (of_nat n :: u64) = n"
  by (simp add: unat_of_nat)

lemma unat_u64_lt: "unat (w :: u64) < 2 ^ 64"
  by (rule order_less_le_trans [OF unsigned_less]) simp

lemma of_nat_u64_eq_0:
  assumes "n < 2 ^ 64"
  shows "(of_nat n :: u64) = 0 \<longleftrightarrow> n = 0"
  using unat_eq_zero [of "of_nat n :: u64"] unfolding unat_of_nat_u64 [OF assms] by blast

lemma of_nat_u64_pos: "n < 2 ^ 64 \<Longrightarrow> 0 < n \<Longrightarrow> 0 < (of_nat n :: u64)"
  by (simp add: word_less_nat_alt)

subsection \<open>Lists\<close>

lemma concat_update:
  "i < length xss \<Longrightarrow>
     concat (xss[i := ys]) = concat (take i xss) @ ys @ concat (drop (Suc i) xss)"
  by (simp add: upd_conv_take_nth_drop)

lemma concat_nth_split:
  "i < length xss \<Longrightarrow>
     concat xss = concat (take i xss) @ xss ! i @ concat (drop (Suc i) xss)"
  by (metis concat_append concat.simps(2) id_take_nth_drop)

lemma distinct_concat_nth_disjoint:
  assumes "distinct (concat xss)" and "i < length xss" and "j < length xss" and "i \<noteq> j"
  shows "set (xss ! i) \<inter> set (xss ! j) = {}"
proof -
  have "set (xss ! i) \<inter> (set (concat (take i xss)) \<union> set (concat (drop (Suc i) xss))) = {}"
    using assms(1) unfolding concat_nth_split [OF assms(2)] by auto
  moreover have "set (xss ! j) \<subseteq> set (concat (take i xss)) \<union> set (concat (drop (Suc i) xss))"
  proof (cases "j < i")
    case True
    then have "xss ! j \<in> set (take i xss)"
      using assms(2,3) by (auto simp: in_set_conv_nth intro!: exI [of _ j])
    then show ?thesis by auto
  next
    case False
    with assms(4) have j: "Suc i \<le> j" by simp
    then have "xss ! j = drop (Suc i) xss ! (j - Suc i)" and "j - Suc i < length (drop (Suc i) xss)"
      using assms(3) by auto
    then have "xss ! j \<in> set (drop (Suc i) xss)" by (metis nth_mem)
    then show ?thesis by auto
  qed
  ultimately show ?thesis by blast
qed

lemma option_eqI: "(\<And>x. p = Some x \<longleftrightarrow> q = Some x) \<Longrightarrow> p = q"
  by (cases p; cases q) auto

lemma nth_subset_concat: "i < length xss \<Longrightarrow> set (xss ! i) \<subseteq> set (concat xss)"
  by (auto intro: nth_mem)

lemma in_concat_nth: "a \<in> set (concat xss) \<Longrightarrow> \<exists>i < length xss. a \<in> set (xss ! i)"
  by (metis UN_iff in_set_conv_nth set_concat)

subsection \<open>Invariants of step relations\<close>

text \<open>
  The contract of a component that runs for ever: its starting states satisfy the invariant and
  no step breaks it. Then every reachable state satisfies it, and so does every state on the way.
\<close>

locale step_invariant =
  fixes initial :: "'s \<Rightarrow> bool"
    and step :: "'s \<Rightarrow> 's \<Rightarrow> bool"
    and inv :: "'s \<Rightarrow> bool"
  assumes initial_inv: "initial s \<Longrightarrow> inv s"
    and step_inv: "step s s' \<Longrightarrow> inv s \<Longrightarrow> inv s'"
begin

lemma steps_inv: "step\<^sup>*\<^sup>* s s' \<Longrightarrow> inv s \<Longrightarrow> inv s'"
  by (induction rule: rtranclp_induct) (blast intro: step_inv)+

lemma reachable_inv: "initial s \<Longrightarrow> step\<^sup>*\<^sup>* s s' \<Longrightarrow> inv s'"
  by (blast intro: initial_inv steps_inv)

end

end
