(* ===== verification/Config.thy ===== *)
theory Config
  imports C_Prelude
begin

text \<open>
  The model of \<open>src/server/config.c\<close> and \<open>config.h\<close>: the server's settings and the
  function that reads them from a TOML file. The TOML parser is a library; its answers
  (the integer and the string stored under a key of the \<open>[server]\<close> table, or nothing)
  are arguments of the model, as are the outcomes of the two \<open>fopen\<close> calls.
\<close>

datatype CacheEvictionPolicy =
    CACHE_EVICTION_POLICY_FIFO
  | CACHE_EVICTION_POLICY_SEGMENTED_FIFO

record Config =
  max_files :: u32
  max_storage_in_bytes :: u32
  num_workers :: u32
  socket_filepath :: string
  log_filepath :: string
  cache_eviction_policy :: CacheEvictionPolicy
  log_f :: "string option"
  err :: int

record Toml =
  toml_int_in :: "string \<Rightarrow> int option"
  toml_string_in :: "string \<Rightarrow> string option"

text \<open>The attribute checks: every key is present and the integers are in range.\<close>

definition params_ok :: "Toml \<Rightarrow> bool" where
  "params_ok t =
     (case (toml_int_in t ''max-files'', toml_int_in t ''max-storage'',
            toml_int_in t ''num-workers'', toml_string_in t ''socket-filepath'',
            toml_string_in t ''cache-eviction-policy'', toml_string_in t ''log-filepath'') of
        (Some files, Some storage, Some workers, Some _, Some _, Some _) \<Rightarrow>
          \<not> (files < 1 \<or> storage < 10000 \<or> workers < 1 \<or> 32 < workers)
      | _ \<Rightarrow> False)"

definition parse_policy :: "string \<Rightarrow> CacheEvictionPolicy option" where
  "parse_policy s =
     (if s = ''fifo'' then Some CACHE_EVICTION_POLICY_FIFO
      else if s = ''segmented-fifo'' then Some CACHE_EVICTION_POLICY_SEGMENTED_FIFO
      else None)"

text \<open>
  \<open>file\<close> is \<open>None\<close> when the file cannot be opened, \<open>Some None\<close> when it is not TOML,
  \<open>Some (Some None)\<close> when the \<open>[server]\<close> table is missing. \<open>can_open\<close> says which paths
  \<open>fopen (path, "a")\<close> can open: the log stream is opened on the socket's path. The
  64-bit integers of the file are converted to \<open>unsigned\<close> fields.
\<close>

definition config_parse_file ::
    "Toml option option option \<Rightarrow> (string \<Rightarrow> bool) \<Rightarrow> Config option" where
  "config_parse_file file can_open =
     (case file of
        None \<Rightarrow> None
      | Some None \<Rightarrow> None
      | Some (Some None) \<Rightarrow> None
      | Some (Some (Some t)) \<Rightarrow>
          if \<not> params_ok t then None
          else (case parse_policy (the (toml_string_in t ''cache-eviction-policy'')) of
                  None \<Rightarrow> None
                | Some policy \<Rightarrow>
                    let sock = the (toml_string_in t ''socket-filepath'') in
                    Some \<lparr>max_files = word_of_int (the (toml_int_in t ''max-files'')),
                          max_storage_in_bytes = word_of_int (the (toml_int_in t ''max-storage'')),
                          num_workers = word_of_int (the (toml_int_in t ''num-workers'')),
                          socket_filepath = sock,
                          log_filepath = the (toml_string_in t ''log-filepath''),
                          cache_eviction_policy = policy,
                          log_f = (if can_open sock then Some sock else None),
                          err = 0\<rparr>))"

text \<open>A configuration file with everything but the number of files fixed.\<close>

definition sample_toml :: "int \<Rightarrow> Toml" where
  "sample_toml files =
     \<lparr>toml_int_in = [''max-files'' \<mapsto> files, ''max-storage'' \<mapsto> 10000, ''num-workers'' \<mapsto> 4],
      toml_string_in = [''socket-filepath'' \<mapsto> ''s'', ''cache-eviction-policy'' \<mapsto> ''fifo'', ''log-filepath'' \<mapsto> ''l'']\<rparr>"

subsection \<open>Accepted configurations\<close>

lemma config_accepts:
  assumes "config_parse_file (Some (Some (Some t))) can_open = Some c"
  obtains files storage workers where
    "toml_int_in t ''max-files'' = Some files" "toml_int_in t ''max-storage'' = Some storage"
    "toml_int_in t ''num-workers'' = Some workers"
    "1 \<le> files" "10000 \<le> storage" "1 \<le> workers" "workers \<le> 32"
    "max_files c = word_of_int files" "max_storage_in_bytes c = word_of_int storage" "num_workers c = word_of_int workers"
  using assms
  by (auto simp: config_parse_file_def params_ok_def Let_def split: if_splits option.splits)

text \<open>
  The numbers of files and of bytes are stored modulo \<open>2^32\<close>, so the stored number of files is positive only
  if the one in the file fits 32 bits.
\<close>

lemma config_bounds:
  assumes "config_parse_file toml_file can_open = Some c"
  shows "1 \<le> num_workers c \<and> num_workers c \<le> 32 \<and> err c = 0 \<and>
    (\<exists>t files storage. toml_file = Some (Some (Some t)) \<and>
      toml_int_in t ''max-files'' = Some files \<and> toml_int_in t ''max-storage'' = Some storage \<and>
      1 \<le> files \<and> 10000 \<le> storage \<and> max_files c = word_of_int files \<and> max_storage_in_bytes c = word_of_int storage \<and>
      (files < 2 ^ 32 \<longrightarrow> 1 \<le> max_files c))"
proof -
  obtain t where t: "toml_file = Some (Some (Some t))"
    using assms by (auto simp: config_parse_file_def split: option.splits)
  obtain files storage workers where f:
    "toml_int_in t ''max-files'' = Some files" "toml_int_in t ''max-storage'' = Some storage"
    "toml_int_in t ''num-workers'' = Some workers"
    "1 \<le> files" "10000 \<le> storage" "1 \<le> workers" "workers \<le> 32"
    "max_files c = word_of_int files" "max_storage_in_bytes c = word_of_int storage" "num_workers c = word_of_int workers"
    using config_accepts [OF assms [unfolded t]] by blast
  have w: "uint (word_of_int workers :: u32) = workers" using f(6,7) by (simp add: uint_word_of_int)
  have "1 \<le> num_workers c" "num_workers c \<le> 32" using f(6,7) w by (simp_all add: f(10) word_le_def)
  moreover have "1 \<le> max_files c" if "files < 2 ^ 32"
    using that f(4) by (simp add: f(8) word_le_def uint_word_of_int)
  moreover have "err c = 0"
    using assms by (auto simp: config_parse_file_def Let_def t split: if_splits option.splits)
  ultimately show ?thesis using t f by blast
qed

end
