(* ===== verification/Utilities.thy ===== *)
theory Utilities
  imports C_Prelude
begin

unbundle bit_operations_syntax

text \<open>
  The model of \<open>src/utilities.c\<close>: the 64-bit big-endian codec used by every message
  header, \<open>buf_to_str\<close>, the retry loops \<open>read_bytes\<close> and \<open>write_bytes\<close> around the
  \<open>read\<close> and \<open>write\<close> system calls, \<open>wait_msec\<close>, and \<open>xrealloc\<close>.

  System calls are driven by scripts: a list of the outcomes the kernel gives to the
  successive calls. When the script is exhausted every further call succeeds in full,
  so a script describes any finite disturbance (signals, short transfers, errors).
\<close>

subsection \<open>The big-endian codec\<close>

definition byte_at :: "byte list \<Rightarrow> nat \<Rightarrow> u64" where
  "byte_at bs i = ucast (bs ! i)"

definition big_endian_to_u64 :: "byte list \<Rightarrow> u64 result" where
  "big_endian_to_u64 bs =
     (if length bs < 8 then Inl Out_Of_Bounds
      else Inr (push_bit 56 (byte_at bs 0) OR push_bit 48 (byte_at bs 1) OR
                push_bit 40 (byte_at bs 2) OR push_bit 32 (byte_at bs 3) OR
                push_bit 24 (byte_at bs 4) OR push_bit 16 (byte_at bs 5) OR
                push_bit 8 (byte_at bs 6) OR byte_at bs 7))"

definition u64_to_big_endian :: "u64 \<Rightarrow> byte list" where
  "u64_to_big_endian data =
     [ucast (drop_bit 56 data), ucast (drop_bit 48 data), ucast (drop_bit 40 data),
      ucast (drop_bit 32 data), ucast (drop_bit 24 data), ucast (drop_bit 16 data),
      ucast (drop_bit 8 data), ucast data]"

subsection \<open>C strings\<close>

text \<open>
  \<open>buf_to_str\<close> copies the buffer and appends a NUL. Every caller uses the copy as a C
  string, so the model returns what \<open>strlen\<close>, \<open>strcmp\<close> and \<open>strcpy\<close> see of it: the
  bytes before the first NUL. Reading more bytes than the buffer has is out of bounds.
\<close>

definition buf_to_str :: "byte list \<Rightarrow> u64 \<Rightarrow> cstring result" where
  "buf_to_str buf len =
     (if length buf < unat len then Inl Out_Of_Bounds
      else Inr (takeWhile (\<lambda>b. b \<noteq> 0) (take (unat len) buf)))"

subsection \<open>Reallocation\<close>

text \<open>
  \<open>realloc(p, 0)\<close> of glibc frees a non-NULL \<open>p\<close> and returns NULL, on which \<open>xrealloc\<close>
  ends the process; \<open>realloc(NULL, 0)\<close> is \<open>malloc(0)\<close> and returns an empty block. The
  bytes past the old size are indeterminate in C; they are 0 here and every caller
  overwrites them before reading.
\<close>

definition xrealloc :: "byte list option \<Rightarrow> u64 \<Rightarrow> byte list result" where
  "xrealloc buf sz =
     (case buf of
        None \<Rightarrow> Inr (replicate (unat sz) 0)
      | Some old \<Rightarrow>
          if sz = 0 then Inl Exit_Failure
          else Inr (take (unat sz) old @ replicate (unat sz - length old) 0))"

subsection \<open>Retry loops around read and write\<close>

datatype write_outcome = Wrote nat | Write_Eintr | Write_Error

fun write_bytes :: "write_outcome list \<Rightarrow> byte list \<Rightarrow> int \<times> byte list \<times> write_outcome list" where
  "write_bytes [] buf = (1, buf, [])"
| "write_bytes (r # sc) buf =
     (if buf = [] then (1, [], r # sc)
      else (case r of
              Write_Eintr \<Rightarrow> write_bytes sc buf
            | Write_Error \<Rightarrow> (-1, [], sc)
            | Wrote n \<Rightarrow>
                if n = 0 then (0, [], sc)
                else (case write_bytes sc (drop n buf) of
                        (ret, out, sc') \<Rightarrow> (ret, take n buf @ out, sc'))))"

datatype read_outcome = Got nat | Read_Eintr | Read_Error

text \<open>
  \<open>read_bytes\<close> reads from the byte stream \<open>strm\<close> that the peer has sent; an empty
  stream is the end of file. The result is the return value, the bytes placed in the
  buffer, what is left of the stream and of the script. \<open>return size\<close> converts a
  \<open>size_t\<close> to an \<open>int\<close>: the low 32 bits, read as signed.
\<close>

definition size_to_int :: "u64 \<Rightarrow> int" where
  "size_to_int s = sint (ucast s :: u32)"

fun read_loop :: "read_outcome list \<Rightarrow> byte list \<Rightarrow> nat \<Rightarrow>
    int option \<times> byte list \<times> byte list \<times> read_outcome list" where
  "read_loop [] strm left =
     (if left \<le> length strm then (None, take left strm, drop left strm, [])
      else (Some 0, strm, [], []))"
| "read_loop (r # sc) strm left =
     (if left = 0 then (None, [], strm, r # sc)
      else (case r of
              Read_Eintr \<Rightarrow> read_loop sc strm left
            | Read_Error \<Rightarrow> (Some (-1), [], strm, sc)
            | Got n \<Rightarrow>
                if strm = [] then (Some 0, [], strm, sc)
                else (let m = min (max n 1) left in
                      case read_loop sc (drop m strm) (left - length (take m strm)) of
                        (ret, data, strm', sc') \<Rightarrow> (ret, take m strm @ data, strm', sc'))))"

definition read_bytes :: "read_outcome list \<Rightarrow> byte list \<Rightarrow> u64 \<Rightarrow>
    int \<times> byte list \<times> byte list \<times> read_outcome list" where
  "read_bytes sc strm sz =
     (case read_loop sc strm (unat sz) of
        (ret, data, strm', sc') \<Rightarrow>
          ((case ret of Some r \<Rightarrow> r | None \<Rightarrow> size_to_int sz), data, strm', sc'))"

subsection \<open>Sleeping\<close>

text \<open>
  The interval computed by \<open>wait_msec\<close>: seconds and nanoseconds. The product
  \<open>msec * 1000\<close> is an \<open>int\<close>; its overflow is undefined behaviour. Callers pass
  non-negative values only where the result is used, and C's \<open>/\<close> and \<open>%\<close> truncate.
\<close>

definition c_rem :: "int \<Rightarrow> int \<Rightarrow> int" where
  "c_rem a b = sgn a * (\<bar>a\<bar> mod \<bar>b\<bar>)"

definition c_quot :: "int \<Rightarrow> int \<Rightarrow> int" where
  "c_quot a b = sgn a * sgn b * (\<bar>a\<bar> div \<bar>b\<bar>)"

definition wait_msec_interval :: "int \<Rightarrow> (int \<times> int) result" where
  "wait_msec_interval msec =
     (let p = msec * 1000 in
      if p < - (2 ^ 31) \<or> 2 ^ 31 - 1 < p then Inl Int_Overflow
      else Inr (c_quot msec 1000, c_rem p 1000000))"

text \<open>
  The loop calls \<open>nanosleep(&interval, &interval)\<close> until it returns 0. A signal makes
  the call fail and leaves the remaining time in \<open>interval\<close>. An interval that is not
  valid makes every call fail with \<open>EINVAL\<close>, and the loop never ends.
\<close>

datatype sleep_outcome = Slept | Sleep_Eintr int int

fun wait_loop :: "sleep_outcome list \<Rightarrow> int \<Rightarrow> int \<Rightarrow> unit result" where
  "wait_loop sc sec nsec =
     (if sec < 0 \<or> nsec < 0 \<or> 999999999 < nsec then Inl Stuck
      else (case sc of
              [] \<Rightarrow> Inr ()
            | Slept # _ \<Rightarrow> Inr ()
            | Sleep_Eintr sec' nsec' # sc' \<Rightarrow> wait_loop sc' sec' nsec'))"

declare wait_loop.simps [simp del]

text \<open>Outcomes that leave a valid interval behind.\<close>

fun sleep_valid :: "sleep_outcome \<Rightarrow> bool" where
  "sleep_valid Slept = True"
| "sleep_valid (Sleep_Eintr sec nsec) = (0 \<le> sec \<and> 0 \<le> nsec \<and> nsec \<le> 999999999)"

definition wait_msec :: "sleep_outcome list \<Rightarrow> int \<Rightarrow> unit result" where
  "wait_msec sc msec =
     bind_result (wait_msec_interval msec) (\<lambda>(sec, nsec). wait_loop sc sec nsec)"

subsection \<open>Correctness of the codec\<close>

lemma length_u64_to_big_endian [simp]: "length (u64_to_big_endian w) = 8"
  by (simp add: u64_to_big_endian_def)

lemma byte_join:
  fixes w :: u64
  shows "push_bit 56 (ucast (ucast (drop_bit 56 w) :: byte)) OR push_bit 48 (ucast (ucast (drop_bit 48 w) :: byte)) OR
         push_bit 40 (ucast (ucast (drop_bit 40 w) :: byte)) OR push_bit 32 (ucast (ucast (drop_bit 32 w) :: byte)) OR
         push_bit 24 (ucast (ucast (drop_bit 24 w) :: byte)) OR push_bit 16 (ucast (ucast (drop_bit 16 w) :: byte)) OR
         push_bit 8 (ucast (ucast (drop_bit 8 w) :: byte)) OR ucast (ucast w :: byte) = w"
proof (rule bit_word_eqI)
  fix n assume "n < LENGTH(64)"
  then consider "n < 8" | "8 \<le> n" "n < 16" | "16 \<le> n" "n < 24" | "24 \<le> n" "n < 32"
    | "32 \<le> n" "n < 40" | "40 \<le> n" "n < 48" | "48 \<le> n" "n < 56" | "56 \<le> n" "n < 64"
    by fastforce
  then show "bit (push_bit 56 (ucast (ucast (drop_bit 56 w) :: byte)) OR push_bit 48 (ucast (ucast (drop_bit 48 w) :: byte)) OR
         push_bit 40 (ucast (ucast (drop_bit 40 w) :: byte)) OR push_bit 32 (ucast (ucast (drop_bit 32 w) :: byte)) OR
         push_bit 24 (ucast (ucast (drop_bit 24 w) :: byte)) OR push_bit 16 (ucast (ucast (drop_bit 16 w) :: byte)) OR
         push_bit 8 (ucast (ucast (drop_bit 8 w) :: byte)) OR (ucast (ucast w :: byte) :: u64)) n = bit w n"
    by cases (auto simp: bit_simps)
qed

lemma big_endian_u64_roundtrip:
  "big_endian_to_u64 (u64_to_big_endian w @ rest) = Inr w"
  by (simp add: big_endian_to_u64_def u64_to_big_endian_def byte_at_def byte_join)

text \<open>
  What the components that speak the protocol rely on: an encoding of a fixed width which is
  read back from the front of a buffer, whatever follows it.
\<close>

locale prefix_codec =
  fixes enc :: "'v \<Rightarrow> 'b list"
    and dec :: "'b list \<Rightarrow> 'v result"
    and width :: nat
  assumes enc_width: "length (enc v) = width"
    and dec_prefix: "dec (enc v @ rest) = Inr v"
begin

lemma dec_enc: "dec (enc v) = Inr v"
  using dec_prefix [of v "[]"] by simp

lemma dec_second: "dec (drop width (enc u @ enc v @ rest)) = Inr v"
  by (simp add: enc_width dec_prefix)

lemma dec_second_last: "dec (drop width (enc u @ enc v)) = Inr v"
  by (simp add: enc_width dec_enc)

lemma enc_append_inj: "enc u @ xs = enc v @ ys \<longleftrightarrow> u = v \<and> xs = ys"
  by (metis Inr_inject append_same_eq dec_prefix same_append_eq)

end

interpretation u64: prefix_codec u64_to_big_endian big_endian_to_u64 8
  by unfold_locales (simp_all add: big_endian_u64_roundtrip)

lemma byte_bit_high: "8 \<le> n \<Longrightarrow> \<not> bit (b :: byte) n"
  using bit_imp_le_length [of b n] by auto

lemma ucast_join:
  fixes b0 b1 b2 b3 b4 b5 b6 b7 :: byte
  assumes "w = push_bit 56 (ucast b0) OR push_bit 48 (ucast b1) OR
         push_bit 40 (ucast b2) OR push_bit 32 (ucast b3) OR
         push_bit 24 (ucast b4) OR push_bit 16 (ucast b5) OR
         push_bit 8 (ucast b6) OR (ucast (b7::byte) :: u64)"
  shows "ucast (drop_bit 56 w) = b0" "ucast (drop_bit 48 w) = b1" "ucast (drop_bit 40 w) = b2"
   "ucast (drop_bit 32 w) = b3" "ucast (drop_bit 24 w) = b4" "ucast (drop_bit 16 w) = b5"
   "ucast (drop_bit 8 w) = b6" "ucast w = b7"
  unfolding assms by (rule bit_word_eqI; auto simp: bit_simps byte_bit_high)+

lemma u64_big_endian_roundtrip:
  assumes "length bs = 8" and "big_endian_to_u64 bs = Inr w"
  shows "u64_to_big_endian w = bs"
proof -
  have w: "w = push_bit 56 (ucast (bs ! 0)) OR push_bit 48 (ucast (bs ! 1)) OR
         push_bit 40 (ucast (bs ! 2)) OR push_bit 32 (ucast (bs ! 3)) OR
         push_bit 24 (ucast (bs ! 4)) OR push_bit 16 (ucast (bs ! 5)) OR
         push_bit 8 (ucast (bs ! 6)) OR ucast (bs ! 7)"
    using assms by (simp add: big_endian_to_u64_def byte_at_def)
  have "u64_to_big_endian w = [bs ! 0, bs ! 1, bs ! 2, bs ! 3, bs ! 4, bs ! 5, bs ! 6, bs ! 7]"
    unfolding u64_to_big_endian_def by (simp add: ucast_join [OF w])
  also have "\<dots> = bs"
    using assms(1) by (intro nth_equalityI) (auto simp: less_Suc_eq numeral_eq_Suc)
  finally show ?thesis .
qed

subsection \<open>Correctness of the retry loops\<close>

lemma write_bytes_prefix: "write_bytes sc buf = (ret, out, sc') \<Longrightarrow> \<exists>rest. buf = out @ rest"
proof (induction sc buf arbitrary: ret out sc' rule: write_bytes.induct)
  case (2 r sc buf)
  show ?case
  proof (cases r)
    case (Wrote n)
    with 2 show ?thesis
      by (auto split: if_splits prod.splits) (metis append_take_drop_id append.assoc)
  qed (use 2 in \<open>auto split: if_splits\<close>)
qed auto

lemma write_bytes_complete: "write_bytes sc buf = (1, out, sc') \<Longrightarrow> out = buf"
proof (induction sc buf arbitrary: out sc' rule: write_bytes.induct)
  case (2 r sc buf)
  show ?case
  proof (cases r)
    case (Wrote n)
    with 2 show ?thesis
      by (auto split: if_splits prod.splits) (metis append_take_drop_id)
  qed (use 2 in \<open>auto split: if_splits\<close>)
qed auto

lemma write_bytes_ret: "write_bytes sc buf = (ret, out, sc') \<Longrightarrow> ret \<in> {-1, 0, 1}"
proof (induction sc buf arbitrary: ret out sc' rule: write_bytes.induct)
  case (2 r sc buf)
  show ?case
  proof (cases r)
    case (Wrote n)
    with 2 show ?thesis by (auto split: if_splits prod.splits)
  qed (use 2 in \<open>auto split: if_splits\<close>)
qed auto

lemma read_loop_stream:
  "read_loop sc strm left = (ret, data, strm', sc') \<Longrightarrow>
     strm = data @ strm' \<and> length data \<le> left \<and> (ret = None \<longrightarrow> length data = left)"
proof (induction sc strm left arbitrary: ret data strm' sc' rule: read_loop.induct)
  case (1 strm left)
  then show ?case by (auto split: if_splits)
next
  case (2 r sc strm left)
  show ?case
  proof (cases r)
    case (Got n)
    show ?thesis
    proof (cases "left = 0 \<or> strm = []")
      case True
      with 2 Got show ?thesis by (auto split: if_splits)
    next
      case False
      define m where "m = min (max n 1) left"
      obtain ret1 data1 strm1 sc1 where rl:
        "read_loop sc (drop m strm) (left - length (take m strm)) = (ret1, data1, strm1, sc1)"
        by (metis prod_cases4)
      have eqs: "ret = ret1" "data = take m strm @ data1" "strm' = strm1"
        using 2(3) Got False rl unfolding m_def by simp_all
      have ih: "drop m strm = data1 @ strm1 \<and> length data1 \<le> left - length (take m strm) \<and>
          (ret1 = None \<longrightarrow> length data1 = left - length (take m strm))"
        using 2(1) [OF _ Got _ m_def rl] False by simp
      have le: "length (take m strm) \<le> left" by (simp add: m_def)
      have split: "strm = take m strm @ data1 @ strm1"
        using ih by (metis append_take_drop_id)
      show ?thesis
      proof (intro conjI impI)
        show "strm = data @ strm'" using eqs split by simp
        show "length data \<le> left" using eqs ih le by auto
        show "length data = left" if "ret = None" using that eqs ih le by auto
      qed
    qed
  qed (use 2 in \<open>auto split: if_splits\<close>)
qed

subsection \<open>The length of a pause\<close>

lemma wait_msec_interval_value:
  assumes "0 \<le> msec" and "msec \<le> 2147483"
  shows "wait_msec_interval msec = Inr (msec div 1000, (msec mod 1000) * 1000)"
proof -
  have "msec * 1000 mod 1000000 = (msec mod 1000) * 1000"
    using mult_mod_left [of msec 1000 1000] by (simp add: mult.commute)
  then show ?thesis
    using assms by (auto simp: wait_msec_interval_def c_quot_def c_rem_def Let_def sgn_if abs_mult)
qed

lemma wait_loop_returns:
  "list_all sleep_valid sc \<Longrightarrow> 0 \<le> sec \<Longrightarrow> 0 \<le> nsec \<Longrightarrow> nsec \<le> 999999999 \<Longrightarrow>
     wait_loop sc sec nsec = Inr ()"
proof (induction sc arbitrary: sec nsec)
  case Nil
  then show ?case by (simp add: wait_loop.simps)
next
  case (Cons r sc)
  then show ?case
    by (cases r) (simp_all add: wait_loop.simps [of "_ # _"])
qed

lemma wait_loop_invalid: "nsec < 0 \<Longrightarrow> wait_loop sc sec nsec = Inl Stuck"
  by (simp add: wait_loop.simps)

lemma write_bytes_full_iff: "write_bytes sc buf = (ret, out, sc') \<Longrightarrow> ret = 1 \<longleftrightarrow> out = buf"
proof (induction sc buf arbitrary: ret out sc' rule: write_bytes.induct)
  case (2 r sc buf)
  show ?case
  proof (cases r)
    case (Wrote n)
    show ?thesis
    proof (cases "buf = [] \<or> n = 0")
      case True
      with 2 Wrote show ?thesis by (auto split: if_splits)
    next
      case False
      obtain ret1 out1 sc1 where w: "write_bytes sc (drop n buf) = (ret1, out1, sc1)"
        by (metis prod_cases3)
      have "ret = ret1" "out = take n buf @ out1" using 2 Wrote False w by auto
      moreover have "ret1 = 1 \<longleftrightarrow> out1 = drop n buf" using 2(1) [OF _ Wrote _ w] False by simp
      moreover have "take n buf @ out1 = buf \<longleftrightarrow> out1 = drop n buf"
        by (metis append_take_drop_id same_append_eq)
      ultimately show ?thesis by simp
    qed
  qed (use 2 in \<open>auto split: if_splits\<close>)
qed auto

lemma read_loop_ret: "read_loop sc strm left = (ret, data, strm', sc') \<Longrightarrow> ret \<in> {None, Some (-1), Some 0}"
proof (induction sc strm left arbitrary: ret data strm' sc' rule: read_loop.induct)
  case (1 strm left)
  then show ?case by (auto split: if_splits)
next
  case (2 r sc strm left)
  show ?case
  proof (cases r)
    case (Got n)
    show ?thesis
    proof (cases "left = 0 \<or> strm = []")
      case True
      with 2 Got show ?thesis by (auto split: if_splits)
    next
      case False
      define m where "m = min (max n 1) left"
      obtain ret1 data1 strm1 sc1 where rl:
        "read_loop sc (drop m strm) (left - length (take m strm)) = (ret1, data1, strm1, sc1)"
        by (metis prod_cases4)
      have "ret = ret1" using 2(3) Got False rl unfolding m_def by simp
      with 2(1) [OF _ Got _ m_def rl] False show ?thesis by simp
    qed
  qed (use 2 in \<open>auto split: if_splits\<close>)
qed

text \<open>
  A buffer of 2 GiB or more, but less than 4 GiB, that is filled completely is reported with a
  negative result, which every caller takes for an error: the size is converted to \<open>int\<close>.
\<close>

lemma read_bytes_size_truncated:
  assumes "2 ^ 31 \<le> n" and "n < 2 ^ 32" and "n \<le> length strm"
  shows "\<exists>ret. read_bytes [] strm (of_nat n) = (ret, take n strm, drop n strm, []) \<and> ret < 0"
proof -
  have n: "unat (of_nat n :: u64) = n" using assms(2) by (intro unat_of_nat_u64) simp
  have "size_to_int (of_nat n) = sint (of_nat n :: u32)"
    using assms(2) by (simp add: size_to_int_def unsigned_of_nat take_bit_nat_eq_self)
  also have "\<dots> = int n - 2 ^ 32"
  proof -
    have "(int n + 2 ^ 31) mod 2 ^ 32 = int n - 2 ^ 31"
      using assms(1,2) int_mod_pos_eq [of "int n + 2 ^ 31" "2 ^ 32" 1 "int n - 2 ^ 31"] by simp
    then have "signed_take_bit 31 (int n) = int n - 2 ^ 32"
      by (simp add: signed_take_bit_eq_take_bit_shift take_bit_eq_mod)
    then show ?thesis by (simp add: signed_of_nat)
  qed
  finally have "size_to_int (of_nat n) < 0" using assms(2) by simp
  then show ?thesis using assms(3) n by (simp add: read_bytes_def)
qed

subsection \<open>Properties\<close>

text \<open>
  C32: The big-endian codec is a bijection between blocks of eight bytes and 64-bit numbers.
\<close>

theorem codec_bijection:
  "length bs = 8 \<and> big_endian_to_u64 bs = Inr w \<longleftrightarrow> bs = u64_to_big_endian w"
  using u64_big_endian_roundtrip u64.dec_enc [of w] by auto

text \<open>
  Whatever signals, short writes and errors happen, \<open>write_bytes\<close> sends a prefix of the buffer,
  returns 1, 0 or -1, and returns 1 exactly when it sent everything.
\<close>

lemma write_bytes_result:
  assumes "write_bytes sc buf = (ret, sent, sc')"
  shows "ret \<in> {-1, 0, 1} \<and> (\<exists>rest. buf = sent @ rest) \<and> (ret = 1 \<longleftrightarrow> sent = buf)"
  using write_bytes_ret [OF assms] write_bytes_prefix [OF assms] write_bytes_full_iff [OF assms] by blast

text \<open>
  \<open>read_bytes\<close> takes a prefix of the incoming stream, at most as long as was asked for, and
  loses nothing of the rest; its result is -1 or 0, or the buffer is full and the result is
  the size as an \<open>int\<close>.
\<close>

lemma read_bytes_result:
  assumes "read_bytes sc strm sz = (ret, data, strm', sc')"
  shows "strm = data @ strm' \<and> length data \<le> unat sz \<and>
    (ret \<in> {-1, 0} \<or> length data = unat sz \<and> ret = size_to_int sz)"
proof -
  obtain r where r: "read_loop sc strm (unat sz) = (r, data, strm', sc')"
    "ret = (case r of Some r \<Rightarrow> r | None \<Rightarrow> size_to_int sz)"
    using assms by (auto simp: read_bytes_def split: prod.splits)
  have "r \<in> {None, Some (-1), Some 0}"
    using read_loop_ret [OF r(1)] .
  with r(2) read_loop_stream [OF r(1)] show ?thesis by (auto split: option.splits)
qed

text \<open>
  A pause of \<open>msec\<close> milliseconds lasts \<open>msec div 1000\<close> seconds plus as many microseconds, not
  milliseconds, as there are milliseconds left: a pause below one second is a thousand times too short.
\<close>

lemma wait_msec_too_short:
  assumes "0 \<le> msec" and "msec \<le> 2147483"
  shows "\<exists>sec nsec. wait_msec_interval msec = Inr (sec, nsec) \<and>
    sec * 1000000000 + nsec = (msec div 1000) * 1000000000 + (msec mod 1000) * 1000"
  using wait_msec_interval_value [OF assms] by simp


end
