(* ===== verification/Deserializer.thy ===== *)
theory Deserializer
  imports Utilities
begin

text \<open>
  The model of \<open>src/server/deserializer.c\<close>: the incremental parser of protocol
  messages that every connection of the server owns. A message is an 8-byte magic
  code, an 8-byte big-endian payload length and the payload.

  \<open>deserializer_receive\<close> is the part of \<open>receiver_poll\<close> that feeds one chunk of bytes
  from the socket to the deserializer; \<open>pump\<close> repeats it over a byte stream, for any
  sizes the kernel gives to the successive \<open>read\<close> calls. The lemmas show that the
  parser stays in bounds, that framing does not depend on how the stream is cut into
  chunks, and where the 64-bit length arithmetic wraps around.
\<close>

subsection \<open>Data and operations\<close>

definition HEADER_SIZE_IN_BYTES :: u64 where
  "HEADER_SIZE_IN_BYTES = 16"

definition HEADER_MAGIC_CODE_SIZE_IN_BYTES :: u64 where
  "HEADER_MAGIC_CODE_SIZE_IN_BYTES = 8"

definition HEADER_MAGIC_CODE :: u64 where
  "HEADER_MAGIC_CODE = 0x86b2f464f65e01"

record Buffer =
  buf_size_in_bytes :: u64
  raw :: "byte list"

record Deserializer =
  buffer :: "byte list option"
  size_in_bytes :: u64

definition deserializer_create :: Deserializer where
  "deserializer_create = \<lparr>buffer = None, size_in_bytes = 0\<rparr>"

definition deserializer_block :: "Deserializer \<Rightarrow> byte list result" where
  "deserializer_block de =
     (case buffer de of None \<Rightarrow> Inl Null_Deref | Some blk \<Rightarrow> Inr blk)"

definition deserializer_missing :: "Deserializer \<Rightarrow> u64 result" where
  "deserializer_missing de =
     (if size_in_bytes de < HEADER_SIZE_IN_BYTES
      then Inr (HEADER_SIZE_IN_BYTES - size_in_bytes de)
      else bind_result (deserializer_block de) (\<lambda>blk.
           bind_result (big_endian_to_u64 (drop (unat HEADER_MAGIC_CODE_SIZE_IN_BYTES) blk))
             (\<lambda>length_prefix.
                Inr (length_prefix + HEADER_SIZE_IN_BYTES - size_in_bytes de))))"

definition deserializer_validate :: "Deserializer \<Rightarrow> bool result" where
  "deserializer_validate de =
     (if size_in_bytes de < HEADER_MAGIC_CODE_SIZE_IN_BYTES then Inr True
      else bind_result (deserializer_block de) (\<lambda>blk.
           bind_result (big_endian_to_u64 blk) (\<lambda>magic_code.
             Inr (magic_code = HEADER_MAGIC_CODE))))"

definition deserializer_detach ::
    "Deserializer \<Rightarrow> u64 \<Rightarrow> (Buffer option \<times> Deserializer) result" where
  "deserializer_detach de new_bytes =
     (let de = de\<lparr>size_in_bytes := size_in_bytes de + new_bytes\<rparr> in
      bind_result (deserializer_missing de) (\<lambda>missing.
        if 0 < missing then Inr (None, de)
        else bind_result (deserializer_block de) (\<lambda>blk.
          Inr (Some \<lparr>buf_size_in_bytes = size_in_bytes de, raw = blk\<rparr>,
               de\<lparr>buffer := None, size_in_bytes := 0\<rparr>))))"

text \<open>The result is the offset of the sink inside the reallocated block.\<close>

definition deserializer_buffer :: "Deserializer \<Rightarrow> (u64 \<times> Deserializer) result" where
  "deserializer_buffer de =
     bind_result (deserializer_missing de) (\<lambda>missing.
     bind_result (xrealloc (buffer de) (size_in_bytes de + missing)) (\<lambda>blk.
       Inr (size_in_bytes de, de\<lparr>buffer := Some blk\<rparr>)))"

text \<open>What \<open>read\<close> does to the sink: it overwrites the block from the offset on.\<close>

definition write_block :: "byte list \<Rightarrow> nat \<Rightarrow> byte list \<Rightarrow> byte list result" where
  "write_block blk off data =
     (if length blk < off + length data then Inl Out_Of_Bounds
      else Inr (take off blk @ data @ drop (off + length data) blk))"

definition deserializer_receive ::
    "Deserializer \<Rightarrow> byte list \<Rightarrow> (Buffer option \<times> Deserializer) result" where
  "deserializer_receive de chunk =
     bind_result (deserializer_buffer de) (\<lambda>(off, de).
     bind_result (deserializer_missing de) (\<lambda>missing_bytes.
     bind_result (c_assert (0 < missing_bytes)) (\<lambda>_.
     bind_result (deserializer_block de) (\<lambda>blk.
     bind_result (write_block blk (unat off) chunk) (\<lambda>blk.
       deserializer_detach (de\<lparr>buffer := Some blk\<rparr>) (of_nat (length chunk)))))))"

text \<open>
  A connection read to the end of the bytes \<open>strm\<close> the peer has sent: the \<open>i\<close>-th
  call of \<open>read\<close> returns at most \<open>ns ! i + 1\<close> bytes, never more than were asked for.
\<close>

fun pump :: "nat list \<Rightarrow> byte list \<Rightarrow> Deserializer \<Rightarrow>
    (Buffer list \<times> byte list \<times> Deserializer) result" where
  "pump [] strm de = Inr ([], strm, de)"
| "pump (n # ns) strm de =
     (if strm = [] then Inr ([], [], de)
      else bind_result (deserializer_missing de) (\<lambda>missing.
           bind_result (deserializer_receive de (take (min (Suc n) (unat missing)) strm))
             (\<lambda>(msg, de').
           bind_result (pump ns (drop (min (Suc n) (unat missing)) strm) de')
             (\<lambda>(msgs, rest, de'').
               Inr ((case msg of None \<Rightarrow> msgs | Some b \<Rightarrow> b # msgs), rest, de'')))))"

subsection \<open>Representation\<close>

text \<open>
  \<open>de_rep de bs\<close>: the deserializer has received exactly the bytes \<open>bs\<close> of the current
  message. \<open>de_total bs\<close> is the number of bytes the message needs as far as \<open>bs\<close> tells.
\<close>

definition de_rep :: "Deserializer \<Rightarrow> byte list \<Rightarrow> bool" where
  "de_rep de bs \<longleftrightarrow>
     length bs < 2 ^ 64 \<and> size_in_bytes de = of_nat (length bs) \<and>
     (case buffer de of None \<Rightarrow> bs = []
      | Some blk \<Rightarrow> length bs \<le> length blk \<and> take (length bs) blk = bs)"

definition length_prefix :: "byte list \<Rightarrow> nat" where
  "length_prefix bs = (case big_endian_to_u64 (drop 8 bs) of Inl _ \<Rightarrow> 0 | Inr w \<Rightarrow> unat w)"

definition de_total :: "byte list \<Rightarrow> nat" where
  "de_total bs = (if length bs < 16 then 16 else 16 + length_prefix bs)"

definition frame :: "byte list \<Rightarrow> byte list" where
  "frame payload =
     u64_to_big_endian HEADER_MAGIC_CODE @ u64_to_big_endian (of_nat (length payload)) @ payload"

definition complete_msg :: "byte list \<Rightarrow> Buffer" where
  "complete_msg bs = \<lparr>buf_size_in_bytes = of_nat (length bs), raw = bs\<rparr>"

subsection \<open>Feeding one chunk\<close>

lemmas header_defs = HEADER_SIZE_IN_BYTES_def HEADER_MAGIC_CODE_SIZE_IN_BYTES_def

lemma big_endian_append:
  "8 \<le> length bs \<Longrightarrow> big_endian_to_u64 (bs @ xs) = big_endian_to_u64 bs"
  by (auto simp: big_endian_to_u64_def byte_at_def nth_append)

lemma big_endian_total: "8 \<le> length bs \<Longrightarrow> \<exists>w. big_endian_to_u64 bs = Inr w"
  by (simp add: big_endian_to_u64_def)

lemma size_lt_16:
  "length bs < 2 ^ 64 \<Longrightarrow> ((of_nat (length bs) :: u64) < 16) = (length bs < 16)"
  by (simp add: word_less_nat_alt)

lemma de_rep_block:
  assumes "de_rep de bs" and "bs \<noteq> []"
  obtains junk where "buffer de = Some (bs @ junk)"
  using assms
  by (auto simp: de_rep_def split: option.splits) (metis append_take_drop_id)

text \<open>The number of missing bytes, without wrap-around.\<close>

lemma deserializer_missing_rep:
  assumes rep: "de_rep de bs" and le: "length bs \<le> de_total bs" and small: "de_total bs < 2 ^ 64"
  shows "deserializer_missing de = Inr (of_nat (de_total bs - length bs))"
proof (cases "length bs < 16")
  case True
  with rep show ?thesis
    by (simp add: deserializer_missing_def de_total_def de_rep_def header_defs size_lt_16 of_nat_diff)
next
  case False
  with rep obtain junk where blk: "buffer de = Some (bs @ junk)"
    by (metis de_rep_block list.size(3) zero_less_numeral)
  from False obtain w where w: "big_endian_to_u64 (drop 8 bs) = Inr w"
    using big_endian_total [of "drop 8 bs"] by fastforce
  with False have "big_endian_to_u64 (drop 8 bs @ junk) = Inr w"
    by (simp add: big_endian_append)
  with False w blk rep le show ?thesis
    by (simp add: deserializer_missing_def deserializer_block_def de_rep_def header_defs size_lt_16
        de_total_def length_prefix_def of_nat_diff)
qed

lemma xrealloc_grow:
  assumes "de_rep de bs" and "length bs < n" and "n < 2 ^ 64"
  obtains junk where "xrealloc (buffer de) (of_nat n) = Inr (bs @ junk)" and "length (bs @ junk) = n"
proof -
  have n: "unat (of_nat n :: u64) = n" and nz: "(of_nat n :: u64) \<noteq> 0"
    using assms(2,3) by (simp_all add: of_nat_u64_eq_0)
  show thesis
  proof (cases "buffer de")
    case None
    with assms have "bs = []" by (simp add: de_rep_def)
    with None n show thesis by (intro that [of "replicate n 0"]) (simp_all add: xrealloc_def)
  next
    case (Some blk)
    with assms have blk: "blk = bs @ drop (length bs) blk"
      by (simp add: de_rep_def) (metis append_take_drop_id)
    define junk where "junk = take (n - length bs) (drop (length bs) blk) @ replicate (n - length blk) 0"
    have "take n blk = bs @ take (n - length bs) (drop (length bs) blk)"
      using assms(2) by (subst blk) (simp add: take_append)
    then have "xrealloc (buffer de) (of_nat n) = Inr (bs @ junk)"
      using Some n nz by (simp add: xrealloc_def junk_def)
    moreover have "length (bs @ junk) = n"
      using assms(2) arg_cong [OF blk, of length] by (auto simp: junk_def)
    ultimately show thesis by (rule that)
  qed
qed

text \<open>The sink for the missing bytes: the block grows to the size that is known to be needed.\<close>

lemma deserializer_buffer_rep:
  assumes rep: "de_rep de bs" and lt: "length bs < de_total bs" and small: "de_total bs < 2 ^ 64"
  obtains junk where "deserializer_buffer de = Inr (of_nat (length bs), de\<lparr>buffer := Some (bs @ junk)\<rparr>)"
    and "length (bs @ junk) = de_total bs"
    and "deserializer_missing (de\<lparr>buffer := Some (bs @ junk)\<rparr>) = Inr (of_nat (de_total bs - length bs))"
proof -
  have miss: "deserializer_missing de = Inr (of_nat (de_total bs - length bs))"
    using deserializer_missing_rep [OF rep _ small] lt by simp
  have sz: "size_in_bytes de = of_nat (length bs)" using rep by (simp add: de_rep_def)
  then have "size_in_bytes de + of_nat (de_total bs - length bs) = of_nat (de_total bs)" using lt by (simp flip: of_nat_add)
  moreover obtain junk where x: "xrealloc (buffer de) (of_nat (de_total bs)) = Inr (bs @ junk)" "length (bs @ junk) = de_total bs"
    using xrealloc_grow [OF rep lt small] by blast
  moreover have "de_rep (de\<lparr>buffer := Some (bs @ junk)\<rparr>) bs" using rep by (simp add: de_rep_def)
  ultimately show thesis
    using that [of junk] miss sz deserializer_missing_rep [OF _ _ small] lt by (simp add: deserializer_buffer_def)
qed

lemma de_total_append: "16 \<le> length bs \<Longrightarrow> de_total (bs @ c) = de_total bs"
  by (simp add: de_total_def length_prefix_def big_endian_append)

lemma de_total_ge:
  assumes "length bs + length c \<le> de_total bs"
  shows "length (bs @ c) \<le> de_total (bs @ c)"
proof (cases "length bs < 16")
  case True
  with assms show ?thesis by (auto simp: de_total_def)
next
  case False
  with assms show ?thesis by (simp add: de_total_append)
qed

text \<open>A message that is complete after the chunk fills the block exactly.\<close>

lemma de_total_complete:
  assumes "length bs + length c \<le> de_total bs" and "length (bs @ c) = de_total (bs @ c)"
  shows "length (bs @ c) = de_total bs"
proof (cases "length bs < 16")
  case True
  then have "de_total bs = 16" by (simp add: de_total_def)
  with assms True show ?thesis by (auto simp: de_total_def split: if_splits)
next
  case False
  with assms(2) show ?thesis by (simp add: de_total_append)
qed

text \<open>Detaching when the block starts with the bytes \<open>bs\<close>, of which the last \<open>n\<close> are new.\<close>

lemma deserializer_detach_rep:
  assumes n: "size_in_bytes de + n = of_nat (length bs)" and len: "length bs < 2 ^ 64" and le: "length bs \<le> de_total bs"
    and small: "de_total bs < 2 ^ 64"
  shows "\<exists>de'. deserializer_detach (de\<lparr>buffer := Some (bs @ rest)\<rparr>) n =
      (if length bs = de_total bs
       then Inr (Some \<lparr>buf_size_in_bytes = of_nat (length bs), raw = bs @ rest\<rparr>, deserializer_create)
       else Inr (None, de')) \<and> de_rep de' bs"
proof -
  let ?de = "de\<lparr>buffer := Some (bs @ rest), size_in_bytes := of_nat (length bs)\<rparr>"
  have rep: "de_rep ?de bs" using len by (simp add: de_rep_def)
  have miss: "deserializer_missing ?de = Inr (of_nat (de_total bs - length bs))"
    using rep le small by (rule deserializer_missing_rep)
  have "0 < (of_nat (de_total bs - length bs) :: u64) \<longleftrightarrow> length bs \<noteq> de_total bs"
  proof (cases "length bs = de_total bs")
    case False
    with le small show ?thesis using of_nat_u64_pos [of "de_total bs - length bs"] by simp
  qed simp
  then have "deserializer_detach (de\<lparr>buffer := Some (bs @ rest)\<rparr>) n =
      (if length bs = de_total bs
       then Inr (Some \<lparr>buf_size_in_bytes = of_nat (length bs), raw = bs @ rest\<rparr>, deserializer_create)
       else Inr (None, ?de))"
    using n miss by (simp add: deserializer_detach_def Let_def deserializer_block_def deserializer_create_def)
  with rep show ?thesis by blast
qed

text \<open>Feeding one chunk that is not longer than what is missing.\<close>

lemma deserializer_receive_rep:
  assumes rep: "de_rep de bs" and lt: "length bs < de_total bs" and small: "de_total bs < 2 ^ 64"
    and c: "c \<noteq> []" "length bs + length c \<le> de_total bs"
    and small': "de_total (bs @ c) < 2 ^ 64"
  shows "\<exists>de'. deserializer_receive de c =
           (if length (bs @ c) = de_total (bs @ c)
            then Inr (Some (complete_msg (bs @ c)), deserializer_create)
            else Inr (None, de')) \<and>
         (length (bs @ c) \<noteq> de_total (bs @ c) \<longrightarrow> de_rep de' (bs @ c))"
proof -
  obtain junk where buf: "deserializer_buffer de = Inr (of_nat (length bs), de\<lparr>buffer := Some (bs @ junk)\<rparr>)"
    and len: "length (bs @ junk) = de_total bs"
    and miss: "deserializer_missing (de\<lparr>buffer := Some (bs @ junk)\<rparr>) = Inr (of_nat (de_total bs - length bs))"
    by (rule deserializer_buffer_rep [OF rep lt small])
  have pos: "0 < (of_nat (de_total bs - length bs) :: u64)"
    using lt small by (intro of_nat_u64_pos) simp_all
  have ubs: "unat (of_nat (length bs) :: u64) = length bs"
    using lt small by (intro unat_of_nat_u64) simp
  let ?rest = "drop (length c) junk"
  have "write_block (bs @ junk) (length bs) c = Inr ((bs @ c) @ ?rest)"
    using c len by (simp add: write_block_def)
  then have recv: "deserializer_receive de c =
      deserializer_detach (de\<lparr>buffer := Some ((bs @ c) @ ?rest)\<rparr>) (of_nat (length c))"
    using buf miss pos ubs by (simp add: deserializer_receive_def deserializer_block_def)
  have "size_in_bytes de + of_nat (length c) = of_nat (length (bs @ c))" using rep by (simp add: de_rep_def)
  then obtain de' where det: "deserializer_receive de c =
      (if length (bs @ c) = de_total (bs @ c)
       then Inr (Some \<lparr>buf_size_in_bytes = of_nat (length (bs @ c)), raw = (bs @ c) @ ?rest\<rparr>, deserializer_create)
       else Inr (None, de'))" "de_rep de' (bs @ c)"
    using deserializer_detach_rep [of de "of_nat (length c)" "bs @ c" ?rest] de_total_ge [OF c(2)] c(2) small small'
    unfolding recv by auto
  have "?rest = []" if "length (bs @ c) = de_total (bs @ c)"
    using de_total_complete [OF c(2) that] len by simp
  with det show ?thesis by (auto simp: complete_msg_def)
qed

subsection \<open>Framing of a stream\<close>

lemma length_frame [simp]: "length (frame p) = 16 + length p"
  by (simp add: frame_def)

lemma de_total_prefix:
  assumes pre: "frame p = bs @ ys" and small: "length (frame p) < 2 ^ 64"
  shows "de_total bs = (if length bs < 16 then 16 else length (frame p))"
proof (cases "length bs < 16")
  case False
  have "drop 8 (frame p) = drop 8 bs @ ys"
    using False unfolding pre by simp
  moreover have "drop 8 (frame p) = u64_to_big_endian (of_nat (length p)) @ p"
    by (simp add: frame_def)
  ultimately have "big_endian_to_u64 (drop 8 bs @ ys) = Inr (of_nat (length p))"
    by (metis u64.dec_prefix)
  then have "big_endian_to_u64 (drop 8 bs) = Inr (of_nat (length p))"
    using False by (simp add: big_endian_append)
  then show ?thesis
    using False small by (simp add: de_total_def length_prefix_def)
qed (simp add: de_total_def)

text \<open>Within one frame, a chunk either completes it or leaves a longer prefix of it.\<close>

lemma receive_in_frame:
  assumes rep: "de_rep de bs" and pre: "frame p = bs @ ys" and ys: "ys \<noteq> []"
    and small: "length (frame p) < 2 ^ 64" and n: "0 < n"
  defines "c \<equiv> take (min n (de_total bs - length bs)) ys"
  shows "c \<noteq> []"
    and "\<exists>de'. deserializer_receive de c =
           (if bs @ c = frame p then Inr (Some (complete_msg (frame p)), deserializer_create)
            else Inr (None, de')) \<and> (bs @ c \<noteq> frame p \<longrightarrow> de_rep de' (bs @ c))"
proof -
  note tot = de_total_prefix [OF pre small]
  have len: "length (frame p) = length bs + length ys" using pre by simp
  have lt: "length bs < de_total bs" using tot ys len by auto
  have le: "de_total bs \<le> length (frame p)" using tot by auto
  have lc: "length c = min n (de_total bs - length bs)" using le len by (auto simp: c_def)
  then show c: "c \<noteq> []" using n lt by auto
  have pre': "frame p = (bs @ c) @ drop (length c) ys"
    using pre lc by (simp add: c_def)
  note tot' = de_total_prefix [OF pre' small]
  have eq: "length (bs @ c) = de_total (bs @ c) \<longleftrightarrow> bs @ c = frame p"
  proof
    assume "length (bs @ c) = de_total (bs @ c)"
    then have "length (bs @ c) = length (frame p)" using tot' by (auto split: if_splits)
    then have "drop (length c) ys = []" using arg_cong [OF pre', of length] by simp
    with pre' show "bs @ c = frame p" by (metis append_Nil2)
  next
    assume "bs @ c = frame p"
    then show "length (bs @ c) = de_total (bs @ c)" using tot' by simp
  qed
  have "de_total (bs @ c) < 2 ^ 64" "de_total bs < 2 ^ 64"
    using tot' tot small by (auto split: if_splits)
  then show "\<exists>de'. deserializer_receive de c =
           (if bs @ c = frame p then Inr (Some (complete_msg (frame p)), deserializer_create)
            else Inr (None, de')) \<and> (bs @ c \<noteq> frame p \<longrightarrow> de_rep de' (bs @ c))"
    using deserializer_receive_rep [OF rep lt _ c, of ] lc lt unfolding eq by auto
qed

lemma de_rep_create: "de_rep deserializer_create []"
  by (simp add: de_rep_def deserializer_create_def)

lemma pump_step_in_frame:
  assumes rep: "de_rep de bs" and pre: "frame p = bs @ ys" and ys: "ys \<noteq> []"
    and small: "length (frame p) < 2 ^ 64"
  obtains c zs where "ys = c @ zs" and "c \<noteq> []"
    and "pump (n # ns) (ys @ rest) de =
        bind_result (deserializer_receive de c) (\<lambda>(msg, de').
          bind_result (pump ns (zs @ rest) de') (\<lambda>(msgs, rest, de'').
            Inr ((case msg of None \<Rightarrow> msgs | Some b \<Rightarrow> b # msgs), rest, de'')))"
    and "\<exists>de'. deserializer_receive de c =
           (if zs = [] then Inr (Some (complete_msg (frame p)), deserializer_create)
            else Inr (None, de')) \<and> (zs \<noteq> [] \<longrightarrow> de_rep de' (bs @ c))"
proof -
  note tot = de_total_prefix [OF pre small]
  let ?m = "de_total bs - length bs"
  let ?k = "min (Suc n) ?m"
  have lt: "length bs < length (frame p)" using ys by (simp add: pre del: length_frame)
  have miss: "deserializer_missing de = Inr (of_nat ?m)"
    using rep tot lt small by (intro deserializer_missing_rep) (auto split: if_splits)
  have um: "unat (of_nat ?m :: u64) = ?m"
    using tot small by (intro unat_of_nat_u64) (auto split: if_splits)
  have "length (frame p) = length bs + length ys" by (simp add: pre del: length_frame)
  then have "?m \<le> length ys" using tot lt by (auto split: if_splits)
  then have tk: "take ?k (ys @ rest) = take ?k ys" and dr: "drop ?k (ys @ rest) = drop ?k ys @ rest"
    by auto
  have fin: "bs @ take ?k ys = frame p \<longleftrightarrow> drop ?k ys = []"
    unfolding pre by (metis append_Nil2 append_take_drop_id same_append_eq)
  show thesis
  proof (rule that)
    show "ys = take ?k ys @ drop ?k ys" by simp
    show "take ?k ys \<noteq> []" using receive_in_frame(1) [OF rep pre ys small, of "Suc n"] by simp
    show "pump (n # ns) (ys @ rest) de =
        bind_result (deserializer_receive de (take ?k ys)) (\<lambda>(msg, de').
          bind_result (pump ns (drop ?k ys @ rest) de') (\<lambda>(msgs, rest, de'').
            Inr ((case msg of None \<Rightarrow> msgs | Some b \<Rightarrow> b # msgs), rest, de'')))"
      using ys miss by (simp add: um tk dr del: take_append drop_append)
    show "\<exists>de'. deserializer_receive de (take ?k ys) =
           (if drop ?k ys = [] then Inr (Some (complete_msg (frame p)), deserializer_create)
            else Inr (None, de')) \<and> (drop ?k ys \<noteq> [] \<longrightarrow> de_rep de' (bs @ take ?k ys))"
      using receive_in_frame(2) [OF rep pre ys small, of "Suc n"] unfolding fin by simp
  qed
qed

lemma pump_frames_gen:
  assumes "de_rep de bs" and "bs @ strm = concat (map frame ps)"
    and "\<forall>p \<in> set ps. length (frame p) < 2 ^ 64"
    and "length strm \<le> length ns"
    and "case ps of [] \<Rightarrow> True | p # _ \<Rightarrow> length bs < length (frame p)"
  shows "\<exists>de'. pump ns strm de = Inr (map (\<lambda>p. complete_msg (frame p)) ps, [], de') \<and> de_rep de' []"
  using assms
proof (induction ns arbitrary: strm de bs ps)
  case Nil
  then show ?case by (cases ps) auto
next
  case (Cons n ns)
  show ?case
  proof (cases ps)
    case Nil
    with Cons.prems show ?thesis by auto
  next
    case ps: (Cons p ps')
    have lt: "length bs < length (frame p)" and small: "length (frame p) < 2 ^ 64"
      using Cons.prems(3,5) ps by auto
    obtain ys where pre: "frame p = bs @ ys" and strm: "strm = ys @ concat (map frame ps')"
      using Cons.prems(2) lt unfolding ps by (auto simp: append_eq_append_conv2 dest: sym)
    have ys: "ys \<noteq> []" using lt by (auto simp: pre)
    obtain c zs where cz: "ys = c @ zs" and c: "c \<noteq> []"
      and step: "pump (n # ns) strm de =
        bind_result (deserializer_receive de c) (\<lambda>(msg, de').
          bind_result (pump ns (zs @ concat (map frame ps')) de') (\<lambda>(msgs, rest, de'').
            Inr ((case msg of None \<Rightarrow> msgs | Some b \<Rightarrow> b # msgs), rest, de'')))"
      and recv: "\<exists>de'. deserializer_receive de c =
           (if zs = [] then Inr (Some (complete_msg (frame p)), deserializer_create)
            else Inr (None, de')) \<and> (zs \<noteq> [] \<longrightarrow> de_rep de' (bs @ c))"
      unfolding strm by (rule pump_step_in_frame [OF Cons.prems(1) pre ys small])
    have short: "length (zs @ concat (map frame ps')) \<le> length ns"
      using c Cons.prems(4) cz strm by (cases c) auto
    show ?thesis
    proof (cases "zs = []")
      case True
      have "case ps' of [] \<Rightarrow> True | q # _ \<Rightarrow> length [] < length (frame q)"
        by (simp split: list.split)
      then obtain de'' where "pump ns (concat (map frame ps')) deserializer_create =
          Inr (map (\<lambda>p. complete_msg (frame p)) ps', [], de'')" and "de_rep de'' []"
        using Cons.IH [OF de_rep_create, of "concat (map frame ps')" ps'] Cons.prems(3) short ps True
        by auto
      with True recv step ps show ?thesis by auto
    next
      case False
      with recv obtain de' where r: "deserializer_receive de c = Inr (None, de')"
        and rep': "de_rep de' (bs @ c)" by auto
      have "(bs @ c) @ zs @ concat (map frame ps') = concat (map frame ps)"
        by (simp add: ps pre cz)
      moreover have "length (bs @ c) < length (frame p)"
        using False by (simp add: pre cz del: length_frame)
      ultimately obtain de'' where "pump ns (zs @ concat (map frame ps')) de' =
          Inr (map (\<lambda>p. complete_msg (frame p)) ps, [], de'')" and "de_rep de'' []"
        using Cons.IH [OF rep', of "zs @ concat (map frame ps')" ps] Cons.prems(3) short ps by auto
      with r step show ?thesis by auto
    qed
  qed
qed

text \<open>
  A length prefix of \<open>2 ^ 64 - 16\<close> or more makes \<open>size_in_bytes + missing\<close> wrap around
  to less than the 16 bytes already received: \<open>realloc\<close> shrinks the block.
\<close>

lemma deserializer_receive_wraps:
  assumes rep: "de_rep de hdr" and len: "length hdr = 16" and big: "2 ^ 64 - 16 \<le> length_prefix hdr"
  shows "deserializer_receive de chunk =
    Inl (if length_prefix hdr = 2 ^ 64 - 16 then Exit_Failure else Out_Of_Bounds)"
proof -
  obtain w where w: "big_endian_to_u64 (drop 8 hdr) = Inr w"
    using big_endian_total [of "drop 8 hdr"] len by fastforce
  then have lp: "length_prefix hdr = unat w" by (simp add: length_prefix_def)
  obtain junk where blk: "buffer de = Some (hdr @ junk)"
    using de_rep_block [OF rep] len by (metis list.size(3) zero_neq_numeral)
  have sz: "size_in_bytes de = 16" using rep len by (simp add: de_rep_def)
  have miss: "deserializer_missing de = Inr w"
    using blk sz w len
    by (simp add: deserializer_missing_def header_defs deserializer_block_def big_endian_append)
  have u: "unat (16 + w) = unat w + 16 - 2 ^ 64"
    using big lp unat_u64_lt [of w] by (simp add: unat_word_ariths mod_if)
  have z: "16 + w = 0 \<longleftrightarrow> unat w = 2 ^ 64 - 16"
  proof -
    have "unat (16 + w) = 0 \<longleftrightarrow> unat w = 2 ^ 64 - 16"
      unfolding u using big lp by auto
    then show ?thesis by (simp only: unat_eq_zero)
  qed
  show ?thesis
  proof (cases "16 + w = 0")
    case True
    then have "length_prefix hdr = 2 ^ 64 - 16" using z lp by metis
    with True show ?thesis
      using blk miss sz by (simp add: deserializer_receive_def deserializer_buffer_def xrealloc_def)
  next
    case False
    define b where "b = take (unat (16 + w)) (hdr @ junk)"
    have lb: "length b < 16" using u unat_u64_lt [of w] by (simp add: b_def)
    have b: "deserializer_buffer de = Inr (16, de\<lparr>buffer := Some b\<rparr>)"
      using False blk miss sz len u unat_u64_lt [of w]
      by (simp add: deserializer_buffer_def xrealloc_def b_def)
    have "deserializer_missing (de\<lparr>buffer := Some b\<rparr>) = Inl Out_Of_Bounds"
      using sz lb by (simp add: deserializer_missing_def header_defs deserializer_block_def big_endian_to_u64_def)
    then show ?thesis using b False z lp by (simp add: deserializer_receive_def)
  qed
qed

lemma deserializer_validate_rep:
  assumes "de_rep de bs"
  shows "deserializer_validate de =
    Inr (length bs < 8 \<or> take 8 bs = u64_to_big_endian HEADER_MAGIC_CODE)"
proof (cases "length bs < 8")
  case True
  with assms have "size_in_bytes de < 8" by (simp add: de_rep_def word_less_nat_alt)
  with True show ?thesis by (simp add: deserializer_validate_def header_defs)
next
  case False
  with assms have "\<not> size_in_bytes de < 8" by (simp add: de_rep_def word_less_nat_alt)
  from False assms obtain junk where blk: "buffer de = Some (bs @ junk)"
    by (metis de_rep_block list.size(3) zero_less_numeral)
  from False obtain w where w: "big_endian_to_u64 bs = Inr w" using big_endian_total [of bs] by auto
  have t: "big_endian_to_u64 (take 8 bs) = Inr w"
    using w False big_endian_append [of "take 8 bs" "drop 8 bs"] by simp
  have "w = HEADER_MAGIC_CODE \<longleftrightarrow> take 8 bs = u64_to_big_endian HEADER_MAGIC_CODE"
    using t False u64_big_endian_roundtrip [OF _ t] u64.dec_enc by auto
  with False \<open>\<not> size_in_bytes de < 8\<close> w blk show ?thesis
    by (simp add: deserializer_validate_def header_defs deserializer_block_def big_endian_append)
qed

subsection \<open>Properties\<close>

text \<open>
  C14: Framing does not depend on chunking. A stream that is the concatenation of
  well-formed frames, read in chunks of any sizes the kernel chooses, is cut into
  exactly these frames, in order, with no fault and nothing left over; the
  deserializer ends ready for the next message. One read per byte is always enough.
\<close>

theorem pump_frames:
  assumes "\<forall>p \<in> set ps. length p < 2 ^ 64 - 16"
    and "length (concat (map frame ps)) \<le> length ns"
  shows "\<exists>de'. pump ns (concat (map frame ps)) deserializer_create =
           Inr (map (\<lambda>p. complete_msg (frame p)) ps, [], de') \<and> de_rep de' []"
  by (rule pump_frames_gen [OF de_rep_create])
    (use assms in \<open>auto split: list.split\<close>)

theorem pump_frames_witness:
  "\<exists>de'. pump (replicate 40 6) (frame [6, 47, 97] @ frame [7]) deserializer_create =
           Inr ([complete_msg (frame [6, 47, 97]), complete_msg (frame [7])], [], de') \<and> de_rep de' []"
  using pump_frames [of "[[6, 47, 97], [7]]" "replicate 40 6"] by simp

text \<open>
  C29: The length arithmetic wraps around. After a 16-byte header whose length prefix is
  at least \<open>2 ^ 64 - 16\<close>, handling the next bytes of the connection either ends the
  process (the new size is 0) or leaves the bounds of the shrunk block, whatever the
  bytes are.
\<close>

theorem deserializer_length_wraps:
  assumes "de_rep de hdr" and "length hdr = 16" and "2 ^ 64 - 16 \<le> length_prefix hdr"
  shows "deserializer_receive de chunk =
    Inl (if length_prefix hdr = 2 ^ 64 - 16 then Exit_Failure else Out_Of_Bounds)"
  using assms by (rule deserializer_receive_wraps)

theorem deserializer_length_wraps_witness:
  "deserializer_receive
     \<lparr>buffer = Some (u64_to_big_endian HEADER_MAGIC_CODE @ u64_to_big_endian (- 1)), size_in_bytes = 16\<rparr> [0] =
   Inl Out_Of_Bounds"
proof -
  let ?hdr = "u64_to_big_endian HEADER_MAGIC_CODE @ u64_to_big_endian (- 1)"
  have lp: "length_prefix ?hdr = 2 ^ 64 - 1"
    using u64.dec_enc [of "- 1"] by (simp add: length_prefix_def unsigned_minus_1_eq_mask mask_eq_exp_minus_1)
  have "de_rep \<lparr>buffer = Some ?hdr, size_in_bytes = 16\<rparr> ?hdr" by (simp add: de_rep_def)
  from deserializer_length_wraps [OF this, of "[0]"] show ?thesis by (simp add: lp)
qed

end
