(* ===== verification/Workload_Queue.thy ===== *)
theory Workload_Queue
  imports Deserializer
begin

text \<open>
  The model of \<open>src/server/workload_queue.c\<close>: one queue of messages per worker, filled by the
  receiver and emptied by the worker. Messages live in a heap; a queue is a pair of pointers
  into it. The mutex of a queue is taken and released inside each operation, which is
  atomic here; waiting on the condition variable is an outcome of \<open>workload_queue_pull\<close>.
  \<open>Queue_Threads\<close> has the steps of the mutex and the condition variable.

  The lemmas show that the queue is a mailbox with one place, not a queue, and that it is
  used after free once its worker has handled a message.
\<close>

record Message =
  msg_fd :: int
  msg_buffer :: Buffer
  msg_next :: ptr

record WorkloadQueue =
  next_incoming :: ptr
  last_incoming :: ptr

record Workload =
  messages :: "Message heap"
  workload_queues :: "WorkloadQueue list"

datatype pull_result = Pull_Waits | Pull_Returns ptr

definition workload_queues_init :: "u32 \<Rightarrow> Message heap \<Rightarrow> Workload" where
  "workload_queues_init n h =
     \<lparr>messages = h, workload_queues = replicate (unat n) \<lparr>next_incoming = None, last_incoming = None\<rparr>\<rparr>"

definition workload_queue_get :: "Workload \<Rightarrow> nat \<Rightarrow> WorkloadQueue result" where
  "workload_queue_get w i =
     (if i < length (workload_queues w) then Inr (workload_queues w ! i) else Inl Out_Of_Bounds)"

definition set_queue :: "nat \<Rightarrow> WorkloadQueue \<Rightarrow> Workload \<Rightarrow> Workload" where
  "set_queue i q w = w\<lparr>workload_queues := (workload_queues w)[i := q]\<rparr>"

definition set_next :: "nat \<Rightarrow> ptr \<Rightarrow> Workload \<Rightarrow> Workload result" where
  "set_next a p w =
     bind_result (heap_load a (messages w)) (\<lambda>m.
       Inr (w\<lparr>messages := heap_store a (m\<lparr>msg_next := p\<rparr>) (messages w)\<rparr>))"

definition workload_queue_pull :: "bool \<Rightarrow> nat \<Rightarrow> Workload \<Rightarrow> (pull_result \<times> Workload) result" where
  "workload_queue_pull hard i w =
     bind_result (workload_queue_get w i) (\<lambda>q.
     case next_incoming q of
       None \<Rightarrow> Inr (if hard then Pull_Returns None else Pull_Waits, w)
     | Some a \<Rightarrow>
         bind_result (heap_load a (messages w)) (\<lambda>m.
         bind_result (set_next a None (set_queue i (q\<lparr>next_incoming := msg_next m\<rparr>) w)) (\<lambda>w.
           Inr (Pull_Returns (Some a), w))))"

definition workload_queue_add :: "nat \<Rightarrow> nat \<Rightarrow> Workload \<Rightarrow> Workload result" where
  "workload_queue_add a i w =
     bind_result (c_assert (i < length (workload_queues w))) (\<lambda>_.
     bind_result (heap_load a (messages w)) (\<lambda>m.
     bind_result (c_assert (msg_next m = None)) (\<lambda>_.
     bind_result (workload_queue_get w i) (\<lambda>q.
     let q = q\<lparr>next_incoming := Some a\<rparr> in
     case last_incoming q of
       Some l \<Rightarrow>
         bind_result (set_next l (Some a) w) (\<lambda>w. Inr (set_queue i (q\<lparr>last_incoming := Some a\<rparr>) w))
     | None \<Rightarrow> Inr (set_queue i (q\<lparr>next_incoming := Some a, last_incoming := Some a\<rparr>) w)))))"

text \<open>What the receiver does with a complete message: allocate it and add it to a queue.\<close>

definition hand_over_buf_to_worker :: "u32 \<Rightarrow> nat \<Rightarrow> Buffer \<Rightarrow> int \<Rightarrow> Workload \<Rightarrow> Workload result" where
  "hand_over_buf_to_worker num_workers r buf fd w =
     (if num_workers = 0 then Inl Int_Overflow
      else
        let thread_i = unat ((of_nat r :: u32) mod num_workers) in
        case heap_alloc \<lparr>msg_fd = fd, msg_buffer = buf, msg_next = None\<rparr> (messages w) of
          (a, h) \<Rightarrow> workload_queue_add a thread_i (w\<lparr>messages := h\<rparr>))"

text \<open>The end of the handling of a message by a worker: \<open>free(msg)\<close>.\<close>

definition free_message :: "nat \<Rightarrow> Workload \<Rightarrow> Workload" where
  "free_message a w = w\<lparr>messages := heap_free a (messages w)\<rparr>"

fun workload_queue_free :: "nat \<Rightarrow> ptr \<Rightarrow> Message heap \<Rightarrow> Message heap result" where
  "workload_queue_free fuel None h = Inr h"
| "workload_queue_free 0 (Some a) h = Inl Stuck"
| "workload_queue_free (Suc fuel) (Some a) h =
     bind_result (heap_load a h) (\<lambda>m. workload_queue_free fuel (msg_next m) (heap_free a h))"

fun workload_queues_free :: "WorkloadQueue list \<Rightarrow> Message heap \<Rightarrow> Message heap result" where
  "workload_queues_free [] h = Inr h"
| "workload_queues_free (q # qs) h =
     bind_result (workload_queue_free (Suc (brk h)) (next_incoming q) h) (workload_queues_free qs)"

text \<open>The queue of worker \<open>i\<close> as long as the messages it points to have not been freed.\<close>

definition queue_ok :: "nat \<Rightarrow> Workload \<Rightarrow> bool" where
  "queue_ok i w \<longleftrightarrow>
     i < length (workload_queues w) \<and> heap_ok (messages w) \<and>
     (case last_incoming (workload_queues w ! i) of None \<Rightarrow> True | Some l \<Rightarrow> l \<in> dom (cells (messages w))) \<and>
     (case next_incoming (workload_queues w ! i) of
        None \<Rightarrow> True
      | Some a \<Rightarrow> (case cells (messages w) a of None \<Rightarrow> False | Some m \<Rightarrow> msg_next m = None))"

definition pending :: "nat \<Rightarrow> Workload \<Rightarrow> (int \<times> Buffer) option" where
  "pending i w =
     (case next_incoming (workload_queues w ! i) of
        None \<Rightarrow> None
      | Some a \<Rightarrow> map_option (\<lambda>m. (msg_fd m, msg_buffer m)) (cells (messages w) a))"

text \<open>The worker's side: pull a message, if there is one, and read it.\<close>

definition pull_message :: "nat \<Rightarrow> Workload \<Rightarrow> ((int \<times> Buffer) option \<times> Workload) result" where
  "pull_message i w =
     bind_result (workload_queue_pull False i w) (\<lambda>(p, w).
     case p of
       Pull_Returns (Some a) \<Rightarrow>
         bind_result (heap_load a (messages w)) (\<lambda>m. Inr (Some (msg_fd m, msg_buffer m), w))
     | _ \<Rightarrow> Inr (None, w))"

definition thread_of :: "u32 \<Rightarrow> nat \<Rightarrow> nat" where
  "thread_of n r = unat ((of_nat r :: u32) mod n)"

subsection \<open>A mailbox with one place\<close>

text \<open>
  The interface the receiver and a worker share: a place for at most one message. A new
  message takes the place of a pending one.
\<close>

locale mailbox =
  fixes ok :: "'s \<Rightarrow> bool"
    and slot :: "'s \<Rightarrow> 'm option"
    and put :: "'m \<Rightarrow> 's \<Rightarrow> 's result"
    and take_msg :: "'s \<Rightarrow> ('m option \<times> 's) result"
  assumes put: "ok s \<Longrightarrow> \<exists>s'. put m s = Inr s' \<and> ok s' \<and> slot s' = Some m"
    and take_msg: "ok s \<Longrightarrow> \<exists>s'. take_msg s = Inr (slot s, s') \<and> ok s' \<and> slot s' = None"
begin

lemma puts:
  assumes "ok s"
  shows "\<exists>s'. fold (\<lambda>m r. bind_result r (put m)) ms (Inr s) = Inr s' \<and> ok s' \<and>
    slot s' = (if ms = [] then slot s else Some (last ms))"
  using assms
proof (induction ms arbitrary: s)
  case (Cons m ms)
  obtain s1 where "put m s = Inr s1" "ok s1" "slot s1 = Some m" using put [OF Cons.prems] by blast
  with Cons.IH [of s1] show ?case by auto
qed simp

lemma only_last_delivered:
  assumes "ok s" and "ms \<noteq> []"
  shows "\<exists>s1 s2 s3. fold (\<lambda>m r. bind_result r (put m)) ms (Inr s) = Inr s1 \<and>
    take_msg s1 = Inr (Some (last ms), s2) \<and> take_msg s2 = Inr (None, s3)"
  using puts [OF assms(1), of ms] take_msg assms(2) by metis

end

subsection \<open>The queue is such a mailbox\<close>

lemma hand_over_queue:
  assumes ok: "queue_ok (thread_of n r) w" and n: "n \<noteq> 0"
  shows "\<exists>w'. hand_over_buf_to_worker n r buf fd w = Inr w' \<and> queue_ok (thread_of n r) w' \<and>
    pending (thread_of n r) w' = Some (fd, buf)"
proof -
  let ?i = "thread_of n r" and ?a = "brk (messages w)" and ?m = "\<lparr>msg_fd = fd, msg_buffer = buf, msg_next = None\<rparr>"
  define h where "h = (messages w)\<lparr>cells := (cells (messages w))(?a \<mapsto> ?m), brk := Suc ?a\<rparr>"
  have i: "?i < length (workload_queues w)" and hok: "heap_ok (messages w)" using ok by (simp_all add: queue_ok_def)
  have h: "heap_ok h" unfolding h_def using hok by (rule heap_ok_alloc)
  have "hand_over_buf_to_worker n r buf fd w = workload_queue_add ?a ?i (w\<lparr>messages := h\<rparr>)"
    using n by (simp add: hand_over_buf_to_worker_def thread_of_def heap_alloc_def h_def)
  moreover have "\<exists>w'. workload_queue_add ?a ?i (w\<lparr>messages := h\<rparr>) = Inr w' \<and> queue_ok ?i w' \<and> pending ?i w' = Some (fd, buf)"
  proof (cases "last_incoming (workload_queues w ! ?i)")
    case None
    with i h show ?thesis
      by (auto simp: workload_queue_add_def workload_queue_get_def set_queue_def queue_ok_def pending_def h_def)
  next
    case (Some l)
    then obtain ml where l: "cells (messages w) l = Some ml" using ok by (auto simp: queue_ok_def)
    then have la: "l \<noteq> ?a" using heap_ok_fresh [OF hok] by auto
    have "heap_ok (heap_store l (ml\<lparr>msg_next := Some ?a\<rparr>) h)"
      using l la by (intro heap_ok_store [OF h]) (auto simp: h_def)
    with i l la Some show ?thesis
      by (auto simp: workload_queue_add_def workload_queue_get_def set_queue_def set_next_def queue_ok_def pending_def
          h_def heap_load_def heap_store_def)
  qed
  ultimately show ?thesis by simp
qed

lemma pull_queue:
  assumes ok: "queue_ok i w"
  shows "\<exists>w'. pull_message i w = Inr (pending i w, w') \<and> queue_ok i w' \<and> pending i w' = None"
proof (cases "next_incoming (workload_queues w ! i)")
  case None
  with ok show ?thesis
    by (simp add: pull_message_def workload_queue_pull_def workload_queue_get_def queue_ok_def pending_def)
next
  case (Some a)
  then obtain m where m: "cells (messages w) a = Some m" "msg_next m = None"
    using ok by (auto simp: queue_ok_def split: option.splits)
  have "heap_ok (heap_store a (m\<lparr>msg_next := None\<rparr>) (messages w))"
    using ok m(1) by (intro heap_ok_store) (auto simp: queue_ok_def)
  then show ?thesis
    using ok Some m
    by (auto simp: pull_message_def workload_queue_pull_def workload_queue_get_def set_next_def set_queue_def
        queue_ok_def pending_def heap_store_def split: option.splits)
qed

interpretation queue: mailbox "\<lambda>w. n \<noteq> 0 \<and> queue_ok (thread_of n r) w" "pending (thread_of n r)"
    "\<lambda>(fd, buf). hand_over_buf_to_worker n r buf fd" "pull_message (thread_of n r)"
  for n r
  by unfold_locales (use hand_over_queue pull_queue in fastforce)+

lemma init_queue_ok:
  assumes "i < unat n" and "heap_ok h"
  shows "queue_ok i (workload_queues_init n h)"
  using assms by (simp add: queue_ok_def workload_queues_init_def)

lemma thread_of_lt: "n \<noteq> 0 \<Longrightarrow> thread_of n r < unat n"
  by (simp add: thread_of_def unat_mod_distrib word_neq_0_conv unat_gt_0)

subsection \<open>Properties\<close>

text \<open>
  C25: The messages that the receiver hands over to one worker before the worker pulls are not
  queued: whatever their number, the worker gets the last one and then none, and the others
  are never delivered.
\<close>

theorem only_last_message_delivered:
  assumes "n \<noteq> 0" and "heap_ok h" and "msgs \<noteq> []"
  shows "\<exists>w1 w2 w3.
    fold (\<lambda>(fd, buf) w. bind_result w (hand_over_buf_to_worker n r buf fd)) msgs (Inr (workload_queues_init n h)) = Inr w1 \<and>
    pull_message (thread_of n r) w1 = Inr (Some (last msgs), w2) \<and>
    pull_message (thread_of n r) w2 = Inr (None, w3)"
proof -
  have "n \<noteq> 0 \<and> queue_ok (thread_of n r) (workload_queues_init n h)"
    using assms init_queue_ok [OF thread_of_lt] by simp
  from queue.only_last_delivered [OF this assms(3)] show ?thesis
    by (simp add: case_prod_unfold)
qed

theorem only_last_message_delivered_witness:
  "\<exists>w1 w2 w3.
    fold (\<lambda>(fd, buf) w. bind_result w (hand_over_buf_to_worker 2 7 buf fd))
      [(4, complete_msg [1]), (5, complete_msg [2])] (Inr (workload_queues_init 2 heap_empty)) = Inr w1 \<and>
    pull_message (thread_of 2 7) w1 = Inr (Some (5, complete_msg [2]), w2) \<and>
    pull_message (thread_of 2 7) w2 = Inr (None, w3)"
  using only_last_message_delivered [of 2 heap_empty "[(4, complete_msg [1]), (5, complete_msg [2])]" 7] by simp

text \<open>
  C27: A worker frees a message when it has handled it, but the queue keeps pointing to it: the next
  message handed over to that worker is linked through the dangling pointer.
\<close>

theorem next_message_after_free:
  assumes n: "n \<noteq> 0" and h: "heap_ok h"
    and w1: "hand_over_buf_to_worker n r buf fd (workload_queues_init n h) = Inr w1"
    and pull: "workload_queue_pull hard (thread_of n r) w1 = Inr (Pull_Returns (Some a), w2)"
  shows "hand_over_buf_to_worker n r buf' fd' (free_message a w2) = Inl Use_After_Free"
proof -
  have i: "thread_of n r < unat n" using thread_of_lt [OF n] .
  have "brk h \<noteq> Suc (brk h)" by simp
  with n i w1 pull show ?thesis
    by (auto simp: hand_over_buf_to_worker_def thread_of_def [symmetric] heap_alloc_def workload_queues_init_def
        workload_queue_add_def workload_queue_get_def set_queue_def set_next_def workload_queue_pull_def free_message_def
        heap_load_def heap_store_def heap_free_def)
qed

theorem next_message_after_free_witness:
  "\<exists>w1 a w2. hand_over_buf_to_worker 1 3 (complete_msg [1]) 4 (workload_queues_init 1 heap_empty) = Inr w1 \<and>
     workload_queue_pull False (thread_of 1 3) w1 = Inr (Pull_Returns (Some a), w2) \<and>
     hand_over_buf_to_worker 1 3 (complete_msg [2]) 4 (free_message a w2) = Inl Use_After_Free"
proof -
  have "case hand_over_buf_to_worker 1 3 (complete_msg [1]) 4 (workload_queues_init 1 heap_empty) of
      Inl _ \<Rightarrow> False
    | Inr w1 \<Rightarrow> (case workload_queue_pull False (thread_of 1 3) w1 of
         Inr (Pull_Returns (Some a), w2) \<Rightarrow> True | _ \<Rightarrow> False)"
    by code_simp
  then obtain w1 a w2 where w: "hand_over_buf_to_worker 1 3 (complete_msg [1]) 4 (workload_queues_init 1 heap_empty) = Inr w1"
    "workload_queue_pull False (thread_of 1 3) w1 = Inr (Pull_Returns (Some a), w2)"
    by (auto split: sum.splits pull_result.splits option.splits)
  with next_message_after_free [OF _ _ w, of "complete_msg [2]" 4] show ?thesis by auto
qed

end
