(* ===== verification/Receiver.thy ===== *)
theory Receiver
  imports Workload_Queue "HOL-Library.Multiset"
begin

text \<open>
  The model of \<open>src/server/receiver.c\<close>: the thread that polls the listening socket and every
  client connection, accepts connections, feeds the bytes it reads to the deserializer of the
  connection and hands complete messages over to the workers.

  The kernel is an input: a \<open>Poll_Event\<close> holds what one iteration's \<open>poll\<close>, \<open>accept\<close>, \<open>read\<close>
  and \<open>rand\<close> return. The two arrays of a receiver are lists whose length is the allocated
  size; an access out of bounds is a fault. \<open>closed_fds\<close> logs the arguments of \<open>close\<close>.
\<close>

unbundle bit_operations_syntax

subsection \<open>State\<close>

definition POLLIN :: int where
  "POLLIN = 1"

record Pollfd =
  poll_fd :: int
  events :: int
  revents :: int

record Receiver =
  rx_num_workers :: u32
  max_fd :: int
  active_sockets_count :: nat
  active_sockets :: "Pollfd list"
  deserializers :: "Deserializer list"
  accept_new_connections :: bool

datatype recv = Recv "byte list" | Recv_Error

record Poll_Event =
  poll_ret :: int
  poll_revents :: "int list"
  accept_ret :: int
  read_ret :: "nat \<Rightarrow> recv"
  rand_ret :: "nat \<Rightarrow> nat"

record Poll_State =
  receiver :: Receiver
  workload :: Workload
  closed_fds :: "int list"

definition array_get :: "'a list \<Rightarrow> nat \<Rightarrow> 'a result" where
  "array_get xs i = (if i < length xs then Inr (xs ! i) else Inl Out_Of_Bounds)"

definition array_set :: "'a list \<Rightarrow> nat \<Rightarrow> 'a \<Rightarrow> 'a list result" where
  "array_set xs i x = (if i < length xs then Inr (xs[i := x]) else Inl Out_Of_Bounds)"

text \<open>\<open>realloc\<close> of an array to \<open>n\<close> elements; the value of a new element is \<open>junk\<close> until it is set.\<close>

definition array_realloc :: "nat \<Rightarrow> 'a \<Rightarrow> 'a list \<Rightarrow> 'a list" where
  "array_realloc n junk xs = take n xs @ replicate (n - length xs) junk"

definition pollfd_in :: "int \<Rightarrow> Pollfd" where
  "pollfd_in fd = \<lparr>poll_fd = fd, events = POLLIN, revents = 0\<rparr>"

subsection \<open>Operations\<close>

definition receiver_create :: "int \<Rightarrow> u32 \<Rightarrow> Receiver" where
  "receiver_create socket_descriptor n =
     \<lparr>rx_num_workers = n, max_fd = socket_descriptor, active_sockets_count = 1,
      active_sockets = [pollfd_in socket_descriptor], deserializers = [deserializer_create],
      accept_new_connections = True\<rparr>"

definition receiver_disable_new_connections :: "Receiver \<Rightarrow> Receiver" where
  "receiver_disable_new_connections r = r\<lparr>accept_new_connections := False\<rparr>"

definition receiver_has_new_connection :: "Receiver \<Rightarrow> bool result" where
  "receiver_has_new_connection r =
     bind_result (array_get (active_sockets r) 0) (\<lambda>p. Inr (0 < revents p AND POLLIN))"

definition clear_events :: "nat \<Rightarrow> Receiver \<Rightarrow> Receiver result" where
  "clear_events i r =
     bind_result (array_get (active_sockets r) i) (\<lambda>p.
     bind_result (array_set (active_sockets r) i (p\<lparr>revents := 0\<rparr>)) (\<lambda>ps.
       Inr (r\<lparr>active_sockets := ps\<rparr>)))"

definition set_fd :: "nat \<Rightarrow> int \<Rightarrow> Receiver \<Rightarrow> Receiver result" where
  "set_fd i fd r =
     bind_result (array_get (active_sockets r) i) (\<lambda>p.
     bind_result (array_set (active_sockets r) i (p\<lparr>poll_fd := fd\<rparr>)) (\<lambda>ps.
       Inr (r\<lparr>active_sockets := ps\<rparr>)))"

text \<open>\<open>fd\<close> is the result of \<open>accept\<close>. The \<open>read\<close> of zero bytes has no effect.\<close>

definition receiver_add_new_connection :: "int \<Rightarrow> Receiver \<Rightarrow> Receiver result" where
  "receiver_add_new_connection fd r =
     (if fd < 0 then clear_events 0 r
      else
        let n = Suc (active_sockets_count r) in
        bind_result (array_set (array_realloc n (pollfd_in 0) (active_sockets r)) (n - 1) (pollfd_in fd)) (\<lambda>ps.
        bind_result (array_set (array_realloc n deserializer_create (deserializers r)) (n - 1) deserializer_create) (\<lambda>des.
          clear_events 0 (r\<lparr>active_sockets_count := n, active_sockets := ps, deserializers := des\<rparr>))))"

function cleanup_loop :: "nat \<Rightarrow> nat \<Rightarrow> Receiver \<Rightarrow> int list \<Rightarrow> (Receiver \<times> int list) result" where
  "cleanup_loop i last_i r closed =
     (if i \<le> last_i then
        bind_result (array_get (active_sockets r) i) (\<lambda>p.
          if poll_fd p < 0 then
            bind_result (array_get (active_sockets r) last_i) (\<lambda>p_last.
            bind_result (array_get (deserializers r) last_i) (\<lambda>de_last.
            bind_result (array_set (deserializers r) i de_last) (\<lambda>des.
              cleanup_loop (Suc i) (last_i - 1)
                (r\<lparr>active_sockets := (active_sockets r)[i := p_last], deserializers := des,
                   active_sockets_count := active_sockets_count r - 1\<rparr>)
                (closed @ [- poll_fd p]))))
          else cleanup_loop (Suc i) last_i r closed)
      else Inr (r, closed))"
  by pat_completeness auto
termination
  by (relation "measure (\<lambda>(i, last_i, _). Suc last_i - i)") auto

definition receiver_cleanup :: "Receiver \<Rightarrow> (Receiver \<times> int list) result" where
  "receiver_cleanup r =
     bind_result (cleanup_loop 1 (active_sockets_count r - 1) r []) (\<lambda>(r, closed).
       let n = active_sockets_count r in
       Inr (r\<lparr>active_sockets := array_realloc n (pollfd_in 0) (active_sockets r),
              deserializers := array_realloc n deserializer_create (deserializers r)\<rparr>, closed))"

definition receiver_is_dead :: "Receiver \<Rightarrow> bool" where
  "receiver_is_dead r \<longleftrightarrow> \<not> accept_new_connections r \<and> active_sockets_count r \<le> 1"

text \<open>The first loop of \<open>receiver_poll\<close>; the flag says that the function returned inside it.\<close>

fun validate_loop :: "nat list \<Rightarrow> Receiver \<Rightarrow> (bool \<times> Receiver) result" where
  "validate_loop [] r = Inr (False, r)"
| "validate_loop (i # is) r =
     bind_result (array_get (deserializers r) i) (\<lambda>de.
     bind_result (deserializer_validate de) (\<lambda>is_valid.
       if \<not> is_valid then
         bind_result (array_get (active_sockets r) i) (\<lambda>p.
         bind_result (set_fd i (- poll_fd p) r) (\<lambda>r. Inr (True, r)))
       else bind_result (deserializer_missing de) (\<lambda>_. validate_loop is r)))"

definition set_deserializer :: "nat \<Rightarrow> Deserializer \<Rightarrow> Poll_State \<Rightarrow> Poll_State" where
  "set_deserializer i de st =
     st\<lparr>receiver := (receiver st)\<lparr>deserializers := (deserializers (receiver st))[i := de]\<rparr>\<rparr>"

definition drop_connection :: "nat \<Rightarrow> Poll_State \<Rightarrow> Poll_State result" where
  "drop_connection i st =
     bind_result (set_fd i (- 1) (receiver st)) (\<lambda>r. Inr (st\<lparr>receiver := r\<rparr>))"

text \<open>
  A readable connection: \<open>read\<close> returns at most the missing bytes. The branch with data is
  \<open>deserializer_receive\<close>, followed by the hand-over of a complete message.
\<close>

definition receive_on :: "nat \<Rightarrow> Poll_Event \<Rightarrow> Poll_State \<Rightarrow> Poll_State result" where
  "receive_on i ev st =
     bind_result (array_get (active_sockets (receiver st)) i) (\<lambda>p.
     bind_result (array_get (deserializers (receiver st)) i) (\<lambda>de.
     bind_result (deserializer_buffer de) (\<lambda>(_, de_buf).
     bind_result (deserializer_missing de_buf) (\<lambda>missing_bytes.
     bind_result (c_assert (0 < missing_bytes)) (\<lambda>_.
       case read_ret ev i of
         Recv_Error \<Rightarrow> drop_connection i (set_deserializer i de_buf st)
       | Recv bs \<Rightarrow>
           (if bs = [] then drop_connection i (set_deserializer i de_buf st)
            else
              bind_result (deserializer_receive de (take (unat missing_bytes) bs)) (\<lambda>(buf, de).
                let st = set_deserializer i de st in
                case buf of
                  None \<Rightarrow> Inr st
                | Some b \<Rightarrow>
                    bind_result (hand_over_buf_to_worker (rx_num_workers (receiver st)) (rand_ret ev i) b (poll_fd p) (workload st))
                      (\<lambda>w. Inr (st\<lparr>workload := w\<rparr>)))))))))"

definition poll_connection :: "nat \<Rightarrow> Poll_Event \<Rightarrow> Poll_State \<Rightarrow> (bool \<times> Poll_State) result" where
  "poll_connection i ev st =
     bind_result (array_get (active_sockets (receiver st)) i) (\<lambda>p.
       if 0 < revents p \<and> revents p \<noteq> POLLIN then
         bind_result (set_fd i (- poll_fd p) (receiver st)) (\<lambda>r. Inr (True, st\<lparr>receiver := r\<rparr>))
       else
         bind_result (if 0 < revents p AND POLLIN then receive_on i ev st else Inr st) (\<lambda>st.
         bind_result (clear_events i (receiver st)) (\<lambda>r. Inr (False, st\<lparr>receiver := r\<rparr>))))"

fun poll_loop :: "nat list \<Rightarrow> Poll_Event \<Rightarrow> Poll_State \<Rightarrow> Poll_State result" where
  "poll_loop [] ev st = Inr st"
| "poll_loop (i # is) ev st =
     bind_result (poll_connection i ev st) (\<lambda>(returned, st).
       if returned then Inr st else poll_loop is ev st)"

text \<open>What \<open>poll\<close> does to the array: it sets the \<open>revents\<close> of every entry.\<close>

definition set_revents :: "int list \<Rightarrow> Receiver \<Rightarrow> Receiver" where
  "set_revents evs r =
     r\<lparr>active_sockets := map2 (\<lambda>p e. p\<lparr>revents := e\<rparr>) (active_sockets r)
        (take (length (active_sockets r)) (evs @ replicate (length (active_sockets r)) 0))\<rparr>"

definition handle_new_connection :: "Poll_Event \<Rightarrow> Receiver \<Rightarrow> Receiver result" where
  "handle_new_connection ev r =
     bind_result (receiver_has_new_connection r) (\<lambda>new.
       if \<not> new then Inr r
       else if accept_new_connections r then receiver_add_new_connection (accept_ret ev) r
       else clear_events 0 r)"

definition receiver_poll :: "Poll_Event \<Rightarrow> Poll_State \<Rightarrow> (int \<times> Poll_State) result" where
  "receiver_poll ev st =
     bind_result (receiver_cleanup (receiver st)) (\<lambda>(r, closed).
       let st = st\<lparr>receiver := r, closed_fds := closed_fds st @ closed\<rparr> in
       if poll_ret ev < 0 then Inr (- 1, st)
       else if poll_ret ev = 0 then Inr (0, st)
       else
         bind_result (handle_new_connection ev (set_revents (poll_revents ev) r)) (\<lambda>r.
         let conns = [1..<active_sockets_count r] in
         bind_result (validate_loop conns r) (\<lambda>(returned, r).
           let st = st\<lparr>receiver := r\<rparr> in
           if returned then Inr (0, st)
           else bind_result (poll_loop conns ev st) (\<lambda>st. Inr (0, st)))))"

definition receiver_free :: "Receiver \<Rightarrow> int list" where
  "receiver_free r = map poll_fd (take (active_sockets_count r) (active_sockets r))"

definition receiver_add :: "int \<Rightarrow> Receiver \<Rightarrow> Receiver result" where
  "receiver_add fd r =
     (let n = active_sockets_count r in
      bind_result (array_set (array_realloc n (pollfd_in 0) (active_sockets r)) n (pollfd_in fd)) (\<lambda>ps.
      bind_result (array_set (array_realloc n deserializer_create (deserializers r)) n deserializer_create) (\<lambda>des.
        Inr (r\<lparr>active_sockets := ps, deserializers := des, active_sockets_count := Suc n\<rparr>))))"


subsection \<open>Well-formed receivers\<close>

definition receiver_ok :: "Receiver \<Rightarrow> bool" where
  "receiver_ok r \<longleftrightarrow>
     0 < active_sockets_count r \<and> length (active_sockets r) = active_sockets_count r \<and>
     length (deserializers r) = active_sockets_count r"

definition conns :: "Receiver \<Rightarrow> (Pollfd \<times> Deserializer) list" where
  "conns r = take (active_sockets_count r) (zip (active_sockets r) (deserializers r))"

definition dead :: "Pollfd \<times> Deserializer \<Rightarrow> bool" where
  "dead c \<longleftrightarrow> poll_fd (fst c) < 0"

lemma array_get_ok [simp]: "i < length xs \<Longrightarrow> array_get xs i = Inr (xs ! i)"
  by (simp add: array_get_def)

lemma array_set_ok [simp]: "i < length xs \<Longrightarrow> array_set xs i x = Inr (xs[i := x])"
  by (simp add: array_set_def)

lemma array_realloc_shrink: "n \<le> length xs \<Longrightarrow> array_realloc n x xs = take n xs"
  by (simp add: array_realloc_def)

lemma mset_butlast_swap:
  assumes "i < length xs"
  shows "mset xs = add_mset (xs ! i) (mset (butlast (xs[i := last xs])))"
proof -
  obtain ys y where xs: "xs = ys @ [y]" using assms by (cases xs rule: rev_cases) auto
  show ?thesis
  proof (cases "i = length ys")
    case False
    with assms xs have i: "i < length ys" by simp
    then have "butlast (xs[i := last xs]) = ys[i := y]" by (simp add: xs list_update_append1)
    moreover have "ys ! i \<in># mset ys" using i by simp
    ultimately show ?thesis using i by (simp add: xs nth_append mset_update)
  qed (simp add: xs)
qed

lemma conns_swap:
  assumes "length ss = length ds" and "Suc l \<le> length ss" and "i \<le> l"
  shows "take l (zip (ss[i := ss ! l]) (ds[i := ds ! l])) =
    butlast ((take (Suc l) (zip ss ds))[i := last (take (Suc l) (zip ss ds))])"
proof -
  have z: "take (Suc l) (zip ss ds) = take l (zip ss ds) @ [zip ss ds ! l]"
    using assms by (simp add: take_Suc_conv_app_nth)
  have u: "zip (ss[i := ss ! l]) (ds[i := ds ! l]) = (zip ss ds)[i := zip ss ds ! l]"
    using assms by (simp add: zip_update [symmetric])
  define zs where "zs = take l (zip ss ds)"
  define y where "y = zip ss ds ! l"
  have lz: "length zs = l" using assms by (simp add: zs_def)
  have "take l ((zip ss ds)[i := y]) = zs[i := y]" by (simp add: zs_def take_update_swap)
  moreover have "butlast ((zs @ [y])[i := last (zs @ [y])]) = zs[i := y]"
  proof (cases "i = l")
    case True
    with lz show ?thesis by (simp add: list_update_beyond flip: lz)
  next
    case False
    with assms(3) lz show ?thesis by (simp add: list_update_append1)
  qed
  ultimately show ?thesis unfolding u z zs_def y_def by simp
qed

declare cleanup_loop.simps [simp del]

text \<open>What a part of the cleanup does to the arrays: it removes dead connections behind the first entry.\<close>

definition sweeps :: "Receiver \<Rightarrow> Receiver \<Rightarrow> (Pollfd \<times> Deserializer) list \<Rightarrow> bool" where
  "sweeps r r' removed \<longleftrightarrow>
     length (active_sockets r') = length (deserializers r') \<and>
     active_sockets_count r' \<le> length (active_sockets r') \<and> 0 < active_sockets_count r' \<and>
     mset (conns r) = mset (conns r') + mset removed \<and> list_all dead removed \<and> conns r' ! 0 = conns r ! 0 \<and>
     rx_num_workers r' = rx_num_workers r \<and> accept_new_connections r' = accept_new_connections r"

lemma sweeps_refl:
  "active_sockets_count r = Suc l \<Longrightarrow> length (active_sockets r) = length (deserializers r) \<Longrightarrow>
     Suc l \<le> length (active_sockets r) \<Longrightarrow> sweeps r r []"
  by (simp add: sweeps_def)

lemma sweeps_Cons: "sweeps r r1 [x] \<Longrightarrow> sweeps r1 r' removed \<Longrightarrow> sweeps r r' (x # removed)"
  by (simp add: sweeps_def)

lemma sweeps_one:
  assumes "active_sockets_count r = Suc l" and "length (active_sockets r) = length (deserializers r)"
    and "Suc l \<le> length (active_sockets r)" and "0 < i" and "i \<le> l" and "poll_fd (active_sockets r ! i) < 0"
  shows "sweeps r (r\<lparr>active_sockets := (active_sockets r)[i := active_sockets r ! l],
      deserializers := (deserializers r)[i := deserializers r ! l], active_sockets_count := active_sockets_count r - 1\<rparr>)
    [(active_sockets r ! i, deserializers r ! i)]"
    (is "sweeps r ?r _")
proof -
  have c: "conns ?r = butlast ((conns r)[i := last (conns r)])"
    using conns_swap [of "active_sockets r" "deserializers r" l i] assms by (simp add: conns_def)
  have i: "i < length (conns r)" "conns r ! i = (active_sockets r ! i, deserializers r ! i)"
    using assms by (simp_all add: conns_def)
  have "conns ?r ! 0 = conns r ! 0" unfolding c using assms(4) i(1) by (simp add: nth_butlast)
  moreover have "mset (conns r) = add_mset (active_sockets r ! i, deserializers r ! i) (mset (conns ?r))"
    unfolding c using mset_butlast_swap [OF i(1)] i(2) by simp
  ultimately show ?thesis using assms by (simp add: sweeps_def dead_def)
qed

lemma cleanup_loop_removes:
  assumes "active_sockets_count r = Suc last_i" and "length (active_sockets r) = length (deserializers r)"
    and "Suc last_i \<le> length (active_sockets r)" and "0 < i"
  shows "\<exists>r' removed. cleanup_loop i last_i r closed = Inr (r', closed @ map (\<lambda>c. - poll_fd (fst c)) removed) \<and>
    sweeps r r' removed"
  using assms
proof (induction i last_i r closed rule: cleanup_loop.induct)
  case (1 i last_i r closed)
  let ?p = "active_sockets r ! i"
  consider "\<not> i \<le> last_i" | "i \<le> last_i" "\<not> poll_fd ?p < 0" | "i \<le> last_i" "poll_fd ?p < 0" by blast
  then show ?case
  proof cases
    case 1
    then show ?thesis using sweeps_refl [OF "1.prems"(1-3)]
      by (subst cleanup_loop.simps) (auto intro!: exI [of _ r] exI [of _ "[]"])
  next
    case 2
    then have g: "array_get (active_sockets r) i = Inr ?p" using "1.prems" by simp
    from "1.IH"(2) [OF 2(1) g 2(2) "1.prems"(1-3)] 2 g show ?thesis
      by (subst cleanup_loop.simps) auto
  next
    case 3
    let ?r = "r\<lparr>active_sockets := (active_sockets r)[i := active_sockets r ! last_i],
      deserializers := (deserializers r)[i := deserializers r ! last_i],
      active_sockets_count := active_sockets_count r - 1\<rparr>"
    have i: "i < length (active_sockets r)" "last_i < length (active_sockets r)" "Suc (last_i - 1) = last_i"
      using 3(1) "1.prems" by auto
    then have step: "cleanup_loop i last_i r closed = cleanup_loop (Suc i) (last_i - 1) ?r (closed @ [- poll_fd ?p])"
      using 3 "1.prems"(2) by (subst cleanup_loop.simps) simp
    obtain r' removed where "cleanup_loop (Suc i) (last_i - 1) ?r (closed @ [- poll_fd ?p]) =
        Inr (r', (closed @ [- poll_fd ?p]) @ map (\<lambda>c. - poll_fd (fst c)) removed)" "sweeps ?r r' removed"
      using "1.IH"(1) [of ?p "active_sockets r ! last_i" "deserializers r ! last_i" "(deserializers r)[i := deserializers r ! last_i]"]
        i 3 "1.prems" by auto
    with step sweeps_Cons [OF sweeps_one [OF "1.prems" 3]] show ?thesis
      by (intro exI [of _ r'] exI [of _ "(?p, deserializers r ! i) # removed"]) simp
  qed
qed

lemma receiver_cleanup_removes:
  assumes "receiver_ok r"
  obtains r' removed where "receiver_cleanup r = Inr (r', map (\<lambda>c. - poll_fd (fst c)) removed)"
    and "receiver_ok r'" and "mset (conns r) = mset (conns r') + mset removed" and "list_all dead removed"
    and "conns r' ! 0 = conns r ! 0" and "rx_num_workers r' = rx_num_workers r"
    and "accept_new_connections r' = accept_new_connections r"
proof -
  from assms obtain r' removed where c: "cleanup_loop 1 (active_sockets_count r - 1) r [] =
      Inr (r', [] @ map (\<lambda>c. - poll_fd (fst c)) removed)" and "sweeps r r' removed"
    using cleanup_loop_removes [of r "active_sockets_count r - 1" 1 "[]"] unfolding receiver_ok_def by auto
  then have r': "length (active_sockets r') = length (deserializers r')"
    "active_sockets_count r' \<le> length (active_sockets r')" "0 < active_sockets_count r'"
    "mset (conns r) = mset (conns r') + mset removed" "list_all dead removed" "conns r' ! 0 = conns r ! 0"
    "rx_num_workers r' = rx_num_workers r" "accept_new_connections r' = accept_new_connections r"
    by (simp_all add: sweeps_def)
  define r'' where "r'' = r'\<lparr>active_sockets := take (active_sockets_count r') (active_sockets r'),
    deserializers := take (active_sockets_count r') (deserializers r')\<rparr>"
  have "conns r'' = conns r'" by (simp add: conns_def r''_def take_zip)
  moreover have "receiver_cleanup r = Inr (r'', map (\<lambda>c. - poll_fd (fst c)) removed)"
    using c r' by (simp add: receiver_cleanup_def Let_def array_realloc_shrink r''_def)
  moreover have "receiver_ok r''" using r' by (simp add: receiver_ok_def r''_def)
  ultimately show thesis using r' by (intro that [of r'' removed]) (simp_all add: r''_def)
qed


subsection \<open>One iteration with one readable connection\<close>

definition in_frame :: "Deserializer \<Rightarrow> bool" where
  "in_frame de \<longleftrightarrow>
     (\<exists>bs p ys. de_rep de bs \<and> frame p = bs @ ys \<and> ys \<noteq> [] \<and> length (frame p) < 2 ^ 64)"

definition calm :: "Receiver \<Rightarrow> bool" where
  "calm r \<longleftrightarrow> receiver_ok r \<and>
     (\<forall>j. 0 < j \<and> j < active_sockets_count r \<longrightarrow> 0 \<le> poll_fd (active_sockets r ! j) \<and> in_frame (deserializers r ! j))"

definition readable_event :: "nat \<Rightarrow> nat \<Rightarrow> byte list \<Rightarrow> nat \<Rightarrow> Poll_Event" where
  "readable_event n i bs rnd =
     \<lparr>poll_ret = 1, poll_revents = (replicate n 0)[i := POLLIN], accept_ret = - 1,
      read_ret = (\<lambda>_. Recv bs), rand_ret = (\<lambda>_. rnd)\<rparr>"

lemma in_frame_create: "in_frame deserializer_create"
  unfolding in_frame_def
  by (rule exI [of _ "[]"], rule exI [of _ "[]"], rule exI [of _ "frame []"])
    (simp add: de_rep_create frame_def u64_to_big_endian_def)

lemma in_frame_missing:
  assumes "in_frame de"
  shows "deserializer_validate de = Inr True" and "\<exists>m. deserializer_missing de = Inr m"
proof -
  obtain bs p ys where f: "de_rep de bs" "frame p = bs @ ys" "ys \<noteq> []" "length (frame p) < 2 ^ 64"
    using assms by (auto simp: in_frame_def simp del: length_frame)
  have lt: "length bs < length (frame p)" using f(3) by (simp add: f(2) del: length_frame)
  have "de_total bs = (if length bs < 16 then 16 else length (frame p))"
    by (rule de_total_prefix [OF f(2,4)])
  with f(4) lt have "length bs \<le> de_total bs" "de_total bs < 2 ^ 64" by (auto split: if_splits)
  from deserializer_missing_rep [OF f(1) this] show "\<exists>m. deserializer_missing de = Inr m" by blast
  have "length bs < 8 \<or> take 8 bs = u64_to_big_endian HEADER_MAGIC_CODE"
  proof (cases "length bs < 8")
    case False
    then have "take 8 (bs @ ys) = take 8 bs" by simp
    then show ?thesis unfolding f(2) [symmetric] by (simp add: frame_def)
  qed simp
  with deserializer_validate_rep [OF f(1)] show "deserializer_validate de = Inr True" by simp
qed

lemma cleanup_loop_calm:
  assumes "\<forall>j. i \<le> j \<and> j \<le> last_i \<longrightarrow> 0 \<le> poll_fd (active_sockets r ! j)" and "last_i < length (active_sockets r)"
  shows "cleanup_loop i last_i r closed = Inr (r, closed)"
  using assms
proof (induction i last_i r closed rule: cleanup_loop.induct)
  case (1 i last_i r closed)
  show ?case
  proof (cases "i \<le> last_i")
    case True
    then have p: "array_get (active_sockets r) i = Inr (active_sockets r ! i)" "\<not> poll_fd (active_sockets r ! i) < 0"
      using "1.prems" by fastforce+
    from "1.IH"(2) [OF True p] "1.prems" have "cleanup_loop (Suc i) last_i r closed = Inr (r, closed)" by simp
    with True p show ?thesis by (subst cleanup_loop.simps) simp
  qed (subst cleanup_loop.simps, simp)
qed

lemma receiver_cleanup_calm:
  assumes "calm r"
  shows "receiver_cleanup r = Inr (r, [])"
proof -
  have "cleanup_loop 1 (active_sockets_count r - 1) r [] = Inr (r, [])"
    using assms by (intro cleanup_loop_calm) (auto simp: calm_def receiver_ok_def)
  then show ?thesis using assms
    by (simp add: receiver_cleanup_def calm_def receiver_ok_def array_realloc_def)
qed

lemma validate_loop_calm:
  assumes "\<forall>j \<in> set js. j < length (deserializers r) \<and> in_frame (deserializers r ! j)"
  shows "validate_loop js r = Inr (False, r)"
  using assms
proof (induction js)
  case (Cons j js)
  then show ?case using in_frame_missing [of "deserializers r ! j"] by auto
qed simp

lemma poll_loop_quiet:
  assumes "\<forall>j \<in> set js. j < length (active_sockets (receiver st)) \<and> revents (active_sockets (receiver st) ! j) = 0"
  shows "poll_loop (js @ ks) ev st = poll_loop ks ev st"
  using assms
proof (induction js)
  case (Cons j js)
  let ?ss = "active_sockets (receiver st)"
  have j: "j < length ?ss" "revents (?ss ! j) = 0" using Cons.prems by auto
  have "?ss[j := (?ss ! j)\<lparr>revents := 0\<rparr>] = ?ss"
    using j by (metis Pollfd.surjective Pollfd.update_convs(3) list_update_id)
  with j have "clear_events j (receiver st) = Inr (receiver st)" by (simp add: clear_events_def)
  with j have "poll_connection j ev st = Inr (False, st)" by (simp add: poll_connection_def)
  with Cons show ?case by simp
qed simp

lemma set_revents_nth:
  assumes "i < length (active_sockets r)" and "length evs = length (active_sockets r)"
  shows "active_sockets (set_revents evs r) ! i = (active_sockets r ! i)\<lparr>revents := evs ! i\<rparr>"
  using assms by (simp add: set_revents_def)

lemma set_revents_sel [simp]:
  "length (active_sockets (set_revents evs r)) = length (active_sockets r)"
  "deserializers (set_revents evs r) = deserializers r" "rx_num_workers (set_revents evs r) = rx_num_workers r"
  "active_sockets_count (set_revents evs r) = active_sockets_count r"
  "accept_new_connections (set_revents evs r) = accept_new_connections r"
  by (simp_all add: set_revents_def)

lemma receiver_poll_readable:
  assumes c: "calm (receiver st)" and i: "0 < i" "i < active_sockets_count (receiver st)"
  defines "n \<equiv> active_sockets_count (receiver st)"
  shows "\<exists>r1. receiver_poll (readable_event n i bs rnd) st =
      bind_result (receive_on i (readable_event n i bs rnd) (st\<lparr>receiver := r1\<rparr>)) (\<lambda>st1.
      bind_result (clear_events i (receiver st1)) (\<lambda>r.
      bind_result (poll_loop [Suc i..<n] (readable_event n i bs rnd) (st1\<lparr>receiver := r\<rparr>)) (\<lambda>st. Inr (0, st)))) \<and>
    length (active_sockets r1) = n \<and> deserializers r1 = deserializers (receiver st) \<and>
    active_sockets_count r1 = n \<and> rx_num_workers r1 = rx_num_workers (receiver st) \<and>
    accept_new_connections r1 = accept_new_connections (receiver st) \<and>
    (\<forall>j<n. active_sockets r1 ! j = (active_sockets (receiver st) ! j)\<lparr>revents := (if j = i then POLLIN else 0)\<rparr>)"
proof -
  let ?r = "receiver st" and ?ev = "readable_event n i bs rnd"
  define r1 where "r1 = set_revents (poll_revents ?ev) ?r"
  have n: "0 < n" "length (active_sockets ?r) = n" "length (deserializers ?r) = n"
    using c by (simp_all add: calm_def receiver_ok_def n_def)
  have nth: "\<forall>j<n. active_sockets r1 ! j = (active_sockets ?r ! j)\<lparr>revents := (if j = i then POLLIN else 0)\<rparr>"
  proof (intro allI impI)
    fix j assume j: "j < n"
    have "(replicate n 0)[i := POLLIN] ! j = (if j = i then POLLIN else 0)" using j by (simp add: nth_list_update)
    then show "active_sockets r1 ! j = (active_sockets ?r ! j)\<lparr>revents := (if j = i then POLLIN else 0)\<rparr>"
      using set_revents_nth [of j ?r "poll_revents ?ev"] n j by (simp add: r1_def readable_event_def)
  qed
  have sel: "length (active_sockets r1) = n" "deserializers r1 = deserializers ?r" "active_sockets_count r1 = n"
    using n by (simp_all add: r1_def n_def)
  have "handle_new_connection ?ev r1 = Inr r1"
    using nth n i(1) by (simp add: handle_new_connection_def receiver_has_new_connection_def sel)
  moreover have "validate_loop [1..<n] r1 = Inr (False, r1)"
    using c n by (intro validate_loop_calm) (auto simp: sel calm_def n_def)
  ultimately have "receiver_poll ?ev st =
      bind_result (poll_loop [1..<n] ?ev (st\<lparr>receiver := r1\<rparr>)) (\<lambda>st. Inr (0, st))"
    using receiver_cleanup_calm [OF c] by (simp add: receiver_poll_def Let_def r1_def readable_event_def n_def)
  moreover have "[1..<n] = [1..<i] @ i # [Suc i..<n]"
  proof -
    have "n = i + (n - i)" "1 \<le> i" "i < n" using i by (simp_all add: n_def)
    then show ?thesis by (metis upt_add_eq_append upt_conv_Cons)
  qed
  moreover have "poll_loop ([1..<i] @ i # [Suc i..<n]) ?ev (st\<lparr>receiver := r1\<rparr>) = poll_loop (i # [Suc i..<n]) ?ev (st\<lparr>receiver := r1\<rparr>)"
    using i nth sel by (intro poll_loop_quiet) (auto simp: n_def)
  moreover have "poll_connection i ?ev (st\<lparr>receiver := r1\<rparr>) =
      bind_result (receive_on i ?ev (st\<lparr>receiver := r1\<rparr>)) (\<lambda>st1.
      bind_result (clear_events i (receiver st1)) (\<lambda>r. Inr (False, st1\<lparr>receiver := r\<rparr>)))"
    using i nth sel by (simp add: poll_connection_def POLLIN_def n_def)
  ultimately show ?thesis using nth sel
    by (intro exI [of _ r1]) (simp add: bind_result_assoc r1_def)
qed


text \<open>The connections of \<open>r\<close> and \<open>r'\<close> are the same ones, connection \<open>i\<close> may have received bytes.\<close>

definition same_conns :: "nat \<Rightarrow> Receiver \<Rightarrow> Receiver \<Rightarrow> bool" where
  "same_conns i r r' \<longleftrightarrow>
     active_sockets_count r' = active_sockets_count r \<and> rx_num_workers r' = rx_num_workers r \<and>
     map poll_fd (active_sockets r') = map poll_fd (active_sockets r) \<and>
     (\<forall>j. j \<noteq> i \<longrightarrow> deserializers r' ! j = deserializers r ! j)"

lemma receive_on_data:
  assumes "i < length (active_sockets r)" "i < length (deserializers r)" "receiver st = r"
    and buf: "deserializer_buffer (deserializers r ! i) = Inr (off, de1)" "deserializer_missing de1 = Inr m"
    and "0 < m" "length c \<le> unat m" "c \<noteq> []" and recv: "deserializer_receive (deserializers r ! i) c = Inr (out, de2)"
  shows "receive_on i (readable_event n i c rnd) st =
    (let st = set_deserializer i de2 st in
     case out of None \<Rightarrow> Inr st
     | Some b \<Rightarrow>
         bind_result (hand_over_buf_to_worker (rx_num_workers r) rnd b (poll_fd (active_sockets r ! i)) (workload st))
           (\<lambda>w. Inr (st\<lparr>workload := w\<rparr>)))"
  using assms by (simp add: receive_on_def readable_event_def set_deserializer_def Let_def cong: option.case_cong)

text \<open>The effect of an iteration on the receiver, when the deserializer of connection \<open>i\<close> becomes \<open>de'\<close>.\<close>

lemma poll_after_receive:
  assumes c: "calm (receiver st)" and i: "0 < i" "i < active_sockets_count (receiver st)"
    and de': "in_frame de'"
    and recv: "\<And>r1. length (active_sockets r1) = active_sockets_count (receiver st) \<Longrightarrow>
      deserializers r1 = deserializers (receiver st) \<Longrightarrow> rx_num_workers r1 = rx_num_workers (receiver st) \<Longrightarrow>
      poll_fd (active_sockets r1 ! i) = poll_fd (active_sockets (receiver st) ! i) \<Longrightarrow>
      receive_on i (readable_event (active_sockets_count (receiver st)) i bs rnd) (st\<lparr>receiver := r1\<rparr>) =
        Inr (set_deserializer i de' (st\<lparr>receiver := r1, workload := w'\<rparr>))"
  shows "\<exists>st'. receiver_poll (readable_event (active_sockets_count (receiver st)) i bs rnd) st = Inr (0, st') \<and>
    calm (receiver st') \<and> same_conns i (receiver st) (receiver st') \<and> deserializers (receiver st') ! i = de' \<and>
    workload st' = w' \<and> closed_fds st' = closed_fds st"
proof -
  let ?r = "receiver st"
  define n where "n = active_sockets_count ?r"
  let ?ev = "readable_event n i bs rnd"
  have n: "length (active_sockets ?r) = n" "length (deserializers ?r) = n" "0 < n"
    using c by (simp_all add: calm_def receiver_ok_def n_def)
  obtain r1 where p: "receiver_poll ?ev st =
      bind_result (receive_on i ?ev (st\<lparr>receiver := r1\<rparr>)) (\<lambda>st1.
      bind_result (clear_events i (receiver st1)) (\<lambda>r.
      bind_result (poll_loop [Suc i..<n] ?ev (st1\<lparr>receiver := r\<rparr>)) (\<lambda>st. Inr (0, st))))"
    and r1: "length (active_sockets r1) = n" "deserializers r1 = deserializers ?r" "active_sockets_count r1 = n"
      "rx_num_workers r1 = rx_num_workers ?r"
      "\<forall>j<n. active_sockets r1 ! j = (active_sockets ?r ! j)\<lparr>revents := (if j = i then POLLIN else 0)\<rparr>"
    using receiver_poll_readable [OF c i, of bs rnd] unfolding n_def by blast
  have "receive_on i ?ev (st\<lparr>receiver := r1\<rparr>) = Inr (set_deserializer i de' (st\<lparr>receiver := r1, workload := w'\<rparr>))"
    unfolding n_def using r1 i by (intro recv) (simp_all add: n_def)
  define ss where "ss = (active_sockets r1)[i := (active_sockets r1 ! i)\<lparr>revents := 0\<rparr>]"
  define r2 where "r2 = r1\<lparr>active_sockets := ss, deserializers := (deserializers r1)[i := de']\<rparr>"
  define st2 where "st2 = st\<lparr>receiver := r2, workload := w'\<rparr>"
  have "clear_events i (receiver (set_deserializer i de' (st\<lparr>receiver := r1, workload := w'\<rparr>))) = Inr r2"
    using i r1(1) by (simp add: clear_events_def set_deserializer_def r2_def ss_def n_def)
  moreover have "(set_deserializer i de' (st\<lparr>receiver := r1, workload := w'\<rparr>))\<lparr>receiver := r2\<rparr> = st2"
    by (simp add: set_deserializer_def st2_def)
  moreover have "poll_loop ([Suc i..<n] @ []) ?ev st2 = poll_loop [] ?ev st2"
    using r1 by (intro poll_loop_quiet) (auto simp: st2_def r2_def ss_def)
  ultimately have poll: "receiver_poll ?ev st = Inr (0, st2)"
    using p \<open>receive_on i ?ev _ = _\<close> by simp
  have fd: "poll_fd (ss ! j) = poll_fd (active_sockets ?r ! j)" if "j < n" for j
    using that r1(1,5) i by (simp add: ss_def nth_list_update n_def)
  have ls: "length ss = n" using r1 by (simp add: ss_def)
  have "calm r2"
    using c r1(1-3) n fd ls de' i unfolding calm_def receiver_ok_def
    by (auto simp: r2_def nth_list_update n_def)
  moreover have "same_conns i ?r r2"
  proof -
    have "map poll_fd ss = map poll_fd (active_sockets ?r)" using n(1) ls fd by (intro nth_equalityI) simp_all
    then show ?thesis using r1 by (simp add: same_conns_def r2_def n_def)
  qed
  ultimately show ?thesis using poll i n r1(2)
    unfolding n_def by (intro exI [of _ st2]) (simp add: st2_def r2_def)
qed

text \<open>What feeding the next bytes of a frame and handing over a complete one come to.\<close>

lemma frame_outcome:
  fixes k :: nat
  assumes rep: "de_rep de bs" and pre: "frame p = bs @ ys" and ys: "ys \<noteq> []" and small: "length (frame p) < 2 ^ 64"
    and n: "nw \<noteq> 0" and q: "queue_ok (thread_of nw rnd) w"
  defines "c \<equiv> take (min (Suc k) (de_total bs - length bs)) ys"
  obtains msg de' w' where "deserializer_receive de c = Inr (msg, de')" and "in_frame de'" and "queue_ok (thread_of nw rnd) w'"
    and "case msg of None \<Rightarrow> w' = w | Some b \<Rightarrow> hand_over_buf_to_worker nw rnd b fd w = Inr w'"
    and "if bs @ c = frame p then de' = deserializer_create \<and> pending (thread_of nw rnd) w' = Some (fd, complete_msg (frame p))
      else de_rep de' (bs @ c) \<and> w' = w"
proof -
  obtain de1 where recv: "deserializer_receive de c =
      (if bs @ c = frame p then Inr (Some (complete_msg (frame p)), deserializer_create) else Inr (None, de1))"
    and de1: "bs @ c \<noteq> frame p \<longrightarrow> de_rep de1 (bs @ c)"
    using receive_in_frame(2) [OF rep pre ys small, of "Suc k"] unfolding c_def by auto
  show thesis
  proof (cases "bs @ c = frame p")
    case True
    obtain w' where "hand_over_buf_to_worker nw rnd (complete_msg (frame p)) fd w = Inr w'"
      "queue_ok (thread_of nw rnd) w'" "pending (thread_of nw rnd) w' = Some (fd, complete_msg (frame p))"
      using hand_over_queue [OF q n] by blast
    with True recv in_frame_create show thesis by (intro that [of "Some (complete_msg (frame p))" deserializer_create w']) auto
  next
    case False
    have rest: "frame p = (bs @ c) @ drop (min (Suc k) (de_total bs - length bs)) ys" unfolding pre c_def by simp
    moreover have "drop (min (Suc k) (de_total bs - length bs)) ys \<noteq> []" using False rest by (metis append_Nil2)
    ultimately have "in_frame de1" using de1 False small unfolding in_frame_def by blast
    with False recv de1 q show thesis by (intro that [of None de1 w]) auto
  qed
qed

lemma poll_frame_step:
  fixes k :: nat
  assumes c: "calm (receiver st)" and i: "0 < i" "i < active_sockets_count (receiver st)"
    and rep: "de_rep (deserializers (receiver st) ! i) bs" and pre: "frame p = bs @ ys" and ys: "ys \<noteq> []"
    and small: "length (frame p) < 2 ^ 64"
    and n: "rx_num_workers (receiver st) \<noteq> 0" and q: "queue_ok (thread_of (rx_num_workers (receiver st)) rnd) (workload st)"
  defines "c \<equiv> take (min (Suc k) (de_total bs - length bs)) ys"
    and "nw \<equiv> rx_num_workers (receiver st)"
  shows "\<exists>st'. receiver_poll (readable_event (active_sockets_count (receiver st)) i c rnd) st = Inr (0, st') \<and>
    calm (receiver st') \<and> same_conns i (receiver st) (receiver st') \<and> closed_fds st' = closed_fds st \<and>
    queue_ok (thread_of nw rnd) (workload st') \<and>
    (if bs @ c = frame p
     then deserializers (receiver st') ! i = deserializer_create \<and>
       pending (thread_of nw rnd) (workload st') = Some (poll_fd (active_sockets (receiver st) ! i), complete_msg (frame p))
     else de_rep (deserializers (receiver st') ! i) (bs @ c) \<and> workload st' = workload st)"
proof -
  let ?r = "receiver st" and ?de = "deserializers (receiver st) ! i" and ?fd = "poll_fd (active_sockets (receiver st) ! i)"
  note tot = de_total_prefix [OF pre small]
  have len: "length (frame p) = length bs + length ys" using pre by simp
  have lt: "length bs < de_total bs" and le: "de_total bs < 2 ^ 64" using tot ys len small by auto
  obtain off de1 where buf: "deserializer_buffer ?de = Inr (off, de1)"
    "deserializer_missing de1 = Inr (of_nat (de_total bs - length bs))"
    using deserializer_buffer_rep [OF rep lt le] by metis
  have d: "de_total bs - length bs < 2 ^ 64" "0 < de_total bs - length bs" using lt le by simp_all
  have m: "0 < (of_nat (de_total bs - length bs) :: u64)" "length c \<le> unat (of_nat (de_total bs - length bs) :: u64)"
    unfolding unat_of_nat_u64 [OF d(1)] using of_nat_u64_pos [OF d] by (simp_all add: c_def)
  have cne: "c \<noteq> []" using receive_in_frame(1) [OF rep pre ys small, of "Suc k"] by (simp add: c_def)
  obtain msg de' w' where o: "deserializer_receive ?de c = Inr (msg, de')" "in_frame de'" "queue_ok (thread_of nw rnd) w'"
    and hand: "case msg of None \<Rightarrow> w' = workload st | Some b \<Rightarrow> hand_over_buf_to_worker nw rnd b ?fd (workload st) = Inr w'"
    and fin: "if bs @ c = frame p then de' = deserializer_create \<and> pending (thread_of nw rnd) w' = Some (?fd, complete_msg (frame p))
      else de_rep de' (bs @ c) \<and> w' = workload st"
    using frame_outcome [OF rep pre ys small n q, of k ?fd] unfolding c_def nw_def by metis
  have ln: "length (deserializers ?r) = active_sockets_count ?r" using c by (simp add: calm_def receiver_ok_def)
  obtain st' where "receiver_poll (readable_event (active_sockets_count ?r) i c rnd) st = Inr (0, st')"
    "calm (receiver st')" "same_conns i ?r (receiver st')" "deserializers (receiver st') ! i = de'"
    "workload st' = w'" "closed_fds st' = closed_fds st"
  proof (atomize_elim, rule poll_after_receive [OF c i o(2)])
    fix r1 :: Receiver assume r1: "length (active_sockets r1) = active_sockets_count ?r" "deserializers r1 = deserializers ?r"
      "rx_num_workers r1 = rx_num_workers ?r" "poll_fd (active_sockets r1 ! i) = ?fd"
    show "receive_on i (readable_event (active_sockets_count ?r) i c rnd) (st\<lparr>receiver := r1\<rparr>) =
      Inr (set_deserializer i de' (st\<lparr>receiver := r1, workload := w'\<rparr>))"
      using receive_on_data [of i r1 "st\<lparr>receiver := r1\<rparr>" off de1 _ c msg de'] r1 i ln buf m cne o(1) hand
      by (cases msg) (simp_all add: set_deserializer_def Let_def nw_def)
  qed
  with o(3) fin show ?thesis by auto
qed

subsection \<open>Many iterations\<close>

text \<open>
  Connection \<open>i\<close> read to the end of the bytes \<open>strm\<close> its client has sent: the \<open>k\<close>-th iteration
  finds it readable, and its \<open>read\<close> returns at most \<open>ks ! k + 1\<close> bytes.
\<close>

fun serve :: "nat \<Rightarrow> nat \<Rightarrow> nat list \<Rightarrow> byte list \<Rightarrow> Poll_State \<Rightarrow> (byte list \<times> Poll_State) result" where
  "serve i rnd [] strm st = Inr (strm, st)"
| "serve i rnd (k # ks) strm st =
     (if strm = [] then Inr ([], st)
      else bind_result (array_get (deserializers (receiver st)) i) (\<lambda>de.
           bind_result (deserializer_missing de) (\<lambda>missing.
           bind_result (receiver_poll (readable_event (active_sockets_count (receiver st)) i
               (take (min (Suc k) (unat missing)) strm) rnd) st) (\<lambda>(_, st).
             serve i rnd ks (drop (min (Suc k) (unat missing)) strm) st))))"

lemma same_conns_trans: "same_conns i r1 r2 \<Longrightarrow> same_conns i r2 r3 \<Longrightarrow> same_conns i r1 r3"
  by (simp add: same_conns_def)

lemma same_conns_fd:
  assumes "same_conns i r r'" and "j < length (active_sockets r)"
  shows "poll_fd (active_sockets r' ! j) = poll_fd (active_sockets r ! j)"
  using assms by (metis same_conns_def length_map nth_map)

text \<open>One iteration consumes a part of the frame, and something.\<close>

lemma serve_step:
  fixes k :: nat
  assumes c: "calm (receiver st)" and i: "0 < i" "i < active_sockets_count (receiver st)"
    and rep: "de_rep (deserializers (receiver st) ! i) bs" and pre: "frame p = bs @ ys" and ys: "ys \<noteq> []"
    and small: "length (frame p) < 2 ^ 64"
    and n: "rx_num_workers (receiver st) \<noteq> 0" and q: "queue_ok (thread_of (rx_num_workers (receiver st)) rnd) (workload st)"
  defines "nw \<equiv> rx_num_workers (receiver st)"
  obtains c zs st' where "ys = c @ zs" and "c \<noteq> []" and "serve i rnd (k # ks) ys st = serve i rnd ks zs st'"
    and "calm (receiver st')" "same_conns i (receiver st) (receiver st')" "closed_fds st' = closed_fds st"
    and "queue_ok (thread_of nw rnd) (workload st')"
    and "if zs = []
      then deserializers (receiver st') ! i = deserializer_create \<and>
        pending (thread_of nw rnd) (workload st') = Some (poll_fd (active_sockets (receiver st) ! i), complete_msg (frame p))
      else de_rep (deserializers (receiver st') ! i) (bs @ c)"
proof -
  let ?r = "receiver st" and ?m = "de_total bs - length bs"
  let ?c = "take (min (Suc k) ?m) ys" and ?zs = "drop (min (Suc k) ?m) ys"
  have lt: "length bs < de_total bs" "de_total bs < 2 ^ 64"
    using de_total_prefix [OF pre small] arg_cong [OF pre, of length] ys small by auto
  have miss: "deserializer_missing (deserializers ?r ! i) = Inr (of_nat ?m)"
    using lt by (intro deserializer_missing_rep [OF rep]) simp_all
  have um: "unat (of_nat ?m :: u64) = ?m" using lt by (intro unat_of_nat_u64) simp
  have il: "i < length (deserializers ?r)" using c i by (simp add: calm_def receiver_ok_def)
  obtain st1 where st1: "receiver_poll (readable_event (active_sockets_count ?r) i ?c rnd) st = Inr (0, st1)"
    "calm (receiver st1)" "same_conns i ?r (receiver st1)" "closed_fds st1 = closed_fds st"
    "queue_ok (thread_of nw rnd) (workload st1)"
    and fin: "if bs @ ?c = frame p
     then deserializers (receiver st1) ! i = deserializer_create \<and>
       pending (thread_of nw rnd) (workload st1) = Some (poll_fd (active_sockets ?r ! i), complete_msg (frame p))
     else de_rep (deserializers (receiver st1) ! i) (bs @ ?c) \<and> workload st1 = workload st"
    using poll_frame_step [OF c i rep pre ys small n q, of k] unfolding nw_def by blast
  have f: "frame p = (bs @ ?c) @ ?zs" unfolding pre by simp
  have e: "bs @ ?c = frame p \<longleftrightarrow> ?zs = []" unfolding f by simp
  show thesis
  proof (rule that [of ?c ?zs st1])
    show "?c \<noteq> []" using ys lt by simp
    show "serve i rnd (k # ks) ys st = serve i rnd ks ?zs st1" using ys il miss um st1(1) by simp
  qed (use st1(2-5) fin e in \<open>auto split: if_splits\<close>)
qed

lemma serve_frame:
  assumes "calm (receiver st)" and "0 < i" "i < active_sockets_count (receiver st)"
    and "de_rep (deserializers (receiver st) ! i) bs" and "frame p = bs @ ys" and "ys \<noteq> []"
    and "length (frame p) < 2 ^ 64" and "length ys \<le> length ks"
    and "rx_num_workers (receiver st) \<noteq> 0" and "queue_ok (thread_of (rx_num_workers (receiver st)) rnd) (workload st)"
  shows "\<exists>st'. serve i rnd ks ys st = Inr ([], st') \<and> calm (receiver st') \<and> same_conns i (receiver st) (receiver st') \<and>
    closed_fds st' = closed_fds st \<and> deserializers (receiver st') ! i = deserializer_create \<and>
    queue_ok (thread_of (rx_num_workers (receiver st)) rnd) (workload st') \<and>
    pending (thread_of (rx_num_workers (receiver st)) rnd) (workload st') =
      Some (poll_fd (active_sockets (receiver st) ! i), complete_msg (frame p))"
  using assms
proof (induction ks arbitrary: st bs ys)
  case (Cons k ks)
  note c = Cons.prems(1) and i = Cons.prems(2,3) and pre = Cons.prems(5)
  let ?r = "receiver st"
  obtain c zs st1 where ys: "ys = c @ zs" "c \<noteq> []" and step: "serve i rnd (k # ks) ys st = serve i rnd ks zs st1"
    and st1: "calm (receiver st1)" "same_conns i ?r (receiver st1)" "closed_fds st1 = closed_fds st"
      "queue_ok (thread_of (rx_num_workers ?r) rnd) (workload st1)"
    and fin: "if zs = []
      then deserializers (receiver st1) ! i = deserializer_create \<and>
        pending (thread_of (rx_num_workers ?r) rnd) (workload st1) = Some (poll_fd (active_sockets ?r ! i), complete_msg (frame p))
      else de_rep (deserializers (receiver st1) ! i) (bs @ c)"
    using serve_step [OF c i Cons.prems(4) pre Cons.prems(6,7,9,10), of k ks] .
  show ?case
  proof (cases "zs = []")
    case True
    then have "serve i rnd ks zs st1 = Inr ([], st1)" by (cases ks) simp_all
    with step st1 fin True show ?thesis by auto
  next
    case False
    have il: "i < length (active_sockets ?r)" using c i by (simp add: calm_def receiver_ok_def)
    have sc: "active_sockets_count (receiver st1) = active_sockets_count ?r" "rx_num_workers (receiver st1) = rx_num_workers ?r"
      using st1(2) by (simp_all add: same_conns_def)
    have "length zs \<le> length ks" using Cons.prems(8) ys by (cases c) auto
    then obtain st' where "serve i rnd ks zs st1 = Inr ([], st')" "calm (receiver st')"
      "same_conns i (receiver st1) (receiver st')" "closed_fds st' = closed_fds st1"
      "deserializers (receiver st') ! i = deserializer_create"
      "queue_ok (thread_of (rx_num_workers (receiver st1)) rnd) (workload st')"
      "pending (thread_of (rx_num_workers (receiver st1)) rnd) (workload st') =
        Some (poll_fd (active_sockets (receiver st1) ! i), complete_msg (frame p))"
      using Cons.IH [OF st1(1) i(1), of "bs @ c" zs] i(2) sc pre ys(1) fin False Cons.prems(7,9) st1(4) by auto
    with step st1(2,3) same_conns_trans [OF st1(2)] same_conns_fd [OF st1(2) il] sc show ?thesis by auto
  qed
qed simp

subsection \<open>A connection that ends\<close>

lemma cleanup_loop_skip:
  assumes "a \<le> i" and "i \<le> last_i" and "last_i < length (active_sockets r)"
    and "\<forall>j. a \<le> j \<and> j < i \<longrightarrow> 0 \<le> poll_fd (active_sockets r ! j)"
  shows "cleanup_loop a last_i r closed = cleanup_loop i last_i r closed"
  using assms
proof (induction rule: inc_induct)
  case (step a)
  then have "\<not> poll_fd (active_sockets r ! a) < 0" "a \<le> last_i" "a < length (active_sockets r)" by fastforce+
  then have "cleanup_loop a last_i r closed = cleanup_loop (Suc a) last_i r closed"
    by (subst cleanup_loop.simps) simp
  with step show ?case by simp
qed simp

text \<open>Cleaning up when connection \<open>i\<close> is the only dead one.\<close>

lemma receiver_cleanup_one:
  assumes ok: "receiver_ok r" and i: "0 < i" "i < active_sockets_count r" and d: "poll_fd (active_sockets r ! i) < 0"
    and live: "\<forall>j. 0 < j \<and> j < active_sockets_count r \<and> j \<noteq> i \<longrightarrow> 0 \<le> poll_fd (active_sockets r ! j)"
  shows "\<exists>r'. receiver_cleanup r = Inr (r', [- poll_fd (active_sockets r ! i)]) \<and>
    active_sockets_count r' = active_sockets_count r - 1 \<and>
    active_sockets r' = butlast ((active_sockets r)[i := last (active_sockets r)])"
proof -
  define l where "l = active_sockets_count r - 1"
  have n: "length (active_sockets r) = Suc l" "length (deserializers r) = Suc l" "active_sockets_count r = Suc l" "i \<le> l"
    using ok i by (simp_all add: receiver_ok_def l_def)
  let ?r = "r\<lparr>active_sockets := (active_sockets r)[i := active_sockets r ! l],
        deserializers := (deserializers r)[i := deserializers r ! l],
        active_sockets_count := l\<rparr>"
  have "cleanup_loop 1 l r [] = cleanup_loop i l r []"
    using i n live by (intro cleanup_loop_skip) auto
  also have "\<dots> = cleanup_loop (Suc i) (l - 1) ?r [- poll_fd (active_sockets r ! i)]"
    using n d by (subst cleanup_loop.simps) simp
  also have "\<dots> = Inr (?r, [- poll_fd (active_sockets r ! i)])"
    using n live i by (intro cleanup_loop_calm) auto
  finally have c: "cleanup_loop 1 l r [] = Inr (?r, [- poll_fd (active_sockets r ! i)])" .
  have "last (active_sockets r) = active_sockets r ! l" using n by (metis diff_Suc_1 last_conv_nth length_0_conv nat.simps(3))
  then have "take l ((active_sockets r)[i := active_sockets r ! l]) = butlast ((active_sockets r)[i := last (active_sockets r)])"
    using n by (simp add: butlast_conv_take)
  with c n show ?thesis by (simp add: receiver_cleanup_def Let_def array_realloc_shrink)
qed

lemma receiver_poll_eof:
  assumes c: "calm (receiver st)" and i: "0 < i" "i < active_sockets_count (receiver st)"
  shows "\<exists>st1. receiver_poll (readable_event (active_sockets_count (receiver st)) i [] rnd) st = Inr (0, st1) \<and>
    closed_fds st1 = closed_fds st \<and> workload st1 = workload st \<and> receiver_ok (receiver st1) \<and>
    active_sockets_count (receiver st1) = active_sockets_count (receiver st) \<and>
    map poll_fd (active_sockets (receiver st1)) = (map poll_fd (active_sockets (receiver st)))[i := - 1]"
proof -
  let ?r = "receiver st"
  define n where "n = active_sockets_count ?r"
  let ?ev = "readable_event n i [] rnd"
  have n: "length (active_sockets ?r) = n" "length (deserializers ?r) = n" "0 < n"
    using c by (simp_all add: calm_def receiver_ok_def n_def)
  obtain r1 where p: "receiver_poll ?ev st =
      bind_result (receive_on i ?ev (st\<lparr>receiver := r1\<rparr>)) (\<lambda>st1.
      bind_result (clear_events i (receiver st1)) (\<lambda>r.
      bind_result (poll_loop [Suc i..<n] ?ev (st1\<lparr>receiver := r\<rparr>)) (\<lambda>st. Inr (0, st))))"
    and r1: "length (active_sockets r1) = n" "deserializers r1 = deserializers ?r" "active_sockets_count r1 = n"
      "\<forall>j<n. active_sockets r1 ! j = (active_sockets ?r ! j)\<lparr>revents := (if j = i then POLLIN else 0)\<rparr>"
    using receiver_poll_readable [OF c i, of "[]" rnd] unfolding n_def by blast
  have "in_frame (deserializers ?r ! i)" using c i by (auto simp: calm_def)
  then obtain bs q ys where f: "de_rep (deserializers ?r ! i) bs" "frame q = bs @ ys" "ys \<noteq> []" "length (frame q) < 2 ^ 64"
    by (auto simp: in_frame_def simp del: length_frame)
  have len: "length (frame q) = length bs + length ys" using f(2) by simp
  have lt: "length bs < de_total bs" "de_total bs < 2 ^ 64" using de_total_prefix [OF f(2,4)] f(3,4) len by auto
  obtain off de1 where buf: "deserializer_buffer (deserializers ?r ! i) = Inr (off, de1)"
    "deserializer_missing de1 = Inr (of_nat (de_total bs - length bs))"
    using deserializer_buffer_rep [OF f(1) lt] by metis
  have m: "0 < (of_nat (de_total bs - length bs) :: u64)" using lt by (intro of_nat_u64_pos) simp_all
  define p where "p = active_sockets r1 ! i"
  define ss where "ss = (active_sockets r1)[i := p\<lparr>poll_fd := - 1, revents := 0\<rparr>]"
  define r2 where "r2 = r1\<lparr>active_sockets := ss, deserializers := (deserializers r1)[i := de1]\<rparr>"
  define st2 where "st2 = st\<lparr>receiver := r2\<rparr>"
  obtain st1 where r: "receive_on i ?ev (st\<lparr>receiver := r1\<rparr>) = Inr st1"
    and "clear_events i (receiver st1) = Inr r2" "st1\<lparr>receiver := r2\<rparr> = st2"
    using i n r1 buf m
    by (simp add: receive_on_def readable_event_def drop_connection_def set_deserializer_def set_fd_def clear_events_def
        n_def [symmetric] r2_def st2_def ss_def p_def)
  moreover have "poll_loop ([Suc i..<n] @ []) ?ev st2 = poll_loop [] ?ev st2"
    using r1 by (intro poll_loop_quiet) (auto simp: st2_def r2_def ss_def)
  ultimately have "receiver_poll ?ev st = Inr (0, st2)" using \<open>receiver_poll ?ev st = _\<close> by simp
  moreover have "map poll_fd ss = (map poll_fd (active_sockets ?r))[i := - 1]"
    using n r1 i by (intro nth_equalityI) (auto simp: ss_def nth_list_update n_def)
  moreover have "receiver_ok r2" using n r1 by (simp add: receiver_ok_def r2_def ss_def)
  ultimately show ?thesis using r1(3) unfolding n_def
    by (intro exI [of _ st2]) (simp add: st2_def r2_def)
qed

subsection \<open>Properties\<close>

text \<open>
  C34: Removing the dead connections never loses a live one: the cleanup stays inside the arrays, the
  listening socket stays first, and the connections with their deserializers before it are the ones
  after it and the removed ones, which were all dead; for each of these it closes the negation
  of the descriptor in its slot.
\<close>

theorem cleanup_keeps_live_connections:
  assumes "receiver_ok r"
  shows "\<exists>r' removed. receiver_cleanup r = Inr (r', map (\<lambda>c. - poll_fd (fst c)) removed) \<and> receiver_ok r' \<and>
    conns r' ! 0 = conns r ! 0 \<and> mset (conns r) = mset (conns r') + mset removed \<and> list_all dead removed"
  using receiver_cleanup_removes [OF assms] by metis

definition sample_receiver :: "int list \<Rightarrow> Receiver" where
  "sample_receiver fds =
     (receiver_create 3 2)\<lparr>active_sockets_count := Suc (length fds), active_sockets := map pollfd_in (3 # fds),
       deserializers := replicate (Suc (length fds)) deserializer_create\<rparr>"

theorem cleanup_keeps_live_connections_witness:
  "\<exists>r' removed. receiver_cleanup (sample_receiver [4, - 5, 6]) = Inr (r', map (\<lambda>c. - poll_fd (fst c)) removed) \<and>
    receiver_ok r' \<and> conns r' ! 0 = conns (sample_receiver [4, - 5, 6]) ! 0 \<and>
    mset (conns (sample_receiver [4, - 5, 6])) = mset (conns r') + mset removed \<and> list_all dead removed"
  by (rule cleanup_keeps_live_connections) (simp add: sample_receiver_def receiver_ok_def)

text \<open>
  C33: A message that a client sends arrives: for every number of connections that are all inside a
  well-formed message, if connection \<open>i\<close> is at a message boundary and its client sends a frame,
  the iterations of the polling loop that read it, in chunks of any sizes, end with
  the complete frame pending for a worker together with the connection's descriptor, the
  deserializer ready for the next message, no other connection touched and none closed. One
  iteration per byte is always enough.
\<close>

theorem receiver_delivers_frame:
  assumes "calm (receiver st)" and "0 < i" and "i < active_sockets_count (receiver st)"
    and "deserializers (receiver st) ! i = deserializer_create" and "length p < 2 ^ 64 - 16"
    and "length (frame p) \<le> length ks" and "rx_num_workers (receiver st) \<noteq> 0"
    and "queue_ok (thread_of (rx_num_workers (receiver st)) rnd) (workload st)"
  shows "\<exists>st'. serve i rnd ks (frame p) st = Inr ([], st') \<and> calm (receiver st') \<and>
    same_conns i (receiver st) (receiver st') \<and> closed_fds st' = closed_fds st \<and>
    deserializers (receiver st') ! i = deserializer_create \<and>
    pending (thread_of (rx_num_workers (receiver st)) rnd) (workload st') =
      Some (poll_fd (active_sockets (receiver st) ! i), complete_msg (frame p))"
proof -
  have "length (frame p) < 2 ^ 64" using assms(5) by simp
  moreover have "frame p \<noteq> []" by (metis length_frame list.size(3) add_is_0 zero_neq_numeral)
  moreover have "de_rep (deserializers (receiver st) ! i) []" using de_rep_create assms(4) by simp
  ultimately show ?thesis
    using serve_frame [of st i "[]" p "frame p" ks rnd] assms by simp blast
qed

definition sample_poll_state :: Poll_State where
  "sample_poll_state =
     \<lparr>receiver = sample_receiver [4, 5], workload = workload_queues_init 2 heap_empty, closed_fds = []\<rparr>"

lemma calm_sample: "0 \<le> a \<Longrightarrow> 0 \<le> b \<Longrightarrow> calm (sample_receiver [a, b])"
  by (auto simp: calm_def receiver_ok_def sample_receiver_def pollfd_in_def less_Suc_eq nth_Cons' in_frame_create)

lemma sample_poll_sel:
  "calm (receiver sample_poll_state)" "active_sockets_count (receiver sample_poll_state) = 3"
  "rx_num_workers (receiver sample_poll_state) = 2"
  "deserializers (receiver sample_poll_state) ! 2 = deserializer_create"
  "poll_fd (active_sockets (receiver sample_poll_state) ! 2) = 5"
  "map poll_fd (active_sockets (receiver sample_poll_state)) = [3, 4, 5]"
  "workload sample_poll_state = workload_queues_init 2 heap_empty"
  by (simp_all add: sample_poll_state_def calm_sample)
    (simp_all add: sample_receiver_def receiver_create_def pollfd_in_def numeral_nat)

theorem receiver_delivers_frame_witness:
  "\<exists>st'. serve 2 9 (replicate 20 2) (frame [7, 8]) sample_poll_state = Inr ([], st') \<and>
    deserializers (receiver st') ! 2 = deserializer_create \<and>
    pending (thread_of 2 9) (workload st') = Some (5, complete_msg (frame [7, 8]))"
proof -
  have q: "queue_ok (thread_of 2 9) (workload sample_poll_state)"
    unfolding sample_poll_sel by (intro init_queue_ok thread_of_lt) simp_all
  have "\<exists>st'. serve 2 9 (replicate 20 2) (frame [7, 8]) sample_poll_state = Inr ([], st') \<and> calm (receiver st') \<and>
    same_conns 2 (receiver sample_poll_state) (receiver st') \<and> closed_fds st' = closed_fds sample_poll_state \<and>
    deserializers (receiver st') ! 2 = deserializer_create \<and>
    pending (thread_of (rx_num_workers (receiver sample_poll_state)) 9) (workload st') =
      Some (poll_fd (active_sockets (receiver sample_poll_state) ! 2), complete_msg (frame [7, 8]))"
  proof (rule receiver_delivers_frame)
    show "queue_ok (thread_of (rx_num_workers (receiver sample_poll_state)) 9) (workload sample_poll_state)"
      using q by (simp only: sample_poll_sel(3))
    show "length (frame [7, 8]) \<le> length (replicate 20 (2 :: nat))" by simp
    show "length [7, 8 :: byte] < 2 ^ 64 - 16" by simp
  qed (simp_all add: sample_poll_sel)
  then show ?thesis unfolding sample_poll_sel by blast
qed

text \<open>
  C35: When a client closes its connection, the server closes descriptor 1, its standard output, and
  not the descriptor of the connection, which it forgets: the poll that reads the end of file
  closes nothing, and the next cleanup closes exactly \<open>[1]\<close> and removes the connection from the
  array.
\<close>

theorem eof_closes_stdout:
  assumes "calm (receiver st)" and "0 < i" and "i < active_sockets_count (receiver st)"
  shows "\<exists>st1 r2. receiver_poll (readable_event (active_sockets_count (receiver st)) i [] rnd) st = Inr (0, st1) \<and>
    closed_fds st1 = closed_fds st \<and> receiver_cleanup (receiver st1) = Inr (r2, [1]) \<and>
    map poll_fd (active_sockets r2) =
      (let fds = map poll_fd (active_sockets (receiver st)) in butlast (fds[i := if i = length fds - 1 then - 1 else last fds]))"
proof -
  let ?fds = "map poll_fd (active_sockets (receiver st))"
  obtain st1 where st1: "receiver_poll (readable_event (active_sockets_count (receiver st)) i [] rnd) st = Inr (0, st1)"
    "closed_fds st1 = closed_fds st" "receiver_ok (receiver st1)"
    "active_sockets_count (receiver st1) = active_sockets_count (receiver st)"
    "map poll_fd (active_sockets (receiver st1)) = ?fds[i := - 1]"
    using receiver_poll_eof [OF assms] by blast
  let ?ss = "active_sockets (receiver st1)"
  have l: "length ?ss = active_sockets_count (receiver st)" "length ?fds = active_sockets_count (receiver st)"
    using assms(1) st1(3,4) by (simp_all add: calm_def receiver_ok_def)
  have fd: "poll_fd (?ss ! j) = (if j = i then - 1 else ?fds ! j)" if "j < active_sockets_count (receiver st)" for j
  proof -
    have "poll_fd (?ss ! j) = map poll_fd ?ss ! j" using that l by simp
    then show ?thesis using that l unfolding st1(5) by (simp add: nth_list_update del: nth_map)
  qed
  obtain r2 where r2: "receiver_cleanup (receiver st1) = Inr (r2, [- poll_fd (?ss ! i)])"
    "active_sockets r2 = butlast (?ss[i := last ?ss])"
    using receiver_cleanup_one [OF st1(3) assms(2)] fd assms l st1(4) by (auto simp: calm_def)
  have ne: "?ss \<noteq> []" using l assms by auto
  have "map poll_fd (active_sockets r2) = butlast ((map poll_fd ?ss)[i := poll_fd (last ?ss)])"
    by (simp add: r2(2) map_butlast map_update)
  also have "poll_fd (last ?ss) = (if i = length ?fds - 1 then - 1 else last ?fds)"
  proof -
    have "?fds \<noteq> []" using l assms(3) by (metis less_nat_zero_code list.size(3))
    then show ?thesis using ne l assms(3) fd [of "active_sockets_count (receiver st) - 1"]
      by (simp add: last_conv_nth del: nth_map)
  qed
  finally show ?thesis using st1 r2(1) fd [of i] assms(3) by (auto simp: Let_def)
qed

theorem eof_closes_stdout_witness:
  "\<exists>st1 r2. receiver_poll (readable_event 3 1 [] 0) sample_poll_state = Inr (0, st1) \<and>
    receiver_cleanup (receiver st1) = Inr (r2, [1]) \<and> map poll_fd (active_sockets r2) = [3, 5]"
proof -
  have "\<exists>st1 r2. receiver_poll (readable_event (active_sockets_count (receiver sample_poll_state)) 1 [] 0) sample_poll_state = Inr (0, st1) \<and>
    closed_fds st1 = closed_fds sample_poll_state \<and> receiver_cleanup (receiver st1) = Inr (r2, [1]) \<and>
    map poll_fd (active_sockets r2) =
      (let fds = map poll_fd (active_sockets (receiver sample_poll_state)) in butlast (fds[1 := if 1 = length fds - 1 then - 1 else last fds]))"
    by (rule eof_closes_stdout) (simp_all add: sample_poll_sel)
  moreover have "(let fds = [3, 4, 5 :: int] in butlast (fds[1 := if 1 = length fds - 1 then - 1 else last fds])) = [3, 5]"
    by simp
  ultimately show ?thesis unfolding sample_poll_sel by metis
qed

text \<open>A dead connection that the cleanup moves into the place of a removed one is not looked at.\<close>

lemma cleanup_skips_moved:
  "case receiver_cleanup (sample_receiver [- 4, 5, - 6]) of
     Inl _ \<Rightarrow> False | Inr (r, closed) \<Rightarrow> map poll_fd (active_sockets r) = [3, - 6, 5] \<and> closed = [4]"
  by code_simp

text \<open>\<open>receiver_add\<close> writes the entry after the ones it has allocated.\<close>

lemma receiver_add_overruns:
  "length (active_sockets r) = active_sockets_count r \<Longrightarrow> receiver_add fd r = Inl Out_Of_Bounds"
  by (simp add: receiver_add_def array_realloc_def array_set_def)

end
