(* ===== verification/HTable.thy ===== *)
theory HTable
  imports Utilities Config
begin

text \<open>
  The model of \<open>src/server/htable.h\<close> and \<open>htable.c\<close>: the server's file store, a hash
  table of doubly linked buckets with per-bucket mutexes, statistics and two cache
  eviction policies.

  \<^item> The items live in a heap; \<open>next_item\<close> and \<open>prev_item\<close> are pointers into it, and a
    bucket holds the pointers to its first and last item, as in the C structs. The
    FIFO of the eviction policy has a heap of its own.
  \<^item> \<open>XXH64\<close>, the hash function of a library, is an argument of every operation that
    selects a bucket. \<open>rand\<close> is a list of draws.
  \<^item> The operations run one at a time; a mutex that would be taken twice is the fault
    \<open>Deadlock\<close>. \<open>HTable_Threads\<close> interleaves their critical sections.
\<close>

subsection \<open>Data\<close>

datatype HTableError =
    HTABLE_ERR_OK
  | HTABLE_ERR_OK_WAIT
  | HTABLE_ERR_ALREADY_LOCKED
  | HTABLE_ERR_ALREADY_OPEN
  | HTABLE_ERR_ALREADY_CREATED
  | HTABLE_ERR_ALREADY_CLOSED
  | HTABLE_ERR_ALREADY_UNLOCKED
  | HTABLE_ERR_FILE_NOT_FOUND
  | HTABLE_ERR_CANT_UNLOCK
  | HTABLE_ERR_CANT_OPEN
  | HTABLE_ERR_CANT_CLOSE
  | HTABLE_ERR_SIZE

fun htable_err_code :: "HTableError \<Rightarrow> int" where
  "htable_err_code HTABLE_ERR_OK = 0"
| "htable_err_code HTABLE_ERR_OK_WAIT = 1"
| "htable_err_code HTABLE_ERR_ALREADY_LOCKED = 2"
| "htable_err_code HTABLE_ERR_ALREADY_OPEN = 3"
| "htable_err_code HTABLE_ERR_ALREADY_CREATED = 4"
| "htable_err_code HTABLE_ERR_ALREADY_CLOSED = 5"
| "htable_err_code HTABLE_ERR_ALREADY_UNLOCKED = 6"
| "htable_err_code HTABLE_ERR_FILE_NOT_FOUND = 7"
| "htable_err_code HTABLE_ERR_CANT_UNLOCK = 8"
| "htable_err_code HTABLE_ERR_CANT_OPEN = 9"
| "htable_err_code HTABLE_ERR_CANT_CLOSE = 10"
| "htable_err_code HTABLE_ERR_SIZE = 11"

record HTableStats =
  total_space_in_bytes :: u64
  items_count :: u64
  open_count :: u64
  historical_max_items_count :: u64
  historical_max_space_in_bytes :: u64
  historical_num_evictions :: u64

text \<open>
  The subscribers of a lock are a singly linked list that is only pushed to and popped
  from at its head and never shared: a list of descriptors, the head first.
  \<open>contents\<close> is NULL or a block of bytes.
\<close>

record File =
  key :: cstring
  contents :: "byte list option"
  length_in_bytes :: u64
  fd_owner :: int
  is_open :: bool
  is_locked :: bool
  subs :: "int list"

record HTableItem =
  "file" :: File
  next_item :: ptr
  prev_item :: ptr

record HTableBucket =
  guard :: bool
  head :: ptr
  last_item :: ptr

record FifoItem =
  fifo_key :: cstring
  fifo_prev :: ptr

record Fifo =
  fifo_head :: ptr
  fifo_last :: ptr
  fifo_items :: "FifoItem heap"

record HTable =
  max_items_count :: u64
  max_space_in_bytes :: u64
  policy :: CacheEvictionPolicy
  fifo :: "Fifo option"
  stats_guard :: bool
  stats :: HTableStats
  buckets_count :: u64
  buckets :: "HTableBucket list"
  items :: "HTableItem heap"

type_synonym hash_fn = "byte list \<Rightarrow> u64"

subsection \<open>Creation\<close>

definition fifo_create :: Fifo where
  "fifo_create = \<lparr>fifo_head = None, fifo_last = None, fifo_items = heap_empty\<rparr>"

definition htable_create :: "u64 \<Rightarrow> Config \<Rightarrow> HTable result" where
  "htable_create bucket_num config =
     bind_result (c_assert (0 < bucket_num)) (\<lambda>_.
       Inr \<lparr>max_items_count = ucast (max_files config),
            max_space_in_bytes = ucast (max_storage_in_bytes config),
            policy = cache_eviction_policy config,
            fifo = (if cache_eviction_policy config = CACHE_EVICTION_POLICY_FIFO
                    then Some fifo_create else None),
            stats_guard = False,
            stats = \<lparr>total_space_in_bytes = 0, items_count = 0, open_count = 0,
                     historical_max_items_count = 0, historical_max_space_in_bytes = 0,
                     historical_num_evictions = 0\<rparr>,
            buckets_count = bucket_num,
            buckets = replicate (unat bucket_num) \<lparr>guard = False, head = None, last_item = None\<rparr>,
            items = heap_empty\<rparr>)"

subsection \<open>Buckets, mutexes and items\<close>

definition htable_bucket_ptr :: "hash_fn \<Rightarrow> HTable \<Rightarrow> cstring \<Rightarrow> nat" where
  "htable_bucket_ptr XXH64 ht k = unat (XXH64 k mod buckets_count ht)"

definition lock_bucket :: "nat \<Rightarrow> HTable \<Rightarrow> HTable result" where
  "lock_bucket i ht =
     (if length (buckets ht) \<le> i then Inl Out_Of_Bounds
      else if guard (buckets ht ! i) then Inl Deadlock
      else Inr (ht\<lparr>buckets := (buckets ht)[i := (buckets ht ! i)\<lparr>guard := True\<rparr>]\<rparr>))"

definition unlock_bucket :: "nat \<Rightarrow> HTable \<Rightarrow> HTable" where
  "unlock_bucket i ht =
     ht\<lparr>buckets := (buckets ht)[i := (buckets ht ! i)\<lparr>guard := False\<rparr>]\<rparr>"

definition htable_stats_lock :: "HTable \<Rightarrow> HTable result" where
  "htable_stats_lock ht =
     (if stats_guard ht then Inl Deadlock else Inr (ht\<lparr>stats_guard := True\<rparr>))"

definition htable_stats_unlock :: "HTable \<Rightarrow> HTable" where
  "htable_stats_unlock ht = ht\<lparr>stats_guard := False\<rparr>"

text \<open>
  The search loop of a bucket follows \<open>next\<close>. The fuel is larger than the number of
  live items, so it runs out only on a cyclic list, where the C loop never ends.
\<close>

fun find_item :: "nat \<Rightarrow> (nat \<rightharpoonup> HTableItem) \<Rightarrow> ptr \<Rightarrow> cstring \<Rightarrow> ptr result" where
  "find_item fuel h None k = Inr None"
| "find_item 0 h (Some a) k = Inl Stuck"
| "find_item (Suc fuel) h (Some a) k =
     (case h a of
        None \<Rightarrow> Inl Use_After_Free
      | Some it \<Rightarrow> if key (file it) = k then Inr (Some a) else find_item fuel h (next_item it) k)"

definition htable_fetch_item :: "hash_fn \<Rightarrow> HTable \<Rightarrow> cstring \<Rightarrow> (ptr \<times> HTable) result" where
  "htable_fetch_item XXH64 ht k =
     (let i = htable_bucket_ptr XXH64 ht k in
      bind_result (lock_bucket i ht) (\<lambda>ht.
      bind_result (find_item (Suc (brk (items ht))) (cells (items ht)) (head (buckets ht ! i)) k)
        (\<lambda>p. case p of
               Some a \<Rightarrow> Inr (Some a, ht)
             | None \<Rightarrow> Inr (None, unlock_bucket i ht))))"

definition htable_fetch_file :: "hash_fn \<Rightarrow> HTable \<Rightarrow> cstring \<Rightarrow> (ptr \<times> HTable) result" where
  "htable_fetch_file XXH64 ht k = htable_fetch_item XXH64 ht k"

definition htable_release_file :: "hash_fn \<Rightarrow> HTable \<Rightarrow> cstring \<Rightarrow> HTable" where
  "htable_release_file XXH64 ht k = unlock_bucket (htable_bucket_ptr XXH64 ht k) ht"

definition load_item :: "nat \<Rightarrow> HTable \<Rightarrow> HTableItem result" where
  "load_item a ht = heap_load a (items ht)"

definition store_item :: "nat \<Rightarrow> HTableItem \<Rightarrow> HTable \<Rightarrow> HTable" where
  "store_item a it ht = ht\<lparr>items := heap_store a it (items ht)\<rparr>"

definition store_file :: "nat \<Rightarrow> File \<Rightarrow> HTable \<Rightarrow> HTable result" where
  "store_file a f ht = bind_result (load_item a ht) (\<lambda>it. Inr (store_item a (it\<lparr>file := f\<rparr>) ht))"

definition update_stats :: "(HTableStats \<Rightarrow> HTableStats) \<Rightarrow> HTable \<Rightarrow> HTable result" where
  "update_stats f ht =
     bind_result (htable_stats_lock ht) (\<lambda>ht.
       Inr (htable_stats_unlock (ht\<lparr>stats := f (stats ht)\<rparr>)))"

subsection \<open>Locks\<close>

definition htable_lock_file ::
    "hash_fn \<Rightarrow> HTable \<Rightarrow> cstring \<Rightarrow> int \<Rightarrow> (HTableError \<times> HTable) result" where
  "htable_lock_file XXH64 ht k fd =
     bind_result (htable_fetch_file XXH64 ht k) (\<lambda>(p, ht).
     case p of
       None \<Rightarrow> Inr (HTABLE_ERR_FILE_NOT_FOUND, ht)
     | Some a \<Rightarrow>
         bind_result (load_item a ht) (\<lambda>it.
         let f = file it in
         if is_locked f then
           bind_result (store_file a (f\<lparr>subs := fd # subs f\<rparr>) ht) (\<lambda>ht.
             Inr (HTABLE_ERR_OK_WAIT, htable_release_file XXH64 ht k))
         else
           bind_result (c_assert (subs f = [])) (\<lambda>_.
           bind_result (store_file a (f\<lparr>is_locked := True, fd_owner := fd\<rparr>) ht) (\<lambda>ht.
             Inr (HTABLE_ERR_OK, htable_release_file XXH64 ht k)))))"

text \<open>The result carries \<open>*new_owner_of_lock\<close>, -1 when nobody was waiting.\<close>

definition htable_unlock_file ::
    "hash_fn \<Rightarrow> HTable \<Rightarrow> cstring \<Rightarrow> int \<Rightarrow> (HTableError \<times> int \<times> HTable) result" where
  "htable_unlock_file XXH64 ht k fd =
     bind_result (htable_fetch_file XXH64 ht k) (\<lambda>(p, ht).
     case p of
       None \<Rightarrow> Inr (HTABLE_ERR_FILE_NOT_FOUND, -1, ht)
     | Some a \<Rightarrow>
         bind_result (load_item a ht) (\<lambda>it.
         let f = file it in
         if \<not> is_locked f then
           Inr (HTABLE_ERR_ALREADY_UNLOCKED, -1, htable_release_file XXH64 ht k)
         else if fd_owner f \<noteq> fd then
           Inr (HTABLE_ERR_OK_WAIT, -1, htable_release_file XXH64 ht k)
         else
           (case subs f of
              [] \<Rightarrow>
                bind_result (store_file a (f\<lparr>is_locked := False\<rparr>) ht) (\<lambda>ht.
                  Inr (HTABLE_ERR_OK, -1, htable_release_file XXH64 ht k))
            | sub # rest \<Rightarrow>
                bind_result (store_file a (f\<lparr>subs := rest, is_locked := True, fd_owner := sub\<rparr>) ht)
                  (\<lambda>ht. Inr (HTABLE_ERR_OK, sub, htable_release_file XXH64 ht k)))))"

subsection \<open>Opening, creating and closing\<close>

definition htable_open_file ::
    "hash_fn \<Rightarrow> HTable \<Rightarrow> cstring \<Rightarrow> int \<Rightarrow> bool \<Rightarrow> (HTableError \<times> HTable) result" where
  "htable_open_file XXH64 ht k fd lock =
     bind_result (htable_fetch_file XXH64 ht k) (\<lambda>(p, ht).
     case p of
       None \<Rightarrow> Inr (HTABLE_ERR_FILE_NOT_FOUND, ht)
     | Some a \<Rightarrow>
         bind_result (load_item a ht) (\<lambda>it.
         let f = file it in
         if is_open f then
           Inr (HTABLE_ERR_ALREADY_OPEN, htable_release_file XXH64 ht k)
         else if is_locked f \<and> fd_owner f \<noteq> fd then
           Inr (HTABLE_ERR_CANT_OPEN, htable_release_file XXH64 ht k)
         else
           bind_result (store_file a (f\<lparr>is_open := True, is_locked := lock, fd_owner := fd\<rparr>) ht)
             (\<lambda>ht.
           bind_result (update_stats (\<lambda>s. s\<lparr>open_count := open_count s + 1\<rparr>)
                          (htable_release_file XXH64 ht k)) (\<lambda>ht.
             Inr (HTABLE_ERR_OK, ht)))))"

definition fifo_add_file :: "Fifo \<Rightarrow> cstring \<Rightarrow> Fifo" where
  "fifo_add_file ff k =
     (case heap_alloc \<lparr>fifo_key = k, fifo_prev = fifo_head ff\<rparr> (fifo_items ff) of
        (item, h) \<Rightarrow>
          ff\<lparr>fifo_items := h, fifo_head := Some item,
             fifo_last := (case fifo_last ff of None \<Rightarrow> Some item | Some l \<Rightarrow> Some l)\<rparr>)"

definition htable_fifo_add :: "HTable \<Rightarrow> cstring \<Rightarrow> HTable result" where
  "htable_fifo_add ht k =
     (if policy ht = CACHE_EVICTION_POLICY_FIFO then
        (case fifo ht of
           None \<Rightarrow> Inl Null_Deref
         | Some ff \<Rightarrow> Inr (ht\<lparr>fifo := Some (fifo_add_file ff k)\<rparr>))
      else Inr ht)"

text \<open>The insertion of a new item in front of a bucket.\<close>

definition insert_item :: "nat \<Rightarrow> File \<Rightarrow> HTable \<Rightarrow> HTable result" where
  "insert_item i f ht =
     (let old_head = head (buckets ht ! i) in
      case heap_alloc \<lparr>file = f, next_item = old_head, prev_item = None\<rparr> (items ht) of
        (item, h) \<Rightarrow>
          bind_result (lock_bucket i (ht\<lparr>items := h\<rparr>)) (\<lambda>ht.
          bind_result
            (case head (buckets ht ! i) of
               None \<Rightarrow> Inr ht
             | Some a \<Rightarrow> bind_result (load_item a ht) (\<lambda>it.
                           Inr (store_item a (it\<lparr>prev_item := Some item\<rparr>) ht))) (\<lambda>ht.
            let b = buckets ht ! i;
                b = (if last_item b = None then b\<lparr>last_item := Some item\<rparr> else b);
                b = b\<lparr>head := Some item\<rparr>
            in Inr (unlock_bucket i (ht\<lparr>buckets := (buckets ht)[i := b]\<rparr>)))))"

definition new_file :: "cstring \<Rightarrow> int \<Rightarrow> bool \<Rightarrow> File" where
  "new_file k fd lock =
     \<lparr>key = k, contents = None, length_in_bytes = 0, fd_owner = fd, is_open = True,
      is_locked = lock, subs = []\<rparr>"

definition stats_on_create :: "HTableStats \<Rightarrow> HTableStats" where
  "stats_on_create s =
     (let s = s\<lparr>open_count := open_count s + 1, items_count := items_count s + 1\<rparr> in
      if historical_max_items_count s < items_count s
      then s\<lparr>historical_max_items_count := items_count s\<rparr> else s)"

definition htable_create_file ::
    "hash_fn \<Rightarrow> HTable \<Rightarrow> cstring \<Rightarrow> int \<Rightarrow> bool \<Rightarrow> (HTableError \<times> HTable) result" where
  "htable_create_file XXH64 ht k fd lock =
     bind_result (htable_fetch_item XXH64 ht k) (\<lambda>(p, ht).
     case p of
       Some _ \<Rightarrow> Inr (HTABLE_ERR_ALREADY_CREATED, htable_release_file XXH64 ht k)
     | None \<Rightarrow>
         bind_result (insert_item (htable_bucket_ptr XXH64 ht k) (new_file k fd lock) ht) (\<lambda>ht.
         bind_result (htable_stats_lock ht) (\<lambda>ht.
         bind_result (htable_fifo_add (ht\<lparr>stats := stats_on_create (stats ht)\<rparr>) k) (\<lambda>ht.
           Inr (HTABLE_ERR_OK, htable_stats_unlock ht)))))"

definition htable_open_or_create_file ::
    "hash_fn \<Rightarrow> HTable \<Rightarrow> cstring \<Rightarrow> int \<Rightarrow> bool \<Rightarrow> bool \<Rightarrow> (HTableError \<times> HTable) result" where
  "htable_open_or_create_file XXH64 ht k fd create lock =
     (if create then htable_create_file XXH64 ht k fd lock
      else htable_open_file XXH64 ht k fd lock)"

definition htable_close_file ::
    "hash_fn \<Rightarrow> HTable \<Rightarrow> cstring \<Rightarrow> int \<Rightarrow> (HTableError \<times> HTable) result" where
  "htable_close_file XXH64 ht k fd =
     bind_result (htable_fetch_file XXH64 ht k) (\<lambda>(p, ht).
     case p of
       None \<Rightarrow> Inr (HTABLE_ERR_FILE_NOT_FOUND, ht)
     | Some a \<Rightarrow>
         bind_result (load_item a ht) (\<lambda>it.
         let f = file it in
         if \<not> is_open f then
           Inr (HTABLE_ERR_ALREADY_CLOSED, htable_release_file XXH64 ht k)
         else if is_locked f \<and> fd_owner f \<noteq> fd then
           Inr (HTABLE_ERR_CANT_CLOSE, htable_release_file XXH64 ht k)
         else
           bind_result (store_file a (f\<lparr>is_open := False\<rparr>) ht) (\<lambda>ht.
           bind_result (update_stats (\<lambda>s. s\<lparr>open_count := open_count s - 1\<rparr>)
                          (htable_release_file XXH64 ht k)) (\<lambda>ht.
             Inr (HTABLE_ERR_OK, ht)))))"

subsection \<open>Removing\<close>

text \<open>Chaining together the previous and next nodes of an item, then freeing it.\<close>

definition unlink_item :: "nat \<Rightarrow> nat \<Rightarrow> HTable \<Rightarrow> HTable result" where
  "unlink_item i a ht =
     bind_result (load_item a ht) (\<lambda>it.
     bind_result
       (case prev_item it of
          Some p \<Rightarrow> bind_result (load_item p ht) (\<lambda>pit.
                      Inr (store_item p (pit\<lparr>next_item := next_item it\<rparr>) ht))
        | None \<Rightarrow>
            Inr (ht\<lparr>buckets := (buckets ht)[i := (buckets ht ! i)\<lparr>head := next_item it\<rparr>]\<rparr>)) (\<lambda>ht.
     (case next_item it of
        Some n \<Rightarrow> bind_result (load_item n ht) (\<lambda>nit.
                    Inr (store_item n (nit\<lparr>prev_item := prev_item it\<rparr>) ht))
      | None \<Rightarrow>
          Inr (ht\<lparr>buckets := (buckets ht)[i := (buckets ht ! i)\<lparr>last_item := prev_item it\<rparr>]\<rparr>))))"

definition free_item :: "nat \<Rightarrow> HTable \<Rightarrow> HTable" where
  "free_item a ht = ht\<lparr>items := heap_free a (items ht)\<rparr>"

definition htable_remove_file ::
    "hash_fn \<Rightarrow> HTable \<Rightarrow> cstring \<Rightarrow> int \<Rightarrow> (HTableError \<times> HTable) result" where
  "htable_remove_file XXH64 ht k fd =
     bind_result (htable_fetch_item XXH64 ht k) (\<lambda>(p, ht).
     case p of
       None \<Rightarrow> Inr (HTABLE_ERR_FILE_NOT_FOUND, ht)
     | Some a \<Rightarrow>
         bind_result (load_item a ht) (\<lambda>it.
         let f = file it in
         if is_locked f \<and> fd_owner f \<noteq> fd \<and> fd \<noteq> -1 then
           Inr (HTABLE_ERR_OK, htable_release_file XXH64 ht k)
         else
           bind_result (unlink_item (htable_bucket_ptr XXH64 ht k) a ht) (\<lambda>ht.
           bind_result
             (update_stats
                (\<lambda>s. s\<lparr>open_count := open_count s - 1, items_count := items_count s - 1,
                        total_space_in_bytes := total_space_in_bytes s - length_in_bytes f\<rparr>)
                (htable_release_file XXH64 (free_item a ht) k)) (\<lambda>ht.
             Inr (HTABLE_ERR_OK, ht)))))"

subsection \<open>Evicting\<close>

definition fifo_evict :: "Fifo \<Rightarrow> (cstring option \<times> Fifo) result" where
  "fifo_evict ff =
     (case fifo_last ff of
        None \<Rightarrow> Inr (None, ff)
      | Some l \<Rightarrow>
          bind_result (heap_load l (fifo_items ff)) (\<lambda>it.
            Inr (Some (fifo_key it),
                 ff\<lparr>fifo_last := fifo_prev it, fifo_items := heap_free l (fifo_items ff)\<rparr>)))"

definition htable_evict_single_file_fifo :: "hash_fn \<Rightarrow> HTable \<Rightarrow> (ptr \<times> HTable) result" where
  "htable_evict_single_file_fifo XXH64 ht =
     (case fifo ht of
        None \<Rightarrow> Inl Null_Deref
      | Some ff \<Rightarrow>
          bind_result (fifo_evict ff) (\<lambda>(k, ff).
          let ht = ht\<lparr>fifo := Some ff\<rparr> in
          case k of
            None \<Rightarrow> Inr (None, ht)
          | Some k \<Rightarrow>
              let i = htable_bucket_ptr XXH64 ht k in
              bind_result (htable_fetch_item XXH64 ht k) (\<lambda>(p, ht).
              case p of
                None \<Rightarrow> Inr (None, ht)
              | Some a \<Rightarrow>
                  bind_result (unlink_item i a ht) (\<lambda>ht.
                    Inr (Some a, unlock_bucket i ht)))))"

text \<open>Unlinking the last item of a bucket.\<close>

definition take_last :: "nat \<Rightarrow> nat \<Rightarrow> HTable \<Rightarrow> HTable result" where
  "take_last i a ht =
     bind_result (load_item a ht) (\<lambda>it.
     let ht = ht\<lparr>buckets := (buckets ht)[i := (buckets ht ! i)\<lparr>last_item := prev_item it\<rparr>]\<rparr> in
     bind_result
       (case prev_item it of
          Some p \<Rightarrow> bind_result (load_item p ht) (\<lambda>pit.
                      Inr (store_item p (pit\<lparr>next_item := None\<rparr>) ht))
        | None \<Rightarrow>
            Inr (ht\<lparr>buckets := (buckets ht)[i := (buckets ht ! i)\<lparr>head := None\<rparr>]\<rparr>)) (\<lambda>ht.
     bind_result (load_item a ht) (\<lambda>it.
       Inr (store_item a (it\<lparr>next_item := None, prev_item := None\<rparr>) ht))))"

text \<open>
  The loop draws buckets until one is not empty. \<open>draws\<close> are the successive results
  of \<open>rand()\<close>; when they are exhausted the loop is still running (\<open>Stuck\<close>). The
  result is the evicted item and the draws that are left.
\<close>

fun segmented_fifo_loop :: "nat list \<Rightarrow> HTable \<Rightarrow> (ptr \<times> nat list \<times> HTable) result" where
  "segmented_fifo_loop draws ht =
     (if \<not> 0 < items_count (stats ht) then Inl Exit_Failure
      else (case draws of
              [] \<Rightarrow> Inl Stuck
            | r # draws' \<Rightarrow>
                let i = unat ((of_nat r :: u64) mod buckets_count ht) in
                bind_result (lock_bucket i ht) (\<lambda>ht1.
                case last_item (buckets ht1 ! i) of
                  None \<Rightarrow>
                    bind_result (c_assert (head (buckets ht1 ! i) = None)) (\<lambda>_.
                      segmented_fifo_loop draws' (unlock_bucket i ht1))
                | Some a \<Rightarrow>
                    bind_result (take_last i a ht1) (\<lambda>ht2.
                      Inr (Some a, draws', unlock_bucket i ht2)))))"

declare segmented_fifo_loop.simps [simp del]

definition htable_evict_single_file_segmented_fifo ::
    "nat list \<Rightarrow> HTable \<Rightarrow> (ptr \<times> nat list \<times> HTable) result" where
  "htable_evict_single_file_segmented_fifo draws ht =
     bind_result (c_assert (items_count (stats ht) \<noteq> 0)) (\<lambda>_. segmented_fifo_loop draws ht)"

definition htable_evict_one ::
    "hash_fn \<Rightarrow> nat list \<Rightarrow> HTable \<Rightarrow> (ptr \<times> nat list \<times> HTable) result" where
  "htable_evict_one XXH64 draws ht =
     (if policy ht = CACHE_EVICTION_POLICY_SEGMENTED_FIFO
      then htable_evict_single_file_segmented_fifo draws ht
      else bind_result (htable_evict_single_file_fifo XXH64 ht) (\<lambda>(p, ht). Inr (p, draws, ht)))"

definition htable_over_limit :: "HTable \<Rightarrow> bool" where
  "htable_over_limit ht =
     (items_count (stats ht) > max_items_count ht \<or>
      total_space_in_bytes (stats ht) > max_space_in_bytes ht)"

definition stats_on_evict :: "File \<Rightarrow> HTableStats \<Rightarrow> HTableStats" where
  "stats_on_evict f s =
     s\<lparr>open_count := (if is_open f then open_count s - 1 else open_count s),
       items_count := items_count s - 1,
       total_space_in_bytes := total_space_in_bytes s - length_in_bytes f,
       historical_num_evictions := historical_num_evictions s + 1\<rparr>"

text \<open>
  The eviction loop. It is bounded by \<open>fuel\<close>; one more than the number of live items is
  always enough, since every round frees one item.
\<close>

fun evict_loop ::
    "nat \<Rightarrow> hash_fn \<Rightarrow> nat list \<Rightarrow> HTable \<Rightarrow> (File list \<times> nat list \<times> HTable) result" where
  "evict_loop fuel XXH64 draws ht =
     (if \<not> htable_over_limit ht then Inr ([], draws, ht)
      else (case fuel of
              0 \<Rightarrow> Inl Stuck
            | Suc fuel' \<Rightarrow>
                bind_result (htable_evict_one XXH64 draws ht) (\<lambda>(p, draws, ht).
                bind_result (deref p) (\<lambda>a.
                bind_result (load_item a ht) (\<lambda>it.
                bind_result (evict_loop fuel' XXH64 draws
                   (free_item a (ht\<lparr>stats := stats_on_evict (file it) (stats ht)\<rparr>)))
                   (\<lambda>(evicted, draws, ht). Inr (file it # evicted, draws, ht)))))))"

declare evict_loop.simps [simp del]

definition htable_evict_files ::
    "hash_fn \<Rightarrow> nat list \<Rightarrow> HTable \<Rightarrow> (HTableError \<times> File list \<times> nat list \<times> HTable) result" where
  "htable_evict_files XXH64 draws ht =
     bind_result (htable_stats_lock ht) (\<lambda>ht.
     bind_result (evict_loop (Suc (brk (items ht))) XXH64 draws ht) (\<lambda>(evicted, draws, ht).
       Inr (HTABLE_ERR_OK, evicted, draws, htable_stats_unlock ht)))"

subsection \<open>Writing\<close>

definition stats_on_write :: "u64 \<Rightarrow> u64 \<Rightarrow> HTableStats \<Rightarrow> HTableStats" where
  "stats_on_write new_size old_size s =
     (let s = s\<lparr>total_space_in_bytes := total_space_in_bytes s + new_size - old_size\<rparr> in
      if historical_max_space_in_bytes s < total_space_in_bytes s
      then s\<lparr>historical_max_space_in_bytes := total_space_in_bytes s\<rparr> else s)"

text \<open>The argument \<open>data\<close> is the region the caller's pointer and size describe.\<close>

definition htable_replace_file_contents ::
    "hash_fn \<Rightarrow> nat list \<Rightarrow> HTable \<Rightarrow> cstring \<Rightarrow> byte list \<Rightarrow>
     (HTableError \<times> File list \<times> nat list \<times> HTable) result" where
  "htable_replace_file_contents XXH64 draws ht k data =
     bind_result (htable_fetch_file XXH64 ht k) (\<lambda>(p, ht).
     case p of
       None \<Rightarrow> Inr (HTABLE_ERR_FILE_NOT_FOUND, [], draws, ht)
     | Some a \<Rightarrow>
         bind_result (load_item a ht) (\<lambda>it.
         let f = file it; sz = of_nat (length data) in
         bind_result (xrealloc (contents f) sz) (\<lambda>blk.
         bind_result
           (store_file a (f\<lparr>length_in_bytes := sz,
                             contents := Some (data @ drop (length data) blk)\<rparr>) ht) (\<lambda>ht.
         bind_result (update_stats (stats_on_write sz (length_in_bytes f))
                        (htable_release_file XXH64 ht k)) (\<lambda>ht.
           htable_evict_files XXH64 draws ht)))))"

definition htable_append_to_file_contents ::
    "hash_fn \<Rightarrow> nat list \<Rightarrow> HTable \<Rightarrow> cstring \<Rightarrow> byte list \<Rightarrow>
     (HTableError \<times> File list \<times> nat list \<times> HTable) result" where
  "htable_append_to_file_contents XXH64 draws ht k data =
     bind_result (htable_fetch_file XXH64 ht k) (\<lambda>(p, ht).
     case p of
       None \<Rightarrow> Inr (HTABLE_ERR_FILE_NOT_FOUND, [], draws, ht)
     | Some a \<Rightarrow>
         bind_result (load_item a ht) (\<lambda>it.
         let f = file it; sz = of_nat (length data); new_len = length_in_bytes f + sz in
         bind_result (xrealloc (contents f) new_len) (\<lambda>blk.
         let off = unat (new_len - sz) in
         if length blk < off + length data then Inl Out_Of_Bounds
         else
           bind_result
             (store_file a (f\<lparr>length_in_bytes := new_len,
                               contents := Some (take off blk @ data @ drop (off + length data) blk)\<rparr>) ht)
             (\<lambda>ht.
           bind_result (update_stats (stats_on_write sz 0)
                          (htable_release_file XXH64 ht k)) (\<lambda>ht.
             htable_evict_files XXH64 draws ht)))))"

end
