(* ===== verification/HTable_Inv.thy ===== *)
theory HTable_Inv
  imports HTable
begin

text \<open>
  The representation invariant of the hash table and its preservation at the level of
  pointers: every bucket is a well-formed doubly linked list, the buckets partition the
  live items of the heap, an item is in the bucket its key hashes to, and no two items
  have the same key. The abstraction \<open>htable_lookup\<close> reads the table as a finite map from
  paths to files.
\<close>

subsection \<open>Doubly linked segments\<close>

text \<open>
  \<open>dseg h prv p as q\<close>: from the pointer \<open>p\<close>, following \<open>next\<close>, the items at the
  addresses \<open>as\<close> are visited and the pointer \<open>q\<close> is reached; the \<open>prev\<close> pointers lead
  back, and the first one is \<open>prv\<close>.
\<close>

primrec dseg :: "(nat \<rightharpoonup> HTableItem) \<Rightarrow> ptr \<Rightarrow> ptr \<Rightarrow> nat list \<Rightarrow> ptr \<Rightarrow> bool" where
  "dseg h prv p [] q \<longleftrightarrow> p = q"
| "dseg h prv p (a # as) q \<longleftrightarrow>
     p = Some a \<and> (\<exists>it. h a = Some it \<and> prev_item it = prv \<and> dseg h (Some a) (next_item it) as q)"

definition lastp :: "ptr \<Rightarrow> nat list \<Rightarrow> ptr" where
  "lastp prv as = (if as = [] then prv else Some (last as))"

definition firstp :: "nat list \<Rightarrow> ptr \<Rightarrow> ptr" where
  "firstp as q = (case as of [] \<Rightarrow> q | a # _ \<Rightarrow> Some a)"

lemma lastp_simps [simp]:
  "lastp prv [] = prv" "lastp prv (xs @ [a]) = Some a" "lastp prv (a # as) = lastp (Some a) as"
  by (simp_all add: lastp_def)

lemma firstp_simps [simp]: "firstp [] q = q" "firstp (a # as) q = Some a"
  by (simp_all add: firstp_def)

lemma lastp_append [simp]: "lastp prv (xs @ ys) = lastp (lastp prv xs) ys"
  by (simp add: lastp_def)

lemma firstp_append [simp]: "firstp (xs @ ys) q = firstp xs (firstp ys q)"
  by (simp add: firstp_def split: list.split)

lemma dseg_append:
  "dseg h prv p (xs @ ys) q \<longleftrightarrow>
     (\<exists>m. dseg h prv p xs m \<and> dseg h (lastp prv xs) m ys q)"
  by (induction xs arbitrary: prv p) auto

lemma dseg_first: "dseg h prv p as q \<Longrightarrow> p = firstp as q"
  by (cases as) auto

lemma dseg_dom: "dseg h prv p as q \<Longrightarrow> set as \<subseteq> dom h"
  by (induction as arbitrary: prv p) auto

lemma dseg_frame:
  assumes "\<And>a. a \<in> set as \<Longrightarrow> h' a = h a"
  shows "dseg h' prv p as q = dseg h prv p as q"
  using assms by (induction as arbitrary: prv p) auto

lemma dseg_upd_notin [simp]: "a \<notin> set as \<Longrightarrow> dseg (h(a := x)) prv p as q = dseg h prv p as q"
  by (rule dseg_frame) auto

lemma dseg_upd_file:
  assumes "h a = Some it"
  shows "dseg (h(a \<mapsto> it\<lparr>file := f\<rparr>)) prv p as q = dseg h prv p as q"
proof (induction as arbitrary: prv p)
  case (Cons b as)
  then show ?case using assms by (cases "a = b") auto
qed simp

lemma dseg_set_next:
  assumes "dseg h prv p (xs @ [z]) q" and "z \<notin> set xs" and "h z = Some it"
  shows "dseg (h(z \<mapsto> it\<lparr>next_item := q'\<rparr>)) prv p (xs @ [z]) q'"
  using assms by (auto simp: dseg_append)

lemma dseg_set_prev:
  assumes "dseg h prv p (y # ys) q" and "y \<notin> set ys" and "h y = Some it"
  shows "dseg (h(y \<mapsto> it\<lparr>prev_item := prv'\<rparr>)) prv' p (y # ys) q"
  using assms by auto

lemma dseg_cons:
  fixes f :: File
  assumes "dseg h None p as None" and "a \<notin> set as" and "distinct as"
  defines "h1 \<equiv> h(a \<mapsto> \<lparr>file = f, next_item = p, prev_item = None\<rparr>)"
  shows "case p of
           None \<Rightarrow> as = [] \<and> dseg h1 None (Some a) [a] None
         | Some b \<Rightarrow> (\<exists>it. h b = Some it \<and> b \<noteq> a \<and>
             dseg (h1(b \<mapsto> it\<lparr>prev_item := Some a\<rparr>)) None (Some a) (a # as) None)"
proof (cases as)
  case Nil
  with assms show ?thesis by simp
next
  case (Cons b bs)
  with assms obtain it where "h b = Some it" "p = Some b" by auto
  with assms Cons show ?thesis by (auto simp: h1_def)
qed

lemma find_item_dseg:
  assumes "dseg h prv p as None" and "length as < fuel"
  shows "find_item fuel h p k = Inr (List.find (\<lambda>a. key (file (the (h a))) = k) as)"
  using assms
proof (induction as arbitrary: prv p fuel)
  case (Cons a as)
  then obtain fuel' it where "fuel = Suc fuel'" "p = Some a" "h a = Some it"
    by (cases fuel) auto
  with Cons show ?case by auto
qed simp

text \<open>Unlinking the item \<open>a\<close> of a list, as the code does it, in two pointer updates.\<close>

definition relink_next :: "(nat \<rightharpoonup> HTableItem) \<Rightarrow> ptr \<Rightarrow> ptr \<Rightarrow> (nat \<rightharpoonup> HTableItem)" where
  "relink_next h p n =
     (case p of None \<Rightarrow> h | Some b \<Rightarrow> h(b \<mapsto> (the (h b))\<lparr>next_item := n\<rparr>))"

definition relink_prev :: "(nat \<rightharpoonup> HTableItem) \<Rightarrow> ptr \<Rightarrow> ptr \<Rightarrow> (nat \<rightharpoonup> HTableItem)" where
  "relink_prev h n p =
     (case n of None \<Rightarrow> h | Some b \<Rightarrow> h(b \<mapsto> (the (h b))\<lparr>prev_item := p\<rparr>))"

lemma relink_next_None [simp]: "relink_next h None n = h"
  by (simp add: relink_next_def)

lemma relink_prev_None [simp]: "relink_prev h None p = h"
  by (simp add: relink_prev_def)

lemma relink_next_Some [simp]:
  "relink_next h (Some b) n = h(b \<mapsto> (the (h b))\<lparr>next_item := n\<rparr>)"
  by (simp add: relink_next_def)

lemma relink_prev_Some [simp]:
  "relink_prev h (Some b) p = h(b \<mapsto> (the (h b))\<lparr>prev_item := p\<rparr>)"
  by (simp add: relink_prev_def)

lemma dseg_relink_next:
  assumes "dseg h None p xs q" and "distinct xs"
  shows "dseg (relink_next h (lastp None xs) q') None (if xs = [] then q' else p) xs q'"
proof (cases xs rule: rev_cases)
  case (snoc ws z)
  with assms obtain it where "h z = Some it" by (auto simp: dseg_append)
  with assms snoc show ?thesis using dseg_set_next [of h None p ws z q it q'] by auto
qed (use assms in simp)

lemma dseg_relink_prev:
  assumes "dseg h prv p ys q" and "distinct ys" and "q = None"
  shows "dseg (relink_prev h p prv') prv' p ys q"
proof (cases ys)
  case (Cons y ws)
  with assms show ?thesis by auto
qed (use assms in simp)

lemma dseg_unlink:
  assumes seg: "dseg h None p (xs @ a # ys) None" and dist: "distinct (xs @ a # ys)"
    and a: "h a = Some it"
  shows "prev_item it = lastp None xs" and "next_item it = firstp ys None"
    and "dseg (relink_prev (relink_next h (prev_item it) (next_item it)) (next_item it) (prev_item it))
           None (if xs = [] then next_item it else p) (xs @ ys) None"
proof -
  from seg a have s1: "dseg h None p xs (Some a)" and prv: "prev_item it = lastp None xs"
    and s2: "dseg h (Some a) (next_item it) ys None"
    by (auto simp: dseg_append)
  show "prev_item it = lastp None xs" by (rule prv)
  show nxt: "next_item it = firstp ys None" using s2 by (rule dseg_first)
  let ?h1 = "relink_next h (prev_item it) (next_item it)"
  have t1: "dseg ?h1 None (if xs = [] then next_item it else p) xs (next_item it)"
    unfolding prv using s1 dist by (intro dseg_relink_next) auto
  have "last xs \<notin> set ys" if "xs \<noteq> []"
    using that dist last_in_set [OF that] by (metis disjoint_iff distinct_append list.set_intros(2))
  then have "lastp None xs = None \<or> (\<exists>b. lastp None xs = Some b \<and> b \<notin> set ys)"
    by (auto simp: lastp_def)
  then have t2: "dseg ?h1 (Some a) (next_item it) ys None"
    using s2 dist prv by auto
  have t3: "dseg (relink_prev ?h1 (next_item it) (prev_item it)) (prev_item it) (next_item it) ys None"
    using t2 dist by (intro dseg_relink_prev) auto
  have "next_item it = None \<or> (\<exists>b. next_item it = Some b \<and> b \<notin> set xs)"
    using nxt dist by (cases ys) auto
  then have "dseg (relink_prev ?h1 (next_item it) (prev_item it)) None
      (if xs = [] then next_item it else p) xs (next_item it)"
    using t1 by auto
  with t3 prv show "dseg (relink_prev ?h1 (next_item it) (prev_item it))
           None (if xs = [] then next_item it else p) (xs @ ys) None"
    by (auto simp: dseg_append)
qed

lemma relink_frame:
  assumes "c \<notin> set_option p" and "c \<notin> set_option n"
  shows "relink_prev (relink_next h p n) n p c = h c"
  using assms by (auto simp: relink_prev_def relink_next_def split: option.splits)

lemma relink_files:
  assumes "set_option p \<subseteq> dom h" and "set_option n \<subseteq> dom h"
  shows "map_option file (relink_prev (relink_next h p n) n p c) = map_option file (h c)"
  using assms by (auto simp: relink_prev_def relink_next_def split: option.splits)

subsection \<open>The representation invariant\<close>

definition bucket_rep :: "(nat \<rightharpoonup> HTableItem) \<Rightarrow> HTableBucket \<Rightarrow> nat list \<Rightarrow> bool" where
  "bucket_rep h b as \<longleftrightarrow>
     dseg h None (head b) as None \<and> last_item b = lastp None as \<and> distinct as \<and>
     inj_on (\<lambda>a. key (file (the (h a)))) (set as)"

text \<open>
  \<open>ass ! i\<close> are the addresses of the items of bucket \<open>i\<close>, from its head to its last
  item. The buckets hold every live item, so no item is ever leaked.
\<close>

definition htable_rep :: "hash_fn \<Rightarrow> HTable \<Rightarrow> nat list list \<Rightarrow> bool" where
  "htable_rep XXH64 ht ass \<longleftrightarrow>
     length ass = length (buckets ht) \<and> 0 < length ass \<and> length ass < 2 ^ 64 \<and>
     buckets_count ht = of_nat (length ass) \<and>
     heap_ok (items ht) \<and> distinct (concat ass) \<and> set (concat ass) = dom (cells (items ht)) \<and>
     (\<forall>i < length ass. bucket_rep (cells (items ht)) (buckets ht ! i) (ass ! i) \<and>
        (\<forall>a \<in> set (ass ! i).
           htable_bucket_ptr XXH64 ht (key (file (the (cells (items ht) a)))) = i))"

definition htable_unlocked :: "HTable \<Rightarrow> bool" where
  "htable_unlocked ht \<longleftrightarrow> (\<forall>b \<in> set (buckets ht). \<not> guard b)"

definition file_ok :: "File \<Rightarrow> bool" where
  "file_ok f \<longleftrightarrow>
     unat (length_in_bytes f) = (case contents f of None \<Rightarrow> 0 | Some blk \<Rightarrow> length blk)"

definition live_files :: "HTable \<Rightarrow> nat \<Rightarrow> File" where
  "live_files ht a = file (the (cells (items ht) a))"

definition stats_rep :: "HTable \<Rightarrow> bool" where
  "stats_rep ht \<longleftrightarrow>
     items_count (stats ht) = of_nat (card (dom (cells (items ht)))) \<and>
     total_space_in_bytes (stats ht) =
       (\<Sum>a \<in> dom (cells (items ht)). length_in_bytes (live_files ht a))"

definition fifo_present :: "HTable \<Rightarrow> bool" where
  "fifo_present ht \<longleftrightarrow> (policy ht = CACHE_EVICTION_POLICY_FIFO \<longrightarrow> fifo ht \<noteq> None)"

text \<open>
  \<open>htable_core\<close> holds between operations and also inside the eviction loop, which runs
  with the statistics locked; \<open>htable_inv\<close> is the invariant between operations.
\<close>

definition htable_core :: "hash_fn \<Rightarrow> HTable \<Rightarrow> bool" where
  "htable_core XXH64 ht \<longleftrightarrow>
     (\<exists>ass. htable_rep XXH64 ht ass) \<and> htable_unlocked ht \<and> stats_rep ht \<and> fifo_present ht \<and>
     (\<forall>a \<in> dom (cells (items ht)). file_ok (live_files ht a))"

definition htable_inv :: "hash_fn \<Rightarrow> HTable \<Rightarrow> bool" where
  "htable_inv XXH64 ht \<longleftrightarrow> htable_core XXH64 ht \<and> \<not> stats_guard ht"

text \<open>The table read as a map from paths to files.\<close>

definition htable_lookup :: "hash_fn \<Rightarrow> HTable \<Rightarrow> cstring \<Rightarrow> File option" where
  "htable_lookup XXH64 ht k =
     (case find_item (Suc (brk (items ht))) (cells (items ht))
             (head (buckets ht ! htable_bucket_ptr XXH64 ht k)) k of
        Inr (Some a) \<Rightarrow> map_option file (cells (items ht) a)
      | _ \<Rightarrow> None)"

lemma bucket_ptr_lt:
  assumes "htable_rep XXH64 ht ass"
  shows "htable_bucket_ptr XXH64 ht k < length ass"
proof -
  from assms have n: "0 < length ass" "length ass < 2 ^ 64" "buckets_count ht = of_nat (length ass)"
    by (auto simp: htable_rep_def)
  then have "unat (XXH64 k mod buckets_count ht) = unat (XXH64 k) mod length ass"
    by (simp add: unat_mod_distrib)
  with n show ?thesis by (simp add: htable_bucket_ptr_def)
qed

lemma find_eq_Some_iff:
  assumes "inj_on g (set as)"
  shows "List.find (\<lambda>a. g a = k) as = Some a \<longleftrightarrow> a \<in> set as \<and> g a = k"
proof
  assume "List.find (\<lambda>a. g a = k) as = Some a"
  then show "a \<in> set as \<and> g a = k" by (auto simp: find_Some_iff)
next
  assume a: "a \<in> set as \<and> g a = k"
  then obtain b where b: "List.find (\<lambda>a. g a = k) as = Some b"
    by (cases "List.find (\<lambda>a. g a = k) as") (auto simp: find_None_iff)
  then have "b \<in> set as \<and> g b = k" by (auto simp: find_Some_iff)
  with a b assms show "List.find (\<lambda>a. g a = k) as = Some a" by (auto dest: inj_onD)
qed

lemma rep_find:
  fixes k :: cstring
  assumes rep: "htable_rep XXH64 ht ass"
  defines "i \<equiv> htable_bucket_ptr XXH64 ht k"
  obtains p where
    "find_item (Suc (brk (items ht))) (cells (items ht)) (head (buckets ht ! i)) k = Inr p"
    and "\<And>a. p = Some a \<longleftrightarrow> (\<exists>it. cells (items ht) a = Some it \<and> key (file it) = k)"
proof -
  let ?h = "cells (items ht)"
  let ?g = "\<lambda>a. key (file (the (?h a)))"
  have i: "i < length ass" unfolding i_def using rep by (rule bucket_ptr_lt)
  with rep have b: "bucket_rep ?h (buckets ht ! i) (ass ! i)" by (auto simp: htable_rep_def)
  then have seg: "dseg ?h None (head (buckets ht ! i)) (ass ! i) None"
    and dist: "distinct (ass ! i)" and inj: "inj_on ?g (set (ass ! i))"
    by (auto simp: bucket_rep_def)
  have "length (ass ! i) \<le> brk (items ht)"
    using rep dist dseg_dom [OF seg] by (intro heap_ok_length_le) (auto simp: htable_rep_def)
  then have f: "find_item (Suc (brk (items ht))) ?h (head (buckets ht ! i)) k =
      Inr (List.find (\<lambda>a. ?g a = k) (ass ! i))"
    using seg by (intro find_item_dseg) auto
  have "List.find (\<lambda>a. ?g a = k) (ass ! i) = Some a \<longleftrightarrow> (\<exists>it. ?h a = Some it \<and> key (file it) = k)" for a
  proof
    assume "List.find (\<lambda>a. ?g a = k) (ass ! i) = Some a"
    then have "a \<in> set (ass ! i)" "?g a = k" by (simp_all add: find_eq_Some_iff [OF inj])
    moreover from this obtain it where "?h a = Some it" using dseg_dom [OF seg] by blast
    ultimately show "\<exists>it. ?h a = Some it \<and> key (file it) = k" by simp
  next
    assume "\<exists>it. ?h a = Some it \<and> key (file it) = k"
    then obtain it where it: "?h a = Some it" "key (file it) = k" by blast
    then have "a \<in> set (concat ass)" using rep unfolding htable_rep_def by blast
    from in_concat_nth [OF this] obtain j where "j < length ass" "a \<in> set (ass ! j)" by blast
    moreover from this rep have "htable_bucket_ptr XXH64 ht (?g a) = j"
      by (simp add: htable_rep_def)
    ultimately have "a \<in> set (ass ! i)" using it by (simp add: i_def)
    with it show "List.find (\<lambda>a. ?g a = k) (ass ! i) = Some a"
      by (simp add: find_eq_Some_iff [OF inj])
  qed
  with f show thesis by (rule that)
qed

lemma lookup_rep:
  assumes "htable_rep XXH64 ht ass"
  shows "htable_lookup XXH64 ht k = Some f \<longleftrightarrow>
    (\<exists>a it. cells (items ht) a = Some it \<and> file it = f \<and> key f = k)"
proof -
  obtain p where f: "find_item (Suc (brk (items ht))) (cells (items ht))
      (head (buckets ht ! htable_bucket_ptr XXH64 ht k)) k = Inr p"
    and p: "\<And>a. p = Some a \<longleftrightarrow> (\<exists>it. cells (items ht) a = Some it \<and> key (file it) = k)"
    using rep_find [OF assms, of k] by blast
  have "htable_lookup XXH64 ht k = Some f \<longleftrightarrow>
      (\<exists>a it. p = Some a \<and> cells (items ht) a = Some it \<and> file it = f)"
    by (auto simp: htable_lookup_def f split: option.splits)
  then show ?thesis unfolding p by (metis option.inject)
qed

subsection \<open>Fetching an item\<close>

definition lockb :: "nat \<Rightarrow> HTable \<Rightarrow> HTable" where
  "lockb i ht = ht\<lparr>buckets := (buckets ht)[i := (buckets ht ! i)\<lparr>guard := True\<rparr>]\<rparr>"

lemma bucket_ptr_upd [simp]:
  "htable_bucket_ptr XXH64 (ht\<lparr>buckets := b\<rparr>) k = htable_bucket_ptr XXH64 ht k"
  "htable_bucket_ptr XXH64 (ht\<lparr>items := h\<rparr>) k = htable_bucket_ptr XXH64 ht k"
  "htable_bucket_ptr XXH64 (ht\<lparr>stats := s\<rparr>) k = htable_bucket_ptr XXH64 ht k"
  "htable_bucket_ptr XXH64 (ht\<lparr>fifo := ff\<rparr>) k = htable_bucket_ptr XXH64 ht k"
  "htable_bucket_ptr XXH64 (ht\<lparr>stats_guard := g\<rparr>) k = htable_bucket_ptr XXH64 ht k"
  by (simp_all add: htable_bucket_ptr_def)

lemma lockb_sel [simp]:
  "items (lockb i ht) = items ht" "stats (lockb i ht) = stats ht"
  "stats_guard (lockb i ht) = stats_guard ht"
  "htable_bucket_ptr XXH64 (lockb i ht) k = htable_bucket_ptr XXH64 ht k"
  by (simp_all add: lockb_def)

lemma guard_release: "\<not> guard b \<Longrightarrow> b\<lparr>guard := False\<rparr> = b"
  by (cases b) simp

lemma unlock_lockb [simp]:
  assumes "\<not> guard (buckets ht ! i)" and "i < length (buckets ht)"
  shows "unlock_bucket i ((lockb i ht)\<lparr>items := h\<rparr>) = ht\<lparr>items := h\<rparr>"
    and "unlock_bucket i (lockb i ht) = ht"
  using assms by (cases ht; simp add: unlock_bucket_def lockb_def guard_release)+

lemma fetch_item_cases:
  assumes rep: "htable_rep XXH64 ht ass" and free: "htable_unlocked ht"
  obtains
    (missing) "htable_lookup XXH64 ht k = None" "htable_fetch_item XXH64 ht k = Inr (None, ht)"
  | (found) a it where "cells (items ht) a = Some it" "key (file it) = k"
      "htable_lookup XXH64 ht k = Some (file it)"
      "htable_fetch_item XXH64 ht k = Inr (Some a, lockb (htable_bucket_ptr XXH64 ht k) ht)"
proof -
  let ?i = "htable_bucket_ptr XXH64 ht k"
  have i: "?i < length (buckets ht)"
    using bucket_ptr_lt [OF rep, of k] rep by (simp add: htable_rep_def)
  with free have g: "\<not> guard (buckets ht ! ?i)" by (simp add: htable_unlocked_def)
  have lb: "lock_bucket ?i ht = Inr (lockb ?i ht)"
    using i g by (simp add: lock_bucket_def lockb_def)
  obtain p where f: "find_item (Suc (brk (items ht))) (cells (items ht)) (head (buckets ht ! ?i)) k = Inr p"
    and p: "\<And>a. p = Some a \<longleftrightarrow> (\<exists>it. cells (items ht) a = Some it \<and> key (file it) = k)"
    using rep_find [OF rep, of k] by blast
  have hd: "head (buckets (lockb ?i ht) ! ?i) = head (buckets ht ! ?i)"
    using i by (simp add: lockb_def)
  show thesis
  proof (cases p)
    case None
    with f lb hd have "htable_fetch_item XXH64 ht k = Inr (None, ht)"
      using i g by (simp add: htable_fetch_item_def)
    moreover have "htable_lookup XXH64 ht k = None"
      using f None by (simp add: htable_lookup_def)
    ultimately show thesis using missing by blast
  next
    case (Some a)
    with p obtain it where it: "cells (items ht) a = Some it" "key (file it) = k" by blast
    have "htable_fetch_item XXH64 ht k = Inr (Some a, lockb ?i ht)"
      using f lb hd Some by (simp add: htable_fetch_item_def)
    moreover have "htable_lookup XXH64 ht k = Some (file it)"
      using f Some it by (simp add: htable_lookup_def)
    ultimately show thesis using found it by blast
  qed
qed

lemma release_lockb:
  fixes k :: cstring
  assumes rep: "htable_rep XXH64 ht ass" and free: "htable_unlocked ht"
  defines "i \<equiv> htable_bucket_ptr XXH64 ht k"
  shows "htable_release_file XXH64 ((lockb i ht)\<lparr>items := h\<rparr>) k = ht\<lparr>items := h\<rparr>"
    and "htable_release_file XXH64 (lockb i ht) k = ht"
proof -
  have "i < length (buckets ht)"
    using bucket_ptr_lt [OF rep, of k] rep by (simp add: htable_rep_def i_def)
  moreover from this free have "\<not> guard (buckets ht ! i)" by (simp add: htable_unlocked_def)
  ultimately show "htable_release_file XXH64 ((lockb i ht)\<lparr>items := h\<rparr>) k = ht\<lparr>items := h\<rparr>"
    and "htable_release_file XXH64 (lockb i ht) k = ht"
    by (simp_all add: htable_release_file_def i_def [symmetric])
qed

lemma update_stats_idle:
  "\<not> stats_guard ht \<Longrightarrow> update_stats f ht = Inr (ht\<lparr>stats := f (stats ht)\<rparr>)"
  by (cases ht) (simp add: update_stats_def htable_stats_lock_def htable_stats_unlock_def)

subsection \<open>Changing one file in place\<close>

definition set_file :: "nat \<Rightarrow> File \<Rightarrow> HTable \<Rightarrow> HTable" where
  "set_file a f ht =
     ht\<lparr>items := heap_store a ((the (cells (items ht) a))\<lparr>file := f\<rparr>) (items ht)\<rparr>"

lemma store_file_lockb:
  assumes "cells (items ht) a = Some it"
  shows "store_file a f (lockb i ht) =
    Inr ((lockb i ht)\<lparr>items := heap_store a (it\<lparr>file := f\<rparr>) (items ht)\<rparr>)"
  using assms by (simp add: store_file_def load_item_def store_item_def)

lemma lookup_upd [simp]:
  "htable_lookup XXH64 (ht\<lparr>stats := s\<rparr>) = htable_lookup XXH64 ht"
  "htable_lookup XXH64 (ht\<lparr>fifo := ff\<rparr>) = htable_lookup XXH64 ht"
  "htable_lookup XXH64 (ht\<lparr>stats_guard := g\<rparr>) = htable_lookup XXH64 ht"
  by (simp_all add: htable_lookup_def fun_eq_iff cong: sum.case_cong option.case_cong)

lemma rep_upd [simp]:
  "htable_rep XXH64 (ht\<lparr>stats := s\<rparr>) = htable_rep XXH64 ht"
  "htable_rep XXH64 (ht\<lparr>fifo := ff\<rparr>) = htable_rep XXH64 ht"
  "htable_rep XXH64 (ht\<lparr>stats_guard := g\<rparr>) = htable_rep XXH64 ht"
  by (simp_all add: htable_rep_def fun_eq_iff)

lemma bucket_rep_set_file:
  assumes "h a = Some it" and "key f = key (file it)"
  shows "bucket_rep (h(a \<mapsto> it\<lparr>file := f\<rparr>)) b as = bucket_rep h b as"
proof -
  have "(\<lambda>c. key (file (the ((h(a \<mapsto> it\<lparr>file := f\<rparr>)) c)))) = (\<lambda>c. key (file (the (h c))))"
    using assms by auto
  then show ?thesis using assms(1) by (simp add: bucket_rep_def dseg_upd_file)
qed

lemma rep_set_file:
  assumes rep: "htable_rep XXH64 ht ass" and a: "cells (items ht) a = Some it"
    and k: "key f = key (file it)"
  shows "htable_rep XXH64 (set_file a f ht) ass"
proof -
  have keys: "key (file (the (((cells (items ht))(a \<mapsto> it\<lparr>file := f\<rparr>)) c))) =
      key (file (the (cells (items ht) c)))" for c
    using a k by simp
  have dom: "dom ((cells (items ht))(a \<mapsto> it\<lparr>file := f\<rparr>)) = dom (cells (items ht))"
    using a by auto
  have "a \<in> dom (cells (items ht))" using a by auto
  with rep have "heap_ok (heap_store a (it\<lparr>file := f\<rparr>) (items ht))"
    by (intro heap_ok_store) (auto simp: htable_rep_def)
  with rep show ?thesis
    using a unfolding htable_rep_def set_file_def
    by (simp add: bucket_rep_set_file [of "cells (items ht)", OF a k] keys dom del: fun_upd_apply) auto
qed

lemma lookup_set_file:
  assumes rep: "htable_rep XXH64 ht ass" and a: "cells (items ht) a = Some it"
    and k: "key f = key (file it)"
  shows "htable_lookup XXH64 (set_file a f ht) = (htable_lookup XXH64 ht)(key f \<mapsto> f)"
proof
  fix k'
  note L = lookup_rep [OF rep] and L' = lookup_rep [OF rep_set_file [OF rep a k]]
  show "htable_lookup XXH64 (set_file a f ht) k' = ((htable_lookup XXH64 ht)(key f \<mapsto> f)) k'"
  proof (cases "k' = key f")
    case True
    have "htable_lookup XXH64 (set_file a f ht) (key f) = Some f"
      unfolding L' using a
      by (intro exI [of _ a] exI [of _ "it\<lparr>file := f\<rparr>"]) (simp add: set_file_def)
    with True show ?thesis by simp
  next
    case False
    have "htable_lookup XXH64 (set_file a f ht) k' = Some g \<longleftrightarrow> htable_lookup XXH64 ht k' = Some g" for g
      unfolding L L' using a k False by (auto simp: set_file_def) (metis option.inject)
    then show ?thesis using False by (intro option_eqI) simp
  qed
qed

lemma core_set_file:
  assumes core: "htable_core XXH64 ht" and a: "cells (items ht) a = Some it"
    and k: "key f = key (file it)" and ok: "file_ok f"
    and s: "items_count s = items_count (stats ht)"
      "total_space_in_bytes s =
         total_space_in_bytes (stats ht) + length_in_bytes f - length_in_bytes (file it)"
  shows "htable_core XXH64 ((set_file a f ht)\<lparr>stats := s\<rparr>)"
proof -
  let ?ht = "(set_file a f ht)\<lparr>stats := s\<rparr>"
  let ?D = "dom (cells (items ht))"
  from core obtain ass where rep: "htable_rep XXH64 ht ass" by (auto simp: htable_core_def)
  have cells: "cells (items ?ht) = (cells (items ht))(a \<mapsto> it\<lparr>file := f\<rparr>)"
    using a by (simp add: set_file_def)
  have dom: "dom (cells (items ?ht)) = ?D" unfolding cells using a by auto
  have live: "live_files ?ht c = (if c = a then f else live_files ht c)" for c
    unfolding live_files_def cells by simp
  have la: "live_files ht a = file it" using a by (simp add: live_files_def)
  have "finite ?D" using rep by (auto simp: htable_rep_def intro: heap_ok_finite)
  moreover have aD: "a \<in> ?D" using a by auto
  ultimately have sum: "(\<Sum>c \<in> ?D. length_in_bytes (live_files ?ht c)) =
      (\<Sum>c \<in> ?D. length_in_bytes (live_files ht c)) + length_in_bytes f - length_in_bytes (file it)"
    using la by (simp add: sum.remove [of ?D a] live)
  have "stats_rep ?ht"
    using core s sum unfolding stats_rep_def dom by (simp add: htable_core_def stats_rep_def)
  moreover have "\<exists>ass. htable_rep XXH64 ?ht ass"
    using rep_set_file [OF rep a k] by auto
  moreover have "htable_unlocked ?ht" "fifo_present ?ht"
    using core by (simp_all add: htable_core_def htable_unlocked_def fifo_present_def set_file_def)
  moreover have "\<forall>c \<in> dom (cells (items ?ht)). file_ok (live_files ?ht c)"
    unfolding dom using core ok by (auto simp: live htable_core_def)
  ultimately show ?thesis by (simp add: htable_core_def)
qed

subsection \<open>Replacing one bucket\<close>

lemma concat_update_facts:
  assumes "i < length xss" and "distinct (concat xss)" and "distinct ys"
    and "set ys \<inter> (set (concat xss) - set (xss ! i)) = {}"
  shows "distinct (concat (xss[i := ys]))"
    and "set (concat (xss[i := ys])) = (set (concat xss) - set (xss ! i)) \<union> set ys"
proof -
  let ?A = "concat (take i xss)" and ?B = "concat (drop (Suc i) xss)"
  have c: "concat xss = ?A @ xss ! i @ ?B" using assms(1) by (rule concat_nth_split)
  have d: "distinct (?A @ xss ! i @ ?B)" using assms(2) unfolding c .
  have rest: "set (concat xss) - set (xss ! i) = set ?A \<union> set ?B"
    using d unfolding c by auto
  have u: "concat (xss[i := ys]) = ?A @ ys @ ?B" using assms(1) by (rule concat_update)
  show "distinct (concat (xss[i := ys]))"
    using d assms(3,4) unfolding u rest by auto
  show "set (concat (xss[i := ys])) = (set (concat xss) - set (xss ! i)) \<union> set ys"
    unfolding u rest by auto
qed

lemma bucket_rep_frame:
  assumes "bucket_rep h b as" and "\<And>c. c \<in> set as \<Longrightarrow> h' c = h c"
  shows "bucket_rep h' b as"
proof -
  have "inj_on (\<lambda>a. key (file (the (h' a)))) (set as) = inj_on (\<lambda>a. key (file (the (h a)))) (set as)"
    using assms(2) by (intro inj_on_cong) simp
  moreover have "dseg h' None (head b) as None = dseg h None (head b) as None"
    using assms(2) by (rule dseg_frame)
  ultimately show ?thesis using assms(1) by (simp add: bucket_rep_def)
qed

lemma rep_bucket_update:
  assumes rep: "htable_rep XXH64 ht ass" and i: "i < length ass"
    and b: "bucket_rep (cells hp) b' as'"
    and frame: "\<And>c. c \<notin> set (ass ! i) \<Longrightarrow> c \<notin> set as' \<Longrightarrow> cells hp c = cells (items ht) c"
    and fresh: "set as' \<inter> (dom (cells (items ht)) - set (ass ! i)) = {}"
    and dom: "dom (cells hp) = (dom (cells (items ht)) - set (ass ! i)) \<union> set as'"
    and home: "\<And>c. c \<in> set as' \<Longrightarrow> htable_bucket_ptr XXH64 ht (key (file (the (cells hp c)))) = i"
    and ok: "heap_ok hp"
  shows "htable_rep XXH64 (ht\<lparr>items := hp, buckets := (buckets ht)[i := b']\<rparr>) (ass[i := as'])"
proof -
  have basic: "length ass = length (buckets ht)" "length ass < 2 ^ 64"
      "buckets_count ht = of_nat (length ass)" "distinct (concat ass)"
      "set (concat ass) = dom (cells (items ht))"
    using rep by (auto simp: htable_rep_def)
  have old: "bucket_rep (cells (items ht)) (buckets ht ! j) (ass ! j) \<and>
      (\<forall>a \<in> set (ass ! j). htable_bucket_ptr XXH64 ht (key (file (the (cells (items ht) a)))) = j)"
    if "j < length ass" for j
    using rep that by (simp add: htable_rep_def)
  have fr: "set as' \<inter> (set (concat ass) - set (ass ! i)) = {}" using fresh basic(5) by simp
  note cu = concat_update_facts [OF i basic(4) _ fr]
  have dist: "distinct as'" using b by (simp add: bucket_rep_def)
  have other: "bucket_rep (cells hp) (buckets ht ! j) (ass ! j) \<and>
      (\<forall>a \<in> set (ass ! j). htable_bucket_ptr XXH64 ht (key (file (the (cells hp a)))) = j)"
    if j: "j < length ass" "j \<noteq> i" for j
  proof -
    have disj: "set (ass ! j) \<inter> set (ass ! i) = {}"
      using distinct_concat_nth_disjoint [OF basic(4) j(1) i j(2)] .
    have "set (ass ! j) \<subseteq> set (concat ass)" using j(1) by (rule nth_subset_concat)
    with fr disj have "set (ass ! j) \<inter> set as' = {}" by blast
    with disj have same: "cells hp c = cells (items ht) c" if "c \<in> set (ass ! j)" for c
      using that by (intro frame) auto
    then show ?thesis using old [OF j(1)] by (auto intro: bucket_rep_frame)
  qed
  have "bucket_rep (cells hp) ((buckets ht)[i := b'] ! j) (ass[i := as'] ! j) \<and>
      (\<forall>a \<in> set (ass[i := as'] ! j). htable_bucket_ptr XXH64 ht (key (file (the (cells hp a)))) = j)"
    if "j < length ass" for j
    using other [OF that] b home that basic(1) by (cases "j = i") auto
  moreover have "buckets ht \<noteq> []" using i basic(1) by auto
  ultimately show ?thesis
    unfolding htable_rep_def using basic cu [OF dist] dom ok i by simp
qed

subsection \<open>The list surgery of the operations\<close>

lemma bucket_rep_unlink:
  assumes b: "bucket_rep h b (xs @ a # ys)" and a: "h a = Some it"
    and h': "h' = relink_prev (relink_next h (prev_item it) (next_item it)) (next_item it) (prev_item it)"
    and b': "b' = b\<lparr>head := (if prev_item it = None then next_item it else head b),
                   last_item := (if next_item it = None then prev_item it else last_item b)\<rparr>"
  shows "bucket_rep h' b' (xs @ ys)"
    and "\<And>c. c \<notin> set (xs @ ys) \<Longrightarrow> h' c = h c"
    and "\<And>c. map_option file (h' c) = map_option file (h c)"
proof -
  have seg: "dseg h None (head b) (xs @ a # ys) None" and dist: "distinct (xs @ a # ys)"
    and last: "last_item b = lastp None (xs @ a # ys)"
    and inj: "inj_on (\<lambda>a. key (file (the (h a)))) (set (xs @ a # ys))"
    using b by (auto simp: bucket_rep_def)
  note u = dseg_unlink [OF seg dist a]
  have pset: "set_option (prev_item it) \<subseteq> set xs"
    unfolding u(1) by (auto simp: lastp_def split: if_splits)
  have nset: "set_option (next_item it) \<subseteq> set ys"
    unfolding u(2) by (auto simp: firstp_def split: list.splits)
  have sub: "set (xs @ a # ys) \<subseteq> dom h" using seg by (rule dseg_dom)
  show files: "map_option file (h' c) = map_option file (h c)" for c
    unfolding h' using pset nset sub by (intro relink_files) auto
  show "h' c = h c" if "c \<notin> set (xs @ ys)" for c
    unfolding h' using pset nset that by (intro relink_frame) auto
  have pn: "prev_item it = None \<longleftrightarrow> xs = []" unfolding u(1) by (simp add: lastp_def)
  have nn: "next_item it = None \<longleftrightarrow> ys = []" unfolding u(2) by (simp add: firstp_def split: list.split)
  have keys: "key (file (the (h' c))) = key (file (the (h c)))" if "c \<in> dom h" for c
    using files [of c] that by (cases "h' c") auto
  have "inj_on (\<lambda>a. key (file (the (h' a)))) (set (xs @ ys))"
    using inj sub by (auto simp: keys inj_on_def subset_iff)
  moreover have "dseg h' None (head b') (xs @ ys) None"
    using u(3) by (simp add: h' b' pn)
  moreover have "last_item b' = lastp None (xs @ ys)"
    using last u(1) by (auto simp: b' nn lastp_def)
  ultimately show "bucket_rep h' b' (xs @ ys)" using dist by (simp add: bucket_rep_def)
qed

lemma unlink_item_eq:
  assumes b: "bucket_rep (cells (items ht)) (buckets ht ! i) (xs @ a # ys)"
    and a: "cells (items ht) a = Some it" and i: "i < length (buckets ht)"
  shows "unlink_item i a ht = Inr (ht\<lparr>
     items := (items ht)\<lparr>cells := relink_prev (relink_next (cells (items ht)) (prev_item it) (next_item it))
                                   (next_item it) (prev_item it)\<rparr>,
     buckets := (buckets ht)[i := (buckets ht ! i)
        \<lparr>head := (if prev_item it = None then next_item it else head (buckets ht ! i)),
         last_item := (if next_item it = None then prev_item it else last_item (buckets ht ! i))\<rparr>]\<rparr>)"
proof -
  let ?h = "cells (items ht)"
  have seg: "dseg ?h None (head (buckets ht ! i)) (xs @ a # ys) None" and dist: "distinct (xs @ a # ys)"
    using b by (auto simp: bucket_rep_def)
  note u = dseg_unlink(1,2) [OF seg dist a]
  have sub: "set (xs @ a # ys) \<subseteq> dom ?h" using seg by (rule dseg_dom)
  have p: "\<exists>pit. ?h p = Some pit" if "prev_item it = Some p" for p
  proof -
    have "p \<in> set xs" using that unfolding u(1) by (auto simp: lastp_def split: if_splits)
    with sub show ?thesis by auto
  qed
  have n: "n \<in> dom ?h \<and> n \<noteq> a" if "next_item it = Some n" for n
    using that sub dist unfolding u(2) by (auto simp: firstp_def split: list.splits)
  show ?thesis
    using p n a i
    by (cases "prev_item it"; cases "next_item it")
      (auto simp: unlink_item_def load_item_def store_item_def heap_load_def heap_store_def
         split: option.splits)
qed

subsection \<open>Removing and adding an item\<close>

definition files_at :: "HTable \<Rightarrow> nat \<rightharpoonup> File" where
  "files_at ht c = map_option file (cells (items ht) c)"

lemma dom_files_at [simp]: "dom (files_at ht) = dom (cells (items ht))"
  by (auto simp: files_at_def)

lemma lookup_files:
  assumes "htable_rep XXH64 ht ass"
  shows "htable_lookup XXH64 ht k = Some f \<longleftrightarrow> (\<exists>a. files_at ht a = Some f \<and> key f = k)"
  unfolding lookup_rep [OF assms] by (auto simp: files_at_def)

lemma rep_key_unique:
  assumes "htable_rep XXH64 ht ass" and "files_at ht a = Some f" and "files_at ht c = Some g"
    and "key f = key g"
  shows "a = c"
proof -
  obtain p where p: "\<And>a. p = Some a \<longleftrightarrow> (\<exists>it. cells (items ht) a = Some it \<and> key (file it) = key f)"
    using rep_find [OF assms(1), of "key f"] by blast
  have "p = Some a" unfolding p using assms(2) by (auto simp: files_at_def)
  moreover have "p = Some c" unfolding p using assms(3,4) by (auto simp: files_at_def)
  ultimately show ?thesis by simp
qed

lemma lookup_delete:
  assumes rep: "htable_rep XXH64 ht ass" and rep': "htable_rep XXH64 ht' ass'"
    and a: "files_at ht a = Some f" and del: "files_at ht' = (files_at ht)(a := None)"
  shows "htable_lookup XXH64 ht' = (htable_lookup XXH64 ht)(key f := None)"
proof
  fix k
  have uniq: "c = a" if "files_at ht c = Some g" "key g = key f" for c g
    using rep_key_unique [OF rep that(1) a that(2)] .
  show "htable_lookup XXH64 ht' k = ((htable_lookup XXH64 ht)(key f := None)) k"
  proof (rule option_eqI)
    fix g
    have "(\<exists>c. files_at ht' c = Some g \<and> key g = k) \<longleftrightarrow>
        k \<noteq> key f \<and> (\<exists>c. files_at ht c = Some g \<and> key g = k)"
      unfolding del using uniq a by (metis fun_upd_other fun_upd_same option.distinct(1) option.inject)
    then show "htable_lookup XXH64 ht' k = Some g \<longleftrightarrow> ((htable_lookup XXH64 ht)(key f := None)) k = Some g"
      by (simp add: lookup_files [OF rep] lookup_files [OF rep'])
  qed
qed

lemma lookup_insert:
  assumes rep: "htable_rep XXH64 ht ass" and rep': "htable_rep XXH64 ht' ass'"
    and new: "files_at ht a = None" and none: "htable_lookup XXH64 ht (key f) = None"
    and ins: "files_at ht' = (files_at ht)(a \<mapsto> f)"
  shows "htable_lookup XXH64 ht' = (htable_lookup XXH64 ht)(key f \<mapsto> f)"
proof
  fix k
  have absent: "key g \<noteq> key f" if "files_at ht c = Some g" for c g
    using none that lookup_files [OF rep, of "key f" g] by auto
  show "htable_lookup XXH64 ht' k = ((htable_lookup XXH64 ht)(key f \<mapsto> f)) k"
  proof (rule option_eqI)
    fix g
    have "(\<exists>c. files_at ht' c = Some g \<and> key g = k) \<longleftrightarrow>
        (if k = key f then g = f else \<exists>c. files_at ht c = Some g \<and> key g = k)"
      unfolding ins using absent new by (metis fun_upd_other fun_upd_same option.distinct(1) option.inject)
    then show "htable_lookup XXH64 ht' k = Some g \<longleftrightarrow> ((htable_lookup XXH64 ht)(key f \<mapsto> f)) k = Some g"
      by (auto simp: lookup_files [OF rep] lookup_files [OF rep'])
  qed
qed

lemma rep_lockb [simp]: "htable_rep XXH64 (lockb i ht) ass = htable_rep XXH64 ht ass"
proof -
  have "bucket_rep h (buckets (lockb i ht) ! j) as = bucket_rep h (buckets ht ! j) as" for h j as
    by (cases "i < length (buckets ht)"; cases "j = i")
      (simp_all add: lockb_def bucket_rep_def list_update_beyond)
  moreover have "length (buckets (lockb i ht)) = length (buckets ht)"
    "buckets_count (lockb i ht) = buckets_count ht"
    by (simp_all add: lockb_def)
  ultimately show ?thesis by (simp add: htable_rep_def)
qed

lemma rep_locate:
  assumes rep: "htable_rep XXH64 ht ass" and a: "cells (items ht) a = Some it"
  defines "i \<equiv> htable_bucket_ptr XXH64 ht (key (file it))"
  obtains xs ys where "ass ! i = xs @ a # ys" and "i < length ass"
proof -
  have "a \<in> set (concat ass)" using rep a unfolding htable_rep_def by blast
  from in_concat_nth [OF this] obtain j where j: "j < length ass" "a \<in> set (ass ! j)" by blast
  with rep have "htable_bucket_ptr XXH64 ht (key (file (the (cells (items ht) a)))) = j"
    by (simp add: htable_rep_def)
  then have "j = i" using a by (simp add: i_def)
  with j show thesis using that by (auto simp: in_set_conv_decomp)
qed

lemma htable_upd_commute: "ht\<lparr>buckets := b, items := h\<rparr> = ht\<lparr>items := h, buckets := b\<rparr>"
  by (cases ht) simp

lemma unlink_free_rep:
  assumes rep: "htable_rep XXH64 ht ass" and a: "cells (items ht) a = Some it"
  defines "i \<equiv> htable_bucket_ptr XXH64 ht (key (file it))"
  obtains hp b' ass' where
    "unlink_item i a ht = Inr (ht\<lparr>items := hp, buckets := (buckets ht)[i := b']\<rparr>)"
    and "guard b' = guard (buckets ht ! i)" and "cells hp a = Some it"
    and "htable_rep XXH64 (free_item a (ht\<lparr>items := hp, buckets := (buckets ht)[i := b']\<rparr>)) ass'"
    and "\<And>c. map_option file (cells hp c) = files_at ht c"
proof -
  let ?h = "cells (items ht)"
  obtain xs ys where spl: "ass ! i = xs @ a # ys" and i: "i < length ass"
    unfolding i_def using rep_locate [OF rep a] by blast
  have b: "bucket_rep ?h (buckets ht ! i) (xs @ a # ys)"
    using rep i spl by (auto simp: htable_rep_def)
  have il: "i < length (buckets ht)" using rep i by (simp add: htable_rep_def)
  define h' where "h' = relink_prev (relink_next ?h (prev_item it) (next_item it)) (next_item it) (prev_item it)"
  define b' where "b' = (buckets ht ! i)\<lparr>head := (if prev_item it = None then next_item it else head (buckets ht ! i)),
         last_item := (if next_item it = None then prev_item it else last_item (buckets ht ! i))\<rparr>"
  define hp where "hp = (items ht)\<lparr>cells := h'\<rparr>"
  note u = bucket_rep_unlink [OF b a h'_def b'_def]
  have dist: "distinct (xs @ a # ys)" using b by (simp add: bucket_rep_def)
  have domeq: "dom h' = dom ?h"
    using u(3) by (auto simp: dom_def set_eq_iff) (metis map_option_eq_Some not_None_eq)+
  have sub: "set (xs @ a # ys) \<subseteq> dom ?h"
    using b unfolding bucket_rep_def by (blast dest: dseg_dom)
  have home: "htable_bucket_ptr XXH64 ht (key (file (the (h' c)))) = i" if "c \<in> set (xs @ ys)" for c
  proof -
    have "c \<in> dom ?h" using that sub by auto
    then have "key (file (the (h' c))) = key (file (the (?h c)))"
      using u(3) [of c] by (cases "h' c") auto
    moreover have "c \<in> set (ass ! i)" using that spl by auto
    ultimately show ?thesis using rep i by (simp add: htable_rep_def)
  qed
  have "bucket_rep (h'(a := None)) b' (xs @ ys)"
    using u(1) dist by (intro bucket_rep_frame [OF u(1)]) auto
  moreover have "heap_ok (heap_free a hp)"
    using rep domeq by (simp add: heap_ok_def hp_def htable_rep_def) blast
  ultimately have "htable_rep XXH64 (ht\<lparr>items := heap_free a hp, buckets := (buckets ht)[i := b']\<rparr>) (ass[i := xs @ ys])"
    using u(2) home dist sub
    by (intro rep_bucket_update [OF rep i]) (auto simp: hp_def spl domeq)
  then have r: "htable_rep XXH64 (free_item a (ht\<lparr>items := hp, buckets := (buckets ht)[i := b']\<rparr>)) (ass[i := xs @ ys])"
    by (simp add: free_item_def htable_upd_commute)
  show thesis
  proof (rule that [OF _ _ _ r])
    show "unlink_item i a ht = Inr (ht\<lparr>items := hp, buckets := (buckets ht)[i := b']\<rparr>)"
      using unlink_item_eq [OF b a il] by (simp add: hp_def h'_def b'_def)
    show "guard b' = guard (buckets ht ! i)" by (simp add: b'_def)
    show "cells hp a = Some it" using u(2) [of a] a dist by (simp add: hp_def)
    show "map_option file (cells hp c) = files_at ht c" for c
      using u(3) by (simp add: hp_def files_at_def)
  qed
qed

lemma bucket_upd_commute: "b\<lparr>last_item := x, head := y\<rparr> = b\<lparr>head := y, last_item := x\<rparr>"
  by (cases b) simp

text \<open>Taking the last item of a bucket is unlinking it.\<close>

lemma take_last_eq:
  assumes b: "bucket_rep (cells (items ht)) (buckets ht ! i) (xs @ [a])"
    and a: "cells (items ht) a = Some it" and i: "i < length (buckets ht)"
  shows "take_last i a ht =
    bind_result (unlink_item i a ht) (\<lambda>ht'.
      Inr (store_item a (it\<lparr>next_item := None, prev_item := None\<rparr>) ht'))"
proof -
  let ?h = "cells (items ht)"
  have seg: "dseg ?h None (head (buckets ht ! i)) (xs @ a # []) None" and dist: "distinct (xs @ a # [])"
    using b by (auto simp: bucket_rep_def)
  note u = dseg_unlink(1,2) [OF seg dist a]
  have nn: "next_item it = None" using u(2) by simp
  have p: "p \<noteq> a \<and> (\<exists>pit. ?h p = Some pit)" if "prev_item it = Some p" for p
  proof -
    have "p \<in> set xs" using that unfolding u(1) by (auto simp: lastp_def split: if_splits)
    with dist dseg_dom [OF seg] show ?thesis by auto
  qed
  show ?thesis
    using p a i nn
    by (cases "prev_item it")
      (auto simp: take_last_def unlink_item_def load_item_def store_item_def heap_load_def heap_store_def
         Let_def htable_upd_commute bucket_upd_commute split: option.splits)
qed

lemma free_store_item [simp]: "free_item a (store_item a it ht) = free_item a ht"
  by (simp add: free_item_def store_item_def heap_free_def heap_store_def)

text \<open>Pushing a new item in front of a bucket.\<close>

definition push_cells :: "(nat \<rightharpoonup> HTableItem) \<Rightarrow> nat \<Rightarrow> File \<Rightarrow> ptr \<Rightarrow> (nat \<rightharpoonup> HTableItem)" where
  "push_cells h a f old =
     relink_prev (h(a \<mapsto> \<lparr>file = f, next_item = old, prev_item = None\<rparr>)) old (Some a)"

definition push_bucket :: "HTableBucket \<Rightarrow> nat \<Rightarrow> HTableBucket" where
  "push_bucket b a =
     b\<lparr>last_item := (if last_item b = None then Some a else last_item b), head := Some a\<rparr>"

lemma push_cells_facts:
  assumes b: "bucket_rep h b as" and a: "h a = None" and k: "\<forall>c \<in> set as. key (file (the (h c))) \<noteq> key f"
  shows "bucket_rep (push_cells h a f (head b)) (push_bucket b a) (a # as)"
    and "\<And>c. c \<notin> set as \<Longrightarrow> c \<noteq> a \<Longrightarrow> push_cells h a f (head b) c = h c"
    and "\<And>c. map_option file (push_cells h a f (head b) c) = ((\<lambda>c. map_option file (h c))(a \<mapsto> f)) c"
proof -
  have seg: "dseg h None (head b) as None" and dist: "distinct as"
    and inj: "inj_on (\<lambda>a. key (file (the (h a)))) (set as)" and last: "last_item b = lastp None as"
    using b by (auto simp: bucket_rep_def)
  have sub: "set as \<subseteq> dom h" using seg by (rule dseg_dom)
  have anew: "a \<notin> set as" using sub a by auto
  have hd: "set_option (head b) \<subseteq> set as"
    using dseg_first [OF seg] by (auto simp: firstp_def split: list.splits)
  show "push_cells h a f (head b) c = h c" if "c \<notin> set as" "c \<noteq> a" for c
    using that hd by (auto simp: push_cells_def relink_prev_def split: option.splits)
  show files: "map_option file (push_cells h a f (head b) c) = ((\<lambda>c. map_option file (h c))(a \<mapsto> f)) c" for c
    using hd sub anew by (auto simp: push_cells_def relink_prev_def split: option.splits)
  have keys: "key (file (the (push_cells h a f (head b) c))) = key (file (the (h c)))" if "c \<in> set as" for c
  proof -
    have "c \<in> dom h" "c \<noteq> a" using that sub anew by auto
    then show ?thesis using files [of c] by (cases "push_cells h a f (head b) c") auto
  qed
  have keya: "key (file (the (push_cells h a f (head b) a))) = key f"
    using files [of a] by (cases "push_cells h a f (head b) a") auto
  have "inj_on (\<lambda>c. key (file (the (push_cells h a f (head b) c)))) (set as) =
      inj_on (\<lambda>c. key (file (the (h c)))) (set as)"
    using keys by (intro inj_on_cong) simp
  then have "inj_on (\<lambda>c. key (file (the (push_cells h a f (head b) c)))) (set (a # as))"
    using inj k keya keys by (auto simp: image_iff)
  moreover have "dseg (push_cells h a f (head b)) None (Some a) (a # as) None"
    using dseg_cons [OF seg anew dist, of f] by (cases "head b") (auto simp: push_cells_def)
  ultimately show "bucket_rep (push_cells h a f (head b)) (push_bucket b a) (a # as)"
    using dist anew last by (auto simp: bucket_rep_def push_bucket_def lastp_def)
qed

lemma insert_item_eq:
  assumes b: "bucket_rep (cells (items ht)) (buckets ht ! i) as"
    and ok: "heap_ok (items ht)" and i: "i < length (buckets ht)" and g: "\<not> guard (buckets ht ! i)"
  shows "insert_item i f ht = Inr (ht\<lparr>
     items := (items ht)\<lparr>cells := push_cells (cells (items ht)) (brk (items ht)) f (head (buckets ht ! i)),
                        brk := Suc (brk (items ht))\<rparr>,
     buckets := (buckets ht)[i := push_bucket (buckets ht ! i) (brk (items ht))]\<rparr>)"
proof -
  let ?h = "cells (items ht)" and ?a = "brk (items ht)"
  define ht1 where "ht1 = ht\<lparr>items := (items ht)\<lparr>cells := ?h(?a \<mapsto> \<lparr>file = f,
      next_item = head (buckets ht ! i), prev_item = None\<rparr>), brk := Suc ?a\<rparr>\<rparr>"
  have seg: "dseg ?h None (head (buckets ht ! i)) as None" using b by (simp add: bucket_rep_def)
  have fresh: "?h ?a = None" using ok by (rule heap_ok_fresh)
  have lk: "lock_bucket i ht1 = Inr (lockb i ht1)"
    using i g by (simp add: lock_bucket_def lockb_def ht1_def)
  note simps = guard_release insert_item_def heap_alloc_def Let_def push_cells_def push_bucket_def lockb_def
    unlock_bucket_def htable_upd_commute load_item_def store_item_def heap_load_def heap_store_def
  show ?thesis
  proof (cases "head (buckets ht ! i)")
    case None
    then show ?thesis using i g lk by (simp add: simps ht1_def)
  next
    case (Some c)
    then have "c \<in> dom ?h" using dseg_first [OF seg] dseg_dom [OF seg] by (cases as) auto
    then obtain cit where "?h c = Some cit" "c \<noteq> ?a" using fresh by (cases "c = ?a") auto
    with Some show ?thesis using i g lk by (simp add: simps ht1_def)
  qed
qed

lemma insert_item_rep:
  assumes rep: "htable_rep XXH64 ht ass" and free: "htable_unlocked ht"
    and none: "htable_lookup XXH64 ht (key f) = None"
  defines "i \<equiv> htable_bucket_ptr XXH64 ht (key f)"
  obtains hp b' ass' where
    "insert_item i f ht = Inr (ht\<lparr>items := hp, buckets := (buckets ht)[i := b']\<rparr>)"
    and "\<not> guard b'"
    and "htable_rep XXH64 (ht\<lparr>items := hp, buckets := (buckets ht)[i := b']\<rparr>) ass'"
    and "\<And>c. map_option file (cells hp c) = ((files_at ht)(brk (items ht) \<mapsto> f)) c"
proof -
  let ?h = "cells (items ht)" and ?a = "brk (items ht)" and ?b = "buckets ht ! i"
  have i: "i < length ass" unfolding i_def using rep by (rule bucket_ptr_lt)
  then have il: "i < length (buckets ht)" using rep by (simp add: htable_rep_def)
  then have g: "\<not> guard ?b" using free by (simp add: htable_unlocked_def)
  have ok: "heap_ok (items ht)" using rep by (simp add: htable_rep_def)
  then have fresh: "?h ?a = None" by (rule heap_ok_fresh)
  have b: "bucket_rep ?h ?b (ass ! i)" using rep i by (auto simp: htable_rep_def)
  have sub: "set (ass ! i) \<subseteq> dom ?h" using b unfolding bucket_rep_def by (blast dest: dseg_dom)
  have k: "key (file (the (?h c))) \<noteq> key f" if "c \<in> set (ass ! i)" for c
    using none that sub lookup_rep [OF rep, of "key f"] by auto
  define h' where "h' = push_cells ?h ?a f (head ?b)"
  define hp where "hp = (items ht)\<lparr>cells := h', brk := Suc ?a\<rparr>"
  note pc = push_cells_facts [OF b fresh, of f, folded h'_def]
  have files: "map_option file (h' c) = ((files_at ht)(?a \<mapsto> f)) c" for c
    using pc(3) k by (simp add: files_at_def fun_upd_def)
  have "dom h' = dom (\<lambda>c. map_option file (h' c))" by (auto simp: dom_def)
  also have "(\<lambda>c. map_option file (h' c)) = (files_at ht)(?a \<mapsto> f)" using files by (rule ext)
  finally have dom: "dom h' = insert ?a (dom ?h)" by (simp only: dom_fun_upd) simp
  have home: "htable_bucket_ptr XXH64 ht (key (file (the (h' c)))) = i" if "c \<in> set (?a # ass ! i)" for c
  proof (cases "c = ?a")
    case True
    then show ?thesis using files [of ?a] by (cases "h' ?a") (auto simp: i_def)
  next
    case False
    with that sub have c: "c \<in> set (ass ! i)" "c \<in> dom ?h" by auto
    then have "key (file (the (h' c))) = key (file (the (?h c)))"
      using files [of c] False by (cases "h' c") (auto simp: files_at_def)
    with c rep i show ?thesis by (simp add: htable_rep_def)
  qed
  have "heap_ok hp" using ok dom by (auto simp: heap_ok_def hp_def)
  then have rep': "htable_rep XXH64 (ht\<lparr>items := hp, buckets := (buckets ht)[i := push_bucket ?b ?a]\<rparr>)
      (ass[i := ?a # ass ! i])"
    using pc k home fresh sub dom
    by (intro rep_bucket_update [OF rep i]) (auto simp: hp_def)
  show thesis
    by (rule that [OF _ _ rep'])
      (use insert_item_eq [OF b ok il g, of f] g files in \<open>simp_all add: hp_def h'_def push_bucket_def\<close>)
qed

end
