(* ===== verification/Storage_Spec.thy ===== *)
theory Storage_Spec
  imports HTable
begin

text \<open>
  What the file store promises: the operations of \<open>htable.h\<close> as functions on a finite map
  from paths to files, with no buckets, pointers, mutexes or statistics. A concrete
  operation refines an abstract one when it returns the same code, keeps the
  invariant of its state and changes the map it represents in the same way, and when
  it reaches the same fault where the abstract operation does.
\<close>

type_synonym store = "cstring \<rightharpoonup> File"

subsection \<open>The abstract operations\<close>

definition spec_lock :: "cstring \<Rightarrow> int \<Rightarrow> store \<Rightarrow> (HTableError \<times> store) result" where
  "spec_lock k fd m =
     (case m k of
        None \<Rightarrow> Inr (HTABLE_ERR_FILE_NOT_FOUND, m)
      | Some f \<Rightarrow>
          if is_locked f then Inr (HTABLE_ERR_OK_WAIT, m(k \<mapsto> f\<lparr>subs := fd # subs f\<rparr>))
          else if subs f \<noteq> [] then Inl Assert_Fail
          else Inr (HTABLE_ERR_OK, m(k \<mapsto> f\<lparr>is_locked := True, fd_owner := fd\<rparr>)))"

definition spec_unlock :: "cstring \<Rightarrow> int \<Rightarrow> store \<Rightarrow> ((HTableError \<times> int) \<times> store) result" where
  "spec_unlock k fd m =
     (case m k of
        None \<Rightarrow> Inr ((HTABLE_ERR_FILE_NOT_FOUND, -1), m)
      | Some f \<Rightarrow>
          if \<not> is_locked f then Inr ((HTABLE_ERR_ALREADY_UNLOCKED, -1), m)
          else if fd_owner f \<noteq> fd then Inr ((HTABLE_ERR_OK_WAIT, -1), m)
          else (case subs f of
                  [] \<Rightarrow> Inr ((HTABLE_ERR_OK, -1), m(k \<mapsto> f\<lparr>is_locked := False\<rparr>))
                | sub # rest \<Rightarrow> Inr ((HTABLE_ERR_OK, sub), m(k \<mapsto> f\<lparr>subs := rest, fd_owner := sub\<rparr>))))"

definition spec_open :: "cstring \<Rightarrow> int \<Rightarrow> bool \<Rightarrow> store \<Rightarrow> (HTableError \<times> store) result" where
  "spec_open k fd lock m =
     (case m k of
        None \<Rightarrow> Inr (HTABLE_ERR_FILE_NOT_FOUND, m)
      | Some f \<Rightarrow>
          if is_open f then Inr (HTABLE_ERR_ALREADY_OPEN, m)
          else if is_locked f \<and> fd_owner f \<noteq> fd then Inr (HTABLE_ERR_CANT_OPEN, m)
          else Inr (HTABLE_ERR_OK, m(k \<mapsto> f\<lparr>is_open := True, is_locked := lock, fd_owner := fd\<rparr>)))"

definition spec_create :: "cstring \<Rightarrow> int \<Rightarrow> bool \<Rightarrow> store \<Rightarrow> (HTableError \<times> store) result" where
  "spec_create k fd lock m =
     (case m k of
        Some _ \<Rightarrow> Inr (HTABLE_ERR_ALREADY_CREATED, m)
      | None \<Rightarrow> Inr (HTABLE_ERR_OK, m(k \<mapsto> new_file k fd lock)))"

definition spec_close :: "cstring \<Rightarrow> int \<Rightarrow> store \<Rightarrow> (HTableError \<times> store) result" where
  "spec_close k fd m =
     (case m k of
        None \<Rightarrow> Inr (HTABLE_ERR_FILE_NOT_FOUND, m)
      | Some f \<Rightarrow>
          if \<not> is_open f then Inr (HTABLE_ERR_ALREADY_CLOSED, m)
          else if is_locked f \<and> fd_owner f \<noteq> fd then Inr (HTABLE_ERR_CANT_CLOSE, m)
          else Inr (HTABLE_ERR_OK, m(k \<mapsto> f\<lparr>is_open := False\<rparr>)))"

definition spec_remove :: "cstring \<Rightarrow> int \<Rightarrow> store \<Rightarrow> (HTableError \<times> store) result" where
  "spec_remove k fd m =
     (case m k of
        None \<Rightarrow> Inr (HTABLE_ERR_FILE_NOT_FOUND, m)
      | Some f \<Rightarrow>
          if is_locked f \<and> fd_owner f \<noteq> fd \<and> fd \<noteq> -1 then Inr (HTABLE_ERR_OK, m)
          else Inr (HTABLE_ERR_OK, m(k := None)))"

text \<open>The requests of a client on metadata, and their execution on the abstract store.\<close>

datatype meta_op =
    Lock cstring int
  | Unlock cstring int
  | Open cstring int bool
  | Create cstring int bool
  | Close cstring int
  | Remove cstring int

datatype reply = Reply HTableError int

fun op_fd :: "meta_op \<Rightarrow> int" where
  "op_fd (Lock k fd) = fd"
| "op_fd (Unlock k fd) = fd"
| "op_fd (Open k fd l) = fd"
| "op_fd (Create k fd l) = fd"
| "op_fd (Close k fd) = fd"
| "op_fd (Remove k fd) = fd"

definition as_reply :: "(HTableError \<times> 's) result \<Rightarrow> (reply \<times> 's) result" where
  "as_reply m = bind_result m (\<lambda>(e, s). Inr (Reply e (-1), s))"

fun spec_exec :: "meta_op \<Rightarrow> store \<Rightarrow> (reply \<times> store) result" where
  "spec_exec (Lock k fd) m = as_reply (spec_lock k fd m)"
| "spec_exec (Unlock k fd) m =
     bind_result (spec_unlock k fd m) (\<lambda>((e, new_fd), m). Inr (Reply e new_fd, m))"
| "spec_exec (Open k fd l) m = as_reply (spec_open k fd l m)"
| "spec_exec (Create k fd l) m = as_reply (spec_create k fd l m)"
| "spec_exec (Close k fd) m = as_reply (spec_close k fd m)"
| "spec_exec (Remove k fd) m = as_reply (spec_remove k fd m)"

fun run :: "('op \<Rightarrow> 's \<Rightarrow> ('r \<times> 's) result) \<Rightarrow> 'op list \<Rightarrow> 's \<Rightarrow> ('r list \<times> 's) result" where
  "run exec [] s = Inr ([], s)"
| "run exec (x # xs) s =
     bind_result (exec x s) (\<lambda>(r, s).
     bind_result (run exec xs s) (\<lambda>(rs, s). Inr (r # rs, s)))"

subsection \<open>Refinement\<close>

definition refines :: "('s \<Rightarrow> bool) \<Rightarrow> ('s \<Rightarrow> 'm) \<Rightarrow> ('r \<times> 's) result \<Rightarrow> ('r \<times> 'm) result \<Rightarrow> bool" where
  "refines good view c a \<longleftrightarrow>
     (case a of
        Inl e \<Rightarrow> c = Inl e
      | Inr (r, m) \<Rightarrow> (\<exists>s. c = Inr (r, s) \<and> good s \<and> view s = m))"

lemma refinesI:
  "c = Inr (r, s) \<Longrightarrow> good s \<Longrightarrow> a = Inr (r, view s) \<Longrightarrow> refines good view c a"
  by (simp add: refines_def)

lemma refines_Inl: "refines good view (Inl e) (Inl e)"
  by (simp add: refines_def)

lemma refines_bind:
  assumes "refines good view c a"
    and "\<And>r s. c = Inr (r, s) \<Longrightarrow> a = Inr (r, view s) \<Longrightarrow> good s \<Longrightarrow> refines good view (f (r, s)) (g (r, view s))"
  shows "refines good view (bind_result c f) (bind_result a g)"
  using assms by (auto simp: refines_def split: sum.splits)

text \<open>
  The interface: any implementation whose single operations refine the abstract ones, on the
  requests that are well-formed, refines them on every sequence of such requests, reply by
  reply.
\<close>

locale simulation =
  fixes wf :: "'op \<Rightarrow> bool"
    and good :: "'s \<Rightarrow> bool"
    and view :: "'s \<Rightarrow> 'm"
    and step :: "'op \<Rightarrow> 's \<Rightarrow> ('r \<times> 's) result"
    and spec :: "'op \<Rightarrow> 'm \<Rightarrow> ('r \<times> 'm) result"
  assumes step_refines: "good s \<Longrightarrow> wf x \<Longrightarrow> refines good view (step x s) (spec x (view s))"
begin

lemma run_refines: "good s \<Longrightarrow> list_all wf xs \<Longrightarrow> refines good view (run step xs s) (run spec xs (view s))"
proof (induction xs arbitrary: s)
  case Nil
  then show ?case by (simp add: refines_def)
next
  case (Cons x xs)
  then have x: "wf x" and xs: "list_all wf xs" by simp_all
  show ?case
    unfolding run.simps
  proof (rule refines_bind [OF step_refines [OF Cons.prems(1) x]], unfold prod.case)
    fix r s' assume "good s'"
    then show "refines good view
        (bind_result (run step xs s') (\<lambda>(rs, s). Inr (r # rs, s)))
        (bind_result (run spec xs (view s')) (\<lambda>(rs, s). Inr (r # rs, s)))"
      by (intro refines_bind [OF Cons.IH [OF _ xs]]) (auto simp: refines_def)
  qed
qed

lemma run_returns:
  assumes "good s" and "list_all wf xs" and "run spec xs (view s) = Inr (rs, m)"
  shows "\<exists>s'. run step xs s = Inr (rs, s') \<and> good s' \<and> view s' = m"
  using run_refines [OF assms(1,2)] assms(3) by (simp add: refines_def)

end

end
