(* ===== verification/HTable_Refine.thy ===== *)
theory HTable_Refine
  imports HTable_Inv Storage_Spec
begin

text \<open>
  The hash table implements the abstract store: every operation on metadata, run on a
  table that satisfies \<open>htable_inv\<close>, keeps the invariant, releases every mutex it took
  and refines its counterpart of \<open>Storage_Spec\<close> under the abstraction \<open>htable_lookup\<close>.
\<close>

abbreviation hrefines ::
    "hash_fn \<Rightarrow> ('r \<times> HTable) result \<Rightarrow> ('r \<times> store) result \<Rightarrow> bool" where
  "hrefines XXH64 \<equiv> refines (htable_inv XXH64) (htable_lookup XXH64)"

fun htable_exec :: "hash_fn \<Rightarrow> meta_op \<Rightarrow> HTable \<Rightarrow> (reply \<times> HTable) result" where
  "htable_exec XXH64 (Lock k fd) ht = as_reply (htable_lock_file XXH64 ht k fd)"
| "htable_exec XXH64 (Unlock k fd) ht =
     bind_result (htable_unlock_file XXH64 ht k fd) (\<lambda>(e, new_fd, ht). Inr (Reply e new_fd, ht))"
| "htable_exec XXH64 (Open k fd l) ht = as_reply (htable_open_or_create_file XXH64 ht k fd False l)"
| "htable_exec XXH64 (Create k fd l) ht = as_reply (htable_open_or_create_file XXH64 ht k fd True l)"
| "htable_exec XXH64 (Close k fd) ht = as_reply (htable_close_file XXH64 ht k fd)"
| "htable_exec XXH64 (Remove k fd) ht = as_reply (htable_remove_file XXH64 ht k fd)"

subsection \<open>Operations that change one file in place\<close>

lemma inv_core: "htable_inv XXH64 ht \<Longrightarrow> htable_core XXH64 ht"
  by (simp add: htable_inv_def)

lemma core_rep: "htable_core XXH64 ht \<Longrightarrow> \<exists>ass. htable_rep XXH64 ht ass"
  by (simp add: htable_core_def)

lemma core_unlocked: "htable_core XXH64 ht \<Longrightarrow> htable_unlocked ht"
  by (simp add: htable_core_def)

lemma core_file_ok: "htable_core XXH64 ht \<Longrightarrow> cells (items ht) a = Some it \<Longrightarrow> file_ok (file it)"
  by (auto simp: htable_core_def live_files_def dom_def)

lemma core_fetch_cases:
  assumes "htable_core XXH64 ht"
  obtains
    (missing) "htable_lookup XXH64 ht k = None" "htable_fetch_item XXH64 ht k = Inr (None, ht)"
  | (found) a it where "cells (items ht) a = Some it" "key (file it) = k"
      "htable_lookup XXH64 ht k = Some (file it)"
      "htable_fetch_item XXH64 ht k = Inr (Some a, lockb (htable_bucket_ptr XXH64 ht k) ht)"
  using core_rep [OF assms] core_unlocked [OF assms] fetch_item_cases by metis

lemma core_release:
  assumes "htable_core XXH64 ht"
  shows "htable_release_file XXH64 ((lockb (htable_bucket_ptr XXH64 ht k) ht)\<lparr>items := h\<rparr>) k = ht\<lparr>items := h\<rparr>"
    and "htable_release_file XXH64 (lockb (htable_bucket_ptr XXH64 ht k) ht) k = ht"
  using core_rep [OF assms] core_unlocked [OF assms] release_lockb by blast+

lemma set_file_eq:
  "cells (items ht) a = Some it \<Longrightarrow>
     set_file a f ht = ht\<lparr>items := heap_store a (it\<lparr>file := f\<rparr>) (items ht)\<rparr>"
  by (simp add: set_file_def)

lemma set_file_stats: "(set_file a f ht)\<lparr>stats := stats ht\<rparr> = set_file a f ht"
  by (cases ht) (simp add: set_file_def)

lemma set_file_meta:
  assumes inv: "htable_inv XXH64 ht" and a: "cells (items ht) a = Some it"
    and same: "key f = key (file it)" "contents f = contents (file it)"
      "length_in_bytes f = length_in_bytes (file it)"
    and s: "items_count s = items_count (stats ht)"
      "total_space_in_bytes s = total_space_in_bytes (stats ht)"
  shows "htable_inv XXH64 ((set_file a f ht)\<lparr>stats := s\<rparr>)"
    and "htable_lookup XXH64 (set_file a f ht) = (htable_lookup XXH64 ht)(key (file it) \<mapsto> f)"
proof -
  note core = inv_core [OF inv]
  have "file_ok f" using core_file_ok [OF core a] same by (simp add: file_ok_def)
  then have "htable_core XXH64 ((set_file a f ht)\<lparr>stats := s\<rparr>)"
    using same s by (intro core_set_file [OF core a]) simp_all
  then show "htable_inv XXH64 ((set_file a f ht)\<lparr>stats := s\<rparr>)"
    using inv by (simp add: htable_inv_def set_file_def)
  show "htable_lookup XXH64 (set_file a f ht) = (htable_lookup XXH64 ht)(key (file it) \<mapsto> f)"
    using core_rep [OF core] lookup_set_file a same(1) by metis
qed

lemmas set_file_meta_same = set_file_meta [where s = "stats ht" and ht = ht for ht, unfolded set_file_stats]

text \<open>The facts that evaluate an operation once its item has been fetched.\<close>

lemmas fetched = htable_fetch_file_def load_item_def store_file_lockb core_release [OF inv_core]
  set_file_eq [symmetric] update_stats_idle Let_def

lemma lock_refines:
  assumes inv: "htable_inv XXH64 ht"
  shows "hrefines XXH64 (htable_lock_file XXH64 ht k fd) (spec_lock k fd (htable_lookup XXH64 ht))"
proof (cases rule: core_fetch_cases [OF inv_core [OF inv], of k, case_names missing found])
  case missing
  with inv show ?thesis by (simp add: htable_lock_file_def spec_lock_def refines_def htable_fetch_file_def)
next
  case (found a it)
  show ?thesis
  proof (cases "is_locked (file it)")
    case True
    let ?f = "(file it)\<lparr>subs := fd # subs (file it)\<rparr>"
    have "htable_lock_file XXH64 ht k fd = Inr (HTABLE_ERR_OK_WAIT, set_file a ?f ht)"
      using found True inv by (simp add: htable_lock_file_def fetched)
    with found True set_file_meta_same [OF inv found(1), of ?f] show ?thesis
      by (simp add: spec_lock_def refines_def)
  next
    case False
    let ?f = "(file it)\<lparr>is_locked := True, fd_owner := fd\<rparr>"
    have "htable_lock_file XXH64 ht k fd =
        (if subs (file it) = [] then Inr (HTABLE_ERR_OK, set_file a ?f ht) else Inl Assert_Fail)"
      using found False inv by (simp add: htable_lock_file_def fetched c_assert_def)
    with found False set_file_meta_same [OF inv found(1), of ?f] show ?thesis
      by (simp add: spec_lock_def refines_def)
  qed
qed

lemma unlock_refines:
  assumes inv: "htable_inv XXH64 ht"
  shows "hrefines XXH64
    (bind_result (htable_unlock_file XXH64 ht k fd) (\<lambda>(e, new_fd, ht). Inr ((e, new_fd), ht)))
    (spec_unlock k fd (htable_lookup XXH64 ht))"
proof (cases rule: core_fetch_cases [OF inv_core [OF inv], of k, case_names missing found])
  case missing
  with inv show ?thesis
    by (simp add: htable_unlock_file_def spec_unlock_def refines_def htable_fetch_file_def)
next
  case (found a it)
  consider (idle) "\<not> is_locked (file it)" | (other) "is_locked (file it)" "fd_owner (file it) \<noteq> fd"
    | (free) "is_locked (file it)" "fd_owner (file it) = fd" "subs (file it) = []"
    | (pass) sub rest where "is_locked (file it)" "fd_owner (file it) = fd" "subs (file it) = sub # rest"
    by (cases "subs (file it)") blast+
  then show ?thesis
  proof cases
    case idle
    with found inv show ?thesis
      by (simp add: htable_unlock_file_def spec_unlock_def refines_def fetched)
  next
    case other
    with found inv show ?thesis
      by (simp add: htable_unlock_file_def spec_unlock_def refines_def fetched)
  next
    case free
    let ?f = "(file it)\<lparr>is_locked := False\<rparr>"
    have "htable_unlock_file XXH64 ht k fd = Inr (HTABLE_ERR_OK, -1, set_file a ?f ht)"
      using found free inv by (simp add: htable_unlock_file_def fetched)
    with found free set_file_meta_same [OF inv found(1), of ?f] show ?thesis
      by (simp add: spec_unlock_def refines_def)
  next
    case pass
    let ?f = "(file it)\<lparr>subs := rest, is_locked := True, fd_owner := sub\<rparr>"
    have same: "?f = (file it)\<lparr>subs := rest, fd_owner := sub\<rparr>"
      using pass(1) by (cases "file it") simp
    have "htable_unlock_file XXH64 ht k fd = Inr (HTABLE_ERR_OK, sub, set_file a ?f ht)"
      using found pass inv by (simp add: htable_unlock_file_def fetched)
    with found pass set_file_meta_same [OF inv found(1), of ?f] show ?thesis
      by (simp add: spec_unlock_def refines_def same)
  qed
qed

lemma inv_stats_idle: "htable_inv XXH64 ht \<Longrightarrow> \<not> stats_guard ht"
  by (simp add: htable_inv_def)

lemma set_file_sel [simp]:
  "stats_guard (set_file a f ht) = stats_guard ht" "stats (set_file a f ht) = stats ht"
  by (simp_all add: set_file_def)

lemma open_refines:
  assumes inv: "htable_inv XXH64 ht"
  shows "hrefines XXH64 (htable_open_file XXH64 ht k fd lock) (spec_open k fd lock (htable_lookup XXH64 ht))"
proof (cases rule: core_fetch_cases [OF inv_core [OF inv], of k, case_names missing found])
  case missing
  with inv show ?thesis by (simp add: htable_open_file_def spec_open_def refines_def htable_fetch_file_def)
next
  case (found a it)
  show ?thesis
  proof (cases "is_open (file it) \<or> is_locked (file it) \<and> fd_owner (file it) \<noteq> fd")
    case True
    with found inv show ?thesis by (auto simp: htable_open_file_def spec_open_def refines_def fetched)
  next
    case False
    let ?f = "(file it)\<lparr>is_open := True, is_locked := lock, fd_owner := fd\<rparr>"
    let ?s = "(stats ht)\<lparr>open_count := open_count (stats ht) + 1\<rparr>"
    have "htable_open_file XXH64 ht k fd lock = Inr (HTABLE_ERR_OK, (set_file a ?f ht)\<lparr>stats := ?s\<rparr>)"
      using found False inv inv_stats_idle [OF inv]
      by (auto simp: htable_open_file_def fetched)
    with found False set_file_meta [OF inv found(1), of ?f ?s] show ?thesis
      by (auto simp: spec_open_def refines_def)
  qed
qed

lemma close_refines:
  assumes inv: "htable_inv XXH64 ht"
  shows "hrefines XXH64 (htable_close_file XXH64 ht k fd) (spec_close k fd (htable_lookup XXH64 ht))"
proof (cases rule: core_fetch_cases [OF inv_core [OF inv], of k, case_names missing found])
  case missing
  with inv show ?thesis by (simp add: htable_close_file_def spec_close_def refines_def htable_fetch_file_def)
next
  case (found a it)
  show ?thesis
  proof (cases "\<not> is_open (file it) \<or> is_locked (file it) \<and> fd_owner (file it) \<noteq> fd")
    case True
    with found inv show ?thesis by (auto simp: htable_close_file_def spec_close_def refines_def fetched)
  next
    case False
    let ?f = "(file it)\<lparr>is_open := False\<rparr>"
    let ?s = "(stats ht)\<lparr>open_count := open_count (stats ht) - 1\<rparr>"
    have "htable_close_file XXH64 ht k fd = Inr (HTABLE_ERR_OK, (set_file a ?f ht)\<lparr>stats := ?s\<rparr>)"
      using found False inv inv_stats_idle [OF inv]
      by (auto simp: htable_close_file_def fetched)
    with found False set_file_meta [OF inv found(1), of ?f ?s] show ?thesis
      by (auto simp: spec_close_def refines_def)
  qed
qed

subsection \<open>Operations that add or remove an item\<close>

lemma live_files_at: "live_files ht a = the (files_at ht a)" if "a \<in> dom (cells (items ht))"
  using that by (auto simp: live_files_def files_at_def)

lemma stats_rep_files:
  "stats_rep ht \<longleftrightarrow>
     items_count (stats ht) = of_nat (card (dom (files_at ht))) \<and>
     total_space_in_bytes (stats ht) = (\<Sum>a \<in> dom (files_at ht). length_in_bytes (the (files_at ht a)))"
  by (simp add: stats_rep_def live_files_at cong: sum.cong)

lemma core_files_iff:
  "htable_core XXH64 ht \<longleftrightarrow>
     (\<exists>ass. htable_rep XXH64 ht ass) \<and> htable_unlocked ht \<and> stats_rep ht \<and> fifo_present ht \<and>
     (\<forall>a f. files_at ht a = Some f \<longrightarrow> file_ok f)"
proof -
  have "(\<forall>a \<in> dom (cells (items ht)). file_ok (live_files ht a)) \<longleftrightarrow>
      (\<forall>a f. files_at ht a = Some f \<longrightarrow> file_ok f)"
    unfolding live_files_def files_at_def dom_def by fastforce
  then show ?thesis by (simp add: htable_core_def)
qed

lemma finite_files_at: "htable_rep XXH64 ht ass \<Longrightarrow> finite (dom (files_at ht))"
  by (auto simp: htable_rep_def intro: heap_ok_finite)

lemma core_delete:
  assumes core: "htable_core XXH64 ht" and a: "files_at ht a = Some f"
    and rep': "htable_rep XXH64 ht' ass'" and files: "files_at ht' = (files_at ht)(a := None)"
    and rest: "htable_unlocked ht'" "fifo_present ht'"
    and s: "items_count (stats ht') = items_count (stats ht) - 1"
      "total_space_in_bytes (stats ht') = total_space_in_bytes (stats ht) - length_in_bytes f"
  shows "htable_core XXH64 ht'"
proof -
  let ?D = "dom (files_at ht)"
  from core obtain ass where rep: "htable_rep XXH64 ht ass" and st: "stats_rep ht"
    by (auto simp: htable_core_def)
  have fin: "finite ?D" using rep by (rule finite_files_at)
  have aD: "a \<in> ?D" using a by (rule domI)
  have dom: "dom (files_at ht') = ?D - {a}" by (simp add: files)
  have "card ?D = Suc (card (?D - {a}))" by (rule card_Suc_Diff1 [OF fin aD, symmetric])
  moreover have "(\<Sum>c \<in> ?D. length_in_bytes (the (files_at ht c))) =
      length_in_bytes f + (\<Sum>c \<in> ?D - {a}. length_in_bytes (the (files_at ht' c)))"
    using a by (simp add: sum.remove [OF fin aD] files del: dom_files_at)
  ultimately have "stats_rep ht'"
    using st s unfolding stats_rep_files dom by simp
  moreover have "\<forall>c g. files_at ht' c = Some g \<longrightarrow> file_ok g"
    using core by (auto simp: core_files_iff files split: if_splits)
  ultimately show ?thesis using rep' rest by (auto simp: core_files_iff)
qed

lemma core_insert:
  assumes core: "htable_core XXH64 ht" and a: "files_at ht a = None" and ok: "file_ok f"
    and rep': "htable_rep XXH64 ht' ass'" and files: "files_at ht' = (files_at ht)(a \<mapsto> f)"
    and rest: "htable_unlocked ht'" "fifo_present ht'"
    and s: "items_count (stats ht') = items_count (stats ht) + 1"
      "total_space_in_bytes (stats ht') = total_space_in_bytes (stats ht) + length_in_bytes f"
  shows "htable_core XXH64 ht'"
proof -
  let ?D = "dom (files_at ht)"
  from core obtain ass where rep: "htable_rep XXH64 ht ass" and st: "stats_rep ht"
    by (auto simp: htable_core_def)
  have fin: "finite ?D" using rep by (rule finite_files_at)
  have aD: "a \<notin> ?D" using a by (simp add: domIff del: dom_files_at)
  have dom: "dom (files_at ht') = insert a ?D" by (simp add: files)
  have "(\<Sum>c \<in> ?D. length_in_bytes (the (files_at ht' c))) =
      (\<Sum>c \<in> ?D. length_in_bytes (the (files_at ht c)))"
    using aD by (intro sum.cong) (auto simp: files)
  then have "stats_rep ht'"
    using st s fin aD unfolding stats_rep_files dom by (simp add: files)
  moreover have "\<forall>c g. files_at ht' c = Some g \<longrightarrow> file_ok g"
    using core ok by (auto simp: core_files_iff files split: if_splits)
  ultimately show ?thesis using rep' rest by (auto simp: core_files_iff)
qed

lemma unlocked_update:
  "htable_unlocked ht \<Longrightarrow> \<not> guard b \<Longrightarrow> htable_unlocked (ht\<lparr>items := h, buckets := (buckets ht)[i := b]\<rparr>)"
  by (auto simp: htable_unlocked_def dest!: set_update_subset_insert [THEN subsetD])

lemma htable_fifo_add_facts:
  assumes "fifo_present ht"
  obtains ff where "htable_fifo_add ht k = Inr (ht\<lparr>fifo := ff\<rparr>)" and "fifo_present (ht\<lparr>fifo := ff\<rparr>)"
proof (cases "policy ht = CACHE_EVICTION_POLICY_FIFO")
  case True
  with assms obtain ff where "fifo ht = Some ff" by (auto simp: fifo_present_def)
  with True show thesis by (intro that) (auto simp: htable_fifo_add_def fifo_present_def)
next
  case False
  then have "htable_fifo_add ht k = Inr (ht\<lparr>fifo := fifo ht\<rparr>)" by (cases ht) (simp add: htable_fifo_add_def)
  with False show thesis by (intro that [of "fifo ht"]) (auto simp: fifo_present_def)
qed

lemma stats_on_create_sel [simp]:
  "items_count (stats_on_create s) = items_count s + 1"
  "total_space_in_bytes (stats_on_create s) = total_space_in_bytes s"
  "open_count (stats_on_create s) = open_count s + 1"
  by (simp_all add: stats_on_create_def Let_def)

lemma create_refines:
  assumes inv: "htable_inv XXH64 ht"
  shows "hrefines XXH64 (htable_create_file XXH64 ht k fd lock) (spec_create k fd lock (htable_lookup XXH64 ht))"
proof (cases rule: core_fetch_cases [OF inv_core [OF inv], of k, case_names missing found])
  case (found a it)
  with inv show ?thesis by (simp add: htable_create_file_def spec_create_def refines_def fetched)
next
  case missing
  let ?f = "new_file k fd lock"
  obtain ass where rep: "htable_rep XXH64 ht ass" using core_rep [OF inv_core [OF inv]] by blast
  have kf: "key ?f = k" and ok: "file_ok ?f" by (simp_all add: new_file_def file_ok_def)
  obtain hp b' ass' where ins: "insert_item (htable_bucket_ptr XXH64 ht k) ?f ht =
      Inr (ht\<lparr>items := hp, buckets := (buckets ht)[htable_bucket_ptr XXH64 ht k := b']\<rparr>)"
    and g: "\<not> guard b'"
    and rep': "htable_rep XXH64 (ht\<lparr>items := hp, buckets := (buckets ht)[htable_bucket_ptr XXH64 ht k := b']\<rparr>) ass'"
    and files: "\<And>c. map_option file (cells hp c) = ((files_at ht)(brk (items ht) \<mapsto> ?f)) c"
    using insert_item_rep [OF rep core_unlocked [OF inv_core [OF inv]], of ?f] missing(1) kf by metis
  define ht1 where "ht1 = ht\<lparr>items := hp, buckets := (buckets ht)[htable_bucket_ptr XXH64 ht k := b']\<rparr>"
  define s where "s = stats_on_create (stats ht)"
  have "fifo_present (ht1\<lparr>stats_guard := True, stats := s\<rparr>)"
    using inv by (simp add: htable_inv_def htable_core_def fifo_present_def ht1_def)
  then obtain ff where ff: "htable_fifo_add (ht1\<lparr>stats_guard := True, stats := s\<rparr>) k =
      Inr (ht1\<lparr>stats_guard := True, stats := s, fifo := ff\<rparr>)"
    and fp: "fifo_present (ht1\<lparr>stats_guard := True, stats := s, fifo := ff\<rparr>)"
    by (rule htable_fifo_add_facts)
  define ht2 where "ht2 = ht1\<lparr>stats_guard := True, stats := s, fifo := ff, stats_guard := False\<rparr>"
  have idle: "\<not> stats_guard ht1" "stats ht1 = stats ht"
    using inv_stats_idle [OF inv] by (simp_all add: ht1_def)
  have res: "htable_create_file XXH64 ht k fd lock = Inr (HTABLE_ERR_OK, ht2)"
    using missing ins [folded ht1_def] ff idle
    by (simp add: htable_create_file_def htable_stats_lock_def htable_stats_unlock_def s_def ht2_def)
  have rep2: "htable_rep XXH64 ht2 ass'" using rep' by (simp add: ht2_def ht1_def)
  have files2: "files_at ht2 = (files_at ht)(brk (items ht) \<mapsto> ?f)"
    using files by (simp add: fun_eq_iff files_at_def ht2_def ht1_def)
  have fresh: "files_at ht (brk (items ht)) = None"
    using rep heap_ok_fresh by (auto simp: files_at_def htable_rep_def)
  have "htable_unlocked ht1" unfolding ht1_def using core_unlocked [OF inv_core [OF inv]] g by (rule unlocked_update)
  then have "htable_unlocked ht2" by (simp add: htable_unlocked_def ht2_def)
  moreover have "fifo_present ht2" using fp by (simp add: fifo_present_def ht2_def)
  ultimately have "htable_core XXH64 ht2"
    by (rule core_insert [OF inv_core [OF inv] fresh ok rep2 files2]) (simp_all add: ht2_def s_def new_file_def)
  then have inv2: "htable_inv XXH64 ht2" by (simp add: htable_inv_def ht2_def)
  have "htable_lookup XXH64 ht2 = (htable_lookup XXH64 ht)(k \<mapsto> ?f)"
    using lookup_insert [OF rep rep2 fresh _ files2] missing(1) kf by simp
  with res inv2 missing(1) show ?thesis by (simp add: spec_create_def refines_def)
qed

text \<open>
  Unlinking and freeing a fetched item, then releasing its bucket: the result is a table
  that represents one file less. Removal and both eviction policies end this way.
\<close>

lemma bucket_lock_facts:
  assumes "htable_core XXH64 ht"
  shows "htable_bucket_ptr XXH64 ht k < length (buckets ht)"
    and "\<not> guard (buckets ht ! htable_bucket_ptr XXH64 ht k)"
proof -
  obtain ass where rep: "htable_rep XXH64 ht ass" using core_rep [OF assms] by blast
  show i: "htable_bucket_ptr XXH64 ht k < length (buckets ht)"
    using bucket_ptr_lt [OF rep, of k] rep by (simp add: htable_rep_def)
  then show "\<not> guard (buckets ht ! htable_bucket_ptr XXH64 ht k)"
    using core_unlocked [OF assms] by (simp add: htable_unlocked_def)
qed

lemma rep_guard:
  assumes "htable_rep XXH64 (ht\<lparr>items := h, buckets := (buckets ht)[i := b]\<rparr>) ass"
  shows "htable_rep XXH64 (ht\<lparr>items := h, buckets := (buckets ht)[i := b\<lparr>guard := g\<rparr>]\<rparr>) ass"
proof -
  have "bucket_rep h' ((buckets ht)[i := b\<lparr>guard := g\<rparr>] ! j) as = bucket_rep h' ((buckets ht)[i := b] ! j) as"
    for h' j as
    by (cases "i < length (buckets ht)"; cases "j = i") (simp_all add: bucket_rep_def list_update_beyond)
  with assms show ?thesis by (simp add: htable_rep_def) auto
qed

lemma fetched_unlink:
  assumes core: "htable_core XXH64 ht" and a: "cells (items ht) a = Some it"
  defines "i \<equiv> htable_bucket_ptr XXH64 ht (key (file it))"
  obtains ht1 ht2 where "unlink_item i a (lockb i ht) = Inr ht1"
    and "unlock_bucket i (free_item a ht1) = ht2" and "free_item a (unlock_bucket i ht1) = ht2"
    and "cells (items ht1) a = Some it" and "buckets_count ht1 = buckets_count ht"
    and "ht2 = ht\<lparr>items := items ht2, buckets := buckets ht2\<rparr>"
    and "\<exists>ass. htable_rep XXH64 ht2 ass" and "htable_unlocked ht2"
    and "files_at ht2 = (files_at ht)(a := None)"
    and "htable_lookup XXH64 ht2 = (htable_lookup XXH64 ht)(key (file it) := None)"
proof -
  obtain ass where rep: "htable_rep XXH64 ht ass" using core_rep [OF core] by blast
  then have repl: "htable_rep XXH64 (lockb i ht) ass" by simp
  have al: "cells (items (lockb i ht)) a = Some it" using a by simp
  note il = bucket_lock_facts [OF core, of "key (file it)", folded i_def]
  obtain hp b' ass' where u: "unlink_item i a (lockb i ht) =
      Inr ((lockb i ht)\<lparr>items := hp, buckets := (buckets (lockb i ht))[i := b']\<rparr>)"
    and ha: "cells hp a = Some it"
    and rep': "htable_rep XXH64 (free_item a ((lockb i ht)\<lparr>items := hp, buckets := (buckets (lockb i ht))[i := b']\<rparr>)) ass'"
    and files: "\<And>c. map_option file (cells hp c) = files_at (lockb i ht) c"
    using unlink_free_rep [OF repl al] unfolding lockb_sel i_def [symmetric] by metis
  define ht1 where "ht1 = (lockb i ht)\<lparr>items := hp, buckets := (buckets (lockb i ht))[i := b']\<rparr>"
  define ht2 where "ht2 = ht\<lparr>items := heap_free a hp, buckets := (buckets ht)[i := b'\<lparr>guard := False\<rparr>]\<rparr>"
  have ht1: "ht1 = ht\<lparr>items := hp, buckets := (buckets ht)[i := b']\<rparr>"
    by (simp add: ht1_def lockb_def htable_upd_commute)
  have "htable_rep XXH64 (ht\<lparr>items := heap_free a hp, buckets := (buckets ht)[i := b']\<rparr>) ass'"
    using rep' [folded ht1_def] by (simp add: ht1 free_item_def htable_upd_commute)
  then have rep2: "htable_rep XXH64 ht2 ass'" unfolding ht2_def by (rule rep_guard)
  have files2: "files_at ht2 = (files_at ht)(a := None)"
    using files by (simp add: fun_eq_iff files_at_def ht2_def)
  have fa: "files_at ht a = Some (file it)" using a by (simp add: files_at_def)
  show thesis
  proof (rule that)
    show "unlink_item i a (lockb i ht) = Inr ht1" using u by (simp add: ht1_def)
    show "unlock_bucket i (free_item a ht1) = ht2" "free_item a (unlock_bucket i ht1) = ht2"
      using il by (simp_all add: ht1 ht2_def unlock_bucket_def free_item_def htable_upd_commute)
    show "cells (items ht1) a = Some it" "buckets_count ht1 = buckets_count ht"
      using ha by (simp_all add: ht1)
    show "ht2 = ht\<lparr>items := items ht2, buckets := buckets ht2\<rparr>" by (simp add: ht2_def)
    show "\<exists>ass. htable_rep XXH64 ht2 ass" using rep2 by blast
    show "htable_unlocked ht2" unfolding ht2_def using core_unlocked [OF core] by (rule unlocked_update) simp
    show "files_at ht2 = (files_at ht)(a := None)" by (rule files2)
    show "htable_lookup XXH64 ht2 = (htable_lookup XXH64 ht)(key (file it) := None)"
      using lookup_delete [OF rep rep2 fa files2] .
  qed
qed

lemma remove_refines:
  assumes inv: "htable_inv XXH64 ht"
  shows "hrefines XXH64 (htable_remove_file XXH64 ht k fd) (spec_remove k fd (htable_lookup XXH64 ht))"
proof (cases rule: core_fetch_cases [OF inv_core [OF inv], of k, case_names missing found])
  case missing
  with inv show ?thesis by (simp add: htable_remove_file_def spec_remove_def refines_def)
next
  case (found a it)
  show ?thesis
  proof (cases "is_locked (file it) \<and> fd_owner (file it) \<noteq> fd \<and> fd \<noteq> -1")
    case True
    with found inv show ?thesis by (simp add: htable_remove_file_def spec_remove_def refines_def fetched)
  next
    case False
    let ?i = "htable_bucket_ptr XXH64 ht k"
    obtain ht1 ht2 where u: "unlink_item ?i a (lockb ?i ht) = Inr ht1"
      and ul: "unlock_bucket ?i (free_item a ht1) = ht2"
      and bc: "buckets_count ht1 = buckets_count ht"
      and eq: "ht2 = ht\<lparr>items := items ht2, buckets := buckets ht2\<rparr>"
      and rep2: "\<exists>ass. htable_rep XXH64 ht2 ass" and free: "htable_unlocked ht2"
      and files: "files_at ht2 = (files_at ht)(a := None)"
      and look: "htable_lookup XXH64 ht2 = (htable_lookup XXH64 ht)(k := None)"
      using fetched_unlink [OF inv_core [OF inv] found(1)] unfolding found(2) by metis
    let ?s = "(stats ht)\<lparr>open_count := open_count (stats ht) - 1, items_count := items_count (stats ht) - 1,
        total_space_in_bytes := total_space_in_bytes (stats ht) - length_in_bytes (file it)\<rparr>"
    have ptr: "htable_bucket_ptr XXH64 (free_item a ht1) k = ?i"
      using bc by (simp add: htable_bucket_ptr_def free_item_def)
    have st: "stats ht2 = stats ht" "\<not> stats_guard ht2"
      using inv_stats_idle [OF inv] by (subst eq, simp)+
    have "htable_remove_file XXH64 ht k fd = Inr (HTABLE_ERR_OK, ht2\<lparr>stats := ?s\<rparr>)"
      using found False u ul st ptr
      by (auto simp: htable_remove_file_def load_item_def htable_release_file_def update_stats_idle Let_def)
    moreover have "htable_inv XXH64 (ht2\<lparr>stats := ?s\<rparr>)"
    proof -
      from rep2 obtain ass2 where r: "htable_rep XXH64 (ht2\<lparr>stats := ?s\<rparr>) ass2" by auto
      have fa: "files_at ht a = Some (file it)" using found(1) by (simp add: files_at_def)
      have "fifo_present ht2"
        using inv by (subst eq) (simp add: htable_inv_def htable_core_def fifo_present_def)
      then have "htable_core XXH64 (ht2\<lparr>stats := ?s\<rparr>)"
        using free by (intro core_delete [OF inv_core [OF inv] fa r])
          (simp_all add: files [symmetric] files_at_def fun_eq_iff htable_unlocked_def fifo_present_def)
      with st show ?thesis by (simp add: htable_inv_def)
    qed
    ultimately show ?thesis
      using found False look by (auto simp: spec_remove_def refines_def)
  qed
qed

subsection \<open>Sequences of requests\<close>

lemma refines_as_reply:
  "refines good view c a \<Longrightarrow> refines good view (as_reply c) (as_reply a)"
  unfolding as_reply_def by (erule refines_bind) (simp add: refines_def)

lemma htable_exec_refines:
  assumes inv: "htable_inv XXH64 ht"
  shows "hrefines XXH64 (htable_exec XXH64 x ht) (spec_exec x (htable_lookup XXH64 ht))"
proof (cases x)
  case (Unlock k fd)
  have "hrefines XXH64
      (bind_result (bind_result (htable_unlock_file XXH64 ht k fd) (\<lambda>(e, new_fd, ht). Inr ((e, new_fd), ht)))
        (\<lambda>((e, new_fd), ht). Inr (Reply e new_fd, ht)))
      (bind_result (spec_unlock k fd (htable_lookup XXH64 ht)) (\<lambda>((e, new_fd), m). Inr (Reply e new_fd, m)))"
    by (rule refines_bind [OF unlock_refines [OF inv]]) (auto simp: refines_def)
  then show ?thesis by (simp add: Unlock bind_result_assoc case_prod_unfold)
qed (use inv in \<open>simp_all add: htable_open_or_create_file_def refines_as_reply lock_refines open_refines
       create_refines close_refines remove_refines\<close>)

interpretation htable: simulation "\<lambda>_. True" "htable_inv XXH64" "htable_lookup XXH64" "htable_exec XXH64" spec_exec
  for XXH64
  by unfold_locales (rule htable_exec_refines)

lemma htable_run_refines:
  "htable_inv XXH64 ht \<Longrightarrow> hrefines XXH64 (run (htable_exec XXH64) xs ht) (run spec_exec xs (htable_lookup XXH64 ht))"
  by (rule htable.run_refines) (simp_all add: list_all_iff)

lemma htable_run_returns:
  "htable_inv XXH64 ht \<Longrightarrow> run spec_exec xs (htable_lookup XXH64 ht) = Inr (rs, m) \<Longrightarrow>
     \<exists>ht'. run (htable_exec XXH64) xs ht = Inr (rs, ht') \<and> htable_inv XXH64 ht' \<and> htable_lookup XXH64 ht' = m"
  by (rule htable.run_returns) (simp_all add: list_all_iff)

lemma htable_create_inv:
  assumes "0 < n"
  obtains ht where "htable_create n config = Inr ht" and "htable_inv XXH64 ht"
    and "htable_lookup XXH64 ht = Map.empty"
proof -
  obtain ht where ht: "htable_create n config = Inr ht"
    using assms by (simp add: htable_create_def)
  have n: "0 < unat n" using assms by (simp add: word_less_nat_alt)
  have ass: "concat (replicate (unat n) []) = []" by (induction "unat n") auto
  have "htable_rep XXH64 ht (replicate (unat n) [])"
    using ht assms n unat_u64_lt [of n]
    by (auto simp: htable_create_def htable_rep_def bucket_rep_def heap_empty_def heap_ok_def)
  moreover have "htable_unlocked ht" "stats_rep ht" "fifo_present ht" "dom (cells (items ht)) = {}"
    using ht assms
    by (auto simp: htable_create_def htable_unlocked_def stats_rep_def fifo_present_def heap_empty_def)
  moreover have "\<not> stats_guard ht" using ht assms by (auto simp: htable_create_def)
  ultimately have "htable_inv XXH64 ht" by (auto simp: htable_inv_def htable_core_def)
  moreover from this have "htable_lookup XXH64 ht = Map.empty"
    using core_rep [OF inv_core, of XXH64 ht] lookup_rep \<open>dom (cells (items ht)) = {}\<close>
    by (metis dom_eq_empty_conv not_None_eq option.distinct(1))
  ultimately show thesis using ht that by blast
qed


subsection \<open>A small table\<close>

text \<open>
  The properties are instantiated on tables with four buckets, room for two files and a
  hash function that puts every key in bucket 0, after a sequence of requests.
\<close>

definition sample_config :: "CacheEvictionPolicy \<Rightarrow> Config" where
  "sample_config pol =
     \<lparr>max_files = 2, max_storage_in_bytes = 10000, num_workers = 1, socket_filepath = ''s'',
      log_filepath = ''l'', cache_eviction_policy = pol, log_f = None, err = 0\<rparr>"

definition sample_table :: "CacheEvictionPolicy \<Rightarrow> meta_op list \<Rightarrow> (reply list \<times> HTable) result" where
  "sample_table pol xs =
     bind_result (htable_create 4 (sample_config pol)) (run (htable_exec (\<lambda>_. 0)) xs)"

lemma sample_run:
  assumes "run spec_exec xs Map.empty = Inr (rs, m)"
  obtains ht where "sample_table pol xs = Inr (rs, ht)" and "htable_inv (\<lambda>_. 0) ht" and "htable_lookup (\<lambda>_. 0) ht = m"
proof -
  obtain ht0 where "htable_create 4 (sample_config pol) = Inr ht0" "htable_inv (\<lambda>_. 0) ht0"
    "htable_lookup (\<lambda>_. 0) ht0 = Map.empty"
    using htable_create_inv [of 4 "sample_config pol" "\<lambda>_. 0"] by auto
  with that htable_run_returns [of "\<lambda>_. 0" ht0 xs rs m] assms show thesis by (auto simp: sample_table_def)
qed

lemma sample_created:
  obtains ht where "sample_table pol [Create [97] 3 l] = Inr ([Reply HTABLE_ERR_OK (-1)], ht)"
    and "htable_inv (\<lambda>_. 0) ht" and "htable_lookup (\<lambda>_. 0) ht = [[97] \<mapsto> new_file [97] 3 l]"
proof -
  have "run spec_exec [Create [97] 3 l] Map.empty =
      Inr ([Reply HTABLE_ERR_OK (-1)], [[97] \<mapsto> new_file [97] 3 l])"
    by (simp add: as_reply_def spec_create_def)
  then show thesis using sample_run that by blast
qed

end
