(* ===== verification/HTable_Visitor.thy ===== *)
theory HTable_Visitor
  imports HTable_Refine
begin

text \<open>
  The visitor of \<open>src/server/htable.c\<close>, which \<open>readNFiles\<close> and the final summary of the
  server iterate with. The lemmas describe what the visitor really visits and in which state
  it leaves the mutexes: it stays inside one bucket and does not unlock it.
\<close>

record HTableVisitor =
  max_visits :: u32
  visits :: u32
  bucket_i :: nat
  next_visit :: ptr

text \<open>\<open>bucket_i\<close> stays below \<open>buckets_count\<close>, a \<open>size_t\<close>, so it is a natural number here.\<close>

definition htable_visit :: "HTable \<Rightarrow> u32 \<Rightarrow> (HTableVisitor \<times> HTable) result" where
  "htable_visit ht n =
     (if buckets ht = [] then Inl Out_Of_Bounds
      else
        let v = \<lparr>max_visits = n, visits = 0, bucket_i = 0, next_visit = head (buckets ht ! 0)\<rparr> in
        bind_result (lock_bucket 0 ht) (\<lambda>ht. Inr (v, ht)))"

text \<open>
  The loop that looks for the next bucket with an item; the flag of the result is False
  when there are no more buckets. The fuel is the number of buckets that are left.
\<close>

fun visitor_skip :: "nat \<Rightarrow> HTableVisitor \<Rightarrow> HTable \<Rightarrow> (bool \<times> HTableVisitor \<times> HTable) result" where
  "visitor_skip fuel v ht =
     (if next_visit v \<noteq> None then Inr (True, v, ht)
      else (case fuel of
              0 \<Rightarrow> Inl Stuck
            | Suc fuel' \<Rightarrow>
                let ht = unlock_bucket (bucket_i v) ht; v = v\<lparr>bucket_i := Suc (bucket_i v)\<rparr> in
                if bucket_i v = unat (buckets_count ht) then Inr (False, v, ht)
                else bind_result (lock_bucket (bucket_i v) ht) (\<lambda>ht.
                       visitor_skip fuel' (v\<lparr>next_visit := head (buckets ht ! bucket_i v)\<rparr>) ht)))"

declare visitor_skip.simps [simp del]

text \<open>
  The result is the address of the item whose file is returned, or None for NULL. When
  \<open>next\<close> has become NULL, \<open>&visitor->next->file\<close> is NULL too: \<open>file\<close> is the first member
  of the item.
\<close>

definition htable_visitor_next :: "HTableVisitor \<Rightarrow> HTable \<Rightarrow> (ptr \<times> HTableVisitor \<times> HTable) result" where
  "htable_visitor_next v ht =
     (if visits v \<ge> max_visits v \<and> max_visits v \<noteq> 0 then Inr (None, v, unlock_bucket (bucket_i v) ht)
      else (case next_visit v of
              Some a \<Rightarrow>
                bind_result (load_item a ht) (\<lambda>it.
                  Inr (next_item it, v\<lparr>visits := visits v + 1, next_visit := next_item it\<rparr>, ht))
            | None \<Rightarrow>
                bind_result (visitor_skip (Suc (length (buckets ht))) v ht) (\<lambda>(more, v, ht).
                  if more then Inr (next_visit v, v\<lparr>visits := visits v + 1\<rparr>, ht)
                  else Inr (None, v, ht))))"

text \<open>A whole visit: the loop of \<open>print_summary\<close>, which returns the files it prints.\<close>

fun visit_loop :: "nat \<Rightarrow> HTableVisitor \<Rightarrow> HTable \<Rightarrow> (File list \<times> HTable) result" where
  "visit_loop 0 v ht = Inl Stuck"
| "visit_loop (Suc fuel) v ht =
     bind_result (htable_visitor_next v ht) (\<lambda>(p, v, ht).
     case p of
       None \<Rightarrow> Inr ([], ht)
     | Some a \<Rightarrow>
         bind_result (load_item a ht) (\<lambda>it.
         bind_result (visit_loop fuel v ht) (\<lambda>(fs, ht). Inr (file it # fs, ht))))"

definition print_summary :: "HTable \<Rightarrow> (HTableStats \<times> File list \<times> HTable) result" where
  "print_summary ht =
     bind_result (htable_visit ht 0) (\<lambda>(v, ht').
     bind_result (visit_loop (brk (items ht) + 2) v ht') (\<lambda>(fs, ht').
       Inr (stats ht, fs, ht')))"

subsection \<open>The items a visit reaches\<close>

definition seg_files :: "HTable \<Rightarrow> nat list \<Rightarrow> File list" where
  "seg_files ht as = map (\<lambda>a. file (the (cells (items ht) a))) as"

lemma visit_chain:
  assumes "dseg (cells (items ht)) prv (Some a) (a # as) None" and "max_visits v = 0"
    and "next_visit v = Some a" and "length as < fuel"
  shows "visit_loop fuel v ht = Inr (seg_files ht as, ht)"
  using assms
proof (induction as arbitrary: prv a v fuel)
  case Nil
  then obtain fuel' it where "fuel = Suc fuel'" "cells (items ht) a = Some it" "next_item it = None"
    by (cases fuel) auto
  with Nil show ?case by (simp add: htable_visitor_next_def load_item_def seg_files_def)
next
  case (Cons b as)
  then obtain fuel' it it' where f: "fuel = Suc fuel'" "cells (items ht) a = Some it" "next_item it = Some b"
    "cells (items ht) b = Some it'" "dseg (cells (items ht)) (Some a) (Some b) (b # as) None"
    by (cases fuel) auto
  let ?v = "v\<lparr>visits := visits v + 1, next_visit := Some b\<rparr>"
  have "visit_loop fuel' ?v ht = Inr (seg_files ht as, ht)"
    using Cons.prems f by (intro Cons.IH [OF f(5)]) simp_all
  with f Cons.prems show ?case by (simp add: htable_visitor_next_def load_item_def seg_files_def)
qed

lemma u32_inc: "x < y \<Longrightarrow> unat (x + 1 :: u32) = Suc (unat x)"
proof -
  assume "x < y"
  then have "Suc (unat x) \<le> unat y" by (simp add: word_less_nat_alt)
  moreover have "unat y < 2 ^ 32" by (rule order_less_le_trans [OF unsigned_less]) simp
  ultimately have "Suc (unat x) < 2 ^ 32" by simp
  then show ?thesis by (simp add: unat_word_ariths)
qed

lemma visitor_skip_None:
  "next_visit v = None \<Longrightarrow> visitor_skip (Suc n) v ht =
     (let ht = unlock_bucket (bucket_i v) ht; v = v\<lparr>bucket_i := Suc (bucket_i v)\<rparr> in
      if bucket_i v = unat (buckets_count ht) then Inr (False, v, ht)
      else bind_result (lock_bucket (bucket_i v) ht) (\<lambda>ht.
             visitor_skip n (v\<lparr>next_visit := head (buckets ht ! bucket_i v)\<rparr>) ht))"
  by (simp add: visitor_skip.simps [of "Suc n"])

lemma visitor_skip_counters:
  assumes "visitor_skip n v ht = Inr (b, v', ht')"
  shows "visits v' = visits v \<and> max_visits v' = max_visits v"
  using assms
proof (induction n arbitrary: v ht)
  case 0
  then show ?case by (simp add: visitor_skip.simps split: if_splits)
next
  case (Suc n)
  show ?case
  proof (cases "next_visit v")
    case (Some a)
    with Suc.prems show ?thesis by (simp add: visitor_skip.simps)
  next
    case None
    with Suc.prems Suc.IH show ?thesis
      unfolding visitor_skip_None [OF None] Let_def by (fastforce simp: bind_result_eq_Inr split: if_splits)
  qed
qed

lemma visitor_next_counters:
  assumes "htable_visitor_next v ht = Inr (Some a, v', ht')" and "max_visits v \<noteq> 0"
  shows "visits v < max_visits v" and "visits v' = visits v + 1" and "max_visits v' = max_visits v"
  using assms visitor_skip_counters
  by (auto simp: htable_visitor_next_def bind_result_eq_Inr not_le split: if_splits option.splits)

lemma visits_bound:
  assumes "visit_loop fuel v ht = Inr (fs, ht')" and "max_visits v \<noteq> 0" and "visits v \<le> max_visits v"
  shows "length fs + unat (visits v) \<le> unat (max_visits v)"
  using assms
proof (induction fuel arbitrary: v ht fs)
  case (Suc fuel)
  obtain p v1 ht1 where n: "htable_visitor_next v ht = Inr (p, v1, ht1)"
    using Suc.prems(1) by (auto simp: bind_result_eq_Inr)
  show ?case
  proof (cases p)
    case None
    with Suc.prems n show ?thesis by (auto simp: word_le_nat_alt)
  next
    case (Some a)
    note vc = visitor_next_counters [OF n [unfolded Some] Suc.prems(2)]
    obtain fs1 where r: "visit_loop fuel v1 ht1 = Inr (fs1, ht')" and fs: "length fs = Suc (length fs1)"
      using Suc.prems(1) n Some by (auto simp: bind_result_eq_Inr)
    note inc = u32_inc [OF vc(1)]
    have "visits v1 \<le> max_visits v1" using vc inc by (simp add: word_le_nat_alt word_less_nat_alt)
    then have "length fs1 + unat (visits v1) \<le> unat (max_visits v1)"
      using Suc.IH [OF r] vc Suc.prems(2) by simp
    then show ?thesis using vc inc fs by simp
  qed
qed simp


lemma rep_bucket_head:
  assumes "htable_rep XXH64 ht ass" and "i < length ass"
  shows "head (buckets ht ! i) = firstp (ass ! i) None"
    and "dseg (cells (items ht)) None (head (buckets ht ! i)) (ass ! i) None"
    and "length (ass ! i) \<le> brk (items ht)"
proof -
  have b: "bucket_rep (cells (items ht)) (buckets ht ! i) (ass ! i)" using assms by (simp add: htable_rep_def)
  then show d: "dseg (cells (items ht)) None (head (buckets ht ! i)) (ass ! i) None" by (simp add: bucket_rep_def)
  then show "head (buckets ht ! i) = firstp (ass ! i) None" by (rule dseg_first)
  show "length (ass ! i) \<le> brk (items ht)"
    using b assms(1) dseg_dom [OF d] by (intro heap_ok_length_le) (auto simp: bucket_rep_def htable_rep_def)
qed

lemma lock_idle:
  assumes "htable_unlocked ht" and "i < length (buckets ht)"
  shows "lock_bucket i ht = Inr (lockb i ht)" and "unlock_bucket i (lockb i ht) = ht"
    and "head (buckets (lockb i ht) ! i) = head (buckets ht ! i)"
  using assms by (simp_all add: htable_unlocked_def lock_bucket_def lockb_def [of i ht, symmetric])
    (simp add: lockb_def)

lemma visitor_skip_spec:
  assumes rep: "htable_rep XXH64 ht ass" and idle: "htable_unlocked ht"
    and "i < length ass" and "bucket_i v = i" and "next_visit v = None" and "length ass - i \<le> fuel"
  shows "(\<forall>j. i < j \<and> j < length ass \<longrightarrow> ass ! j = []) \<and>
      visitor_skip fuel v (lockb i ht) = Inr (False, v\<lparr>bucket_i := length ass\<rparr>, ht) \<or>
    (\<exists>j a as. i < j \<and> j < length ass \<and> (\<forall>l. i < l \<and> l < j \<longrightarrow> ass ! l = []) \<and> ass ! j = a # as \<and>
      visitor_skip fuel v (lockb i ht) = Inr (True, v\<lparr>bucket_i := j, next_visit := Some a\<rparr>, lockb j ht))"
  using assms(3-)
proof (induction fuel arbitrary: i v)
  case (Suc fuel)
  have n: "length ass = length (buckets ht)" "unat (buckets_count ht) = length ass"
    using rep by (auto simp: htable_rep_def)
  note lk = lock_idle [OF idle Suc.prems(1) [unfolded n(1)]]
  note step = visitor_skip_None [OF Suc.prems(3), of fuel "lockb i ht", unfolded Suc.prems(2) lk(2)]
  let ?v = "v\<lparr>bucket_i := Suc i\<rparr>"
  show ?case
  proof (cases "Suc i = length ass")
    case True
    then have "visitor_skip (Suc fuel) v (lockb i ht) = Inr (False, v\<lparr>bucket_i := length ass\<rparr>, ht)"
      unfolding step using n by simp
    with True show ?thesis by auto
  next
    case False
    then have si: "Suc i < length ass" using Suc.prems(1) by simp
    note lk' = lock_idle [OF idle si [unfolded n(1)]]
    have st: "visitor_skip (Suc fuel) v (lockb i ht) =
        visitor_skip fuel (?v\<lparr>next_visit := firstp (ass ! Suc i) None\<rparr>) (lockb (Suc i) ht)"
      unfolding step using False n lk' rep_bucket_head(1) [OF rep si] by simp
    show ?thesis
    proof (cases "ass ! Suc i")
      case (Cons a as)
      then have "visitor_skip (Suc fuel) v (lockb i ht) =
          Inr (True, v\<lparr>bucket_i := Suc i, next_visit := Some a\<rparr>, lockb (Suc i) ht)"
        unfolding st by (simp add: visitor_skip.simps)
      moreover have "i < l \<and> l < Suc i \<longrightarrow> ass ! l = []" for l by auto
      ultimately show ?thesis using Cons si by (metis lessI)
    next
      case Nil
      have same: "?v\<lparr>next_visit := None\<rparr> = ?v" using Suc.prems(3) by (cases v) simp
      have st': "visitor_skip (Suc fuel) v (lockb i ht) = visitor_skip fuel ?v (lockb (Suc i) ht)"
        unfolding st by (simp add: Nil same)
      have between: "i < j \<longleftrightarrow> j = Suc i \<or> Suc i < j" for j by auto
      have "(\<forall>j. Suc i < j \<and> j < length ass \<longrightarrow> ass ! j = []) \<and>
          visitor_skip fuel ?v (lockb (Suc i) ht) = Inr (False, ?v\<lparr>bucket_i := length ass\<rparr>, ht) \<or>
        (\<exists>j a as. Suc i < j \<and> j < length ass \<and> (\<forall>l. Suc i < l \<and> l < j \<longrightarrow> ass ! l = []) \<and> ass ! j = a # as \<and>
          visitor_skip fuel ?v (lockb (Suc i) ht) = Inr (True, ?v\<lparr>bucket_i := j, next_visit := Some a\<rparr>, lockb j ht))"
        using Suc.prems si by (intro Suc.IH) simp_all
      then show ?thesis unfolding st' using Nil by (auto simp: between)
    qed
  qed
qed simp

text \<open>
  What the visit really does: it returns the items of the first bucket that is not empty,
  without its first item when that is bucket 0, and leaves the mutex of that bucket locked.
\<close>

lemma print_summary_visits:
  assumes rep: "htable_rep XXH64 ht ass" and idle: "htable_unlocked ht"
  shows "print_summary ht = bind_result (visit_loop (Suc (Suc (brk (items ht))))
      \<lparr>max_visits = 0, visits = 0, bucket_i = 0, next_visit = firstp (ass ! 0) None\<rparr> (lockb 0 ht))
    (\<lambda>(fs, ht'). Inr (stats ht, fs, ht'))"
proof -
  have n: "length ass = length (buckets ht)" "0 < length ass" using rep by (auto simp: htable_rep_def)
  have "htable_visit ht 0 = Inr (\<lparr>max_visits = 0, visits = 0, bucket_i = 0, next_visit = firstp (ass ! 0) None\<rparr>, lockb 0 ht)"
    using n lock_idle(1) [OF idle, of 0] rep_bucket_head(1) [OF rep n(2)] by (auto simp: htable_visit_def)
  then show ?thesis by (simp add: print_summary_def del: visit_loop.simps)
qed

lemma seg_files_lockb [simp]: "seg_files (lockb i ht) as = seg_files ht as"
  by (simp add: seg_files_def)

lemma visit_first_bucket:
  assumes rep: "htable_rep XXH64 ht ass" and idle: "htable_unlocked ht" and ne: "ass ! 0 \<noteq> []"
  shows "print_summary ht = Inr (stats ht, seg_files ht (tl (ass ! 0)), lockb 0 ht)"
proof -
  obtain a as where Cons: "ass ! 0 = a # as" using ne by (cases "ass ! 0") auto
  have n: "0 < length ass" using rep by (auto simp: htable_rep_def)
  have "visit_loop (Suc (Suc (brk (items ht)))) \<lparr>max_visits = 0, visits = 0, bucket_i = 0, next_visit = Some a\<rparr> (lockb 0 ht) =
      Inr (seg_files (lockb 0 ht) as, lockb 0 ht)"
    using rep_bucket_head [OF rep n] Cons by (intro visit_chain) auto
  then show ?thesis using print_summary_visits [OF rep idle] Cons by (simp del: visit_loop.simps)
qed

lemma visit_later_bucket:
  assumes rep: "htable_rep XXH64 ht ass" and idle: "htable_unlocked ht" and Nil: "ass ! 0 = []"
  shows "(\<forall>j < length ass. ass ! j = []) \<and> print_summary ht = Inr (stats ht, [], ht) \<or>
    (\<exists>j. 0 < j \<and> j < length ass \<and> (\<forall>l < j. ass ! l = []) \<and> ass ! j \<noteq> [] \<and>
      print_summary ht = Inr (stats ht, seg_files ht (ass ! j), lockb j ht))"
proof -
  have n: "length ass = length (buckets ht)" "0 < length ass" using rep by (auto simp: htable_rep_def)
  define v where "v = \<lparr>max_visits = 0 :: u32, visits = 0, bucket_i = 0, next_visit = firstp (ass ! 0) None\<rparr>"
  note sum = print_summary_visits [OF rep idle, folded v_def]
  have v: "bucket_i v = 0" "next_visit v = None" by (simp_all add: v_def Nil)
  have nxt: "htable_visitor_next v (lockb 0 ht) =
      bind_result (visitor_skip (Suc (length (buckets ht))) v (lockb 0 ht)) (\<lambda>(more, v, ht).
        if more then Inr (next_visit v, v\<lparr>visits := visits v + 1\<rparr>, ht) else Inr (None, v, ht))"
    by (simp add: htable_visitor_next_def v_def Nil lockb_def)
  consider (empty) "\<forall>j. 0 < j \<and> j < length ass \<longrightarrow> ass ! j = []"
      "visitor_skip (Suc (length (buckets ht))) v (lockb 0 ht) = Inr (False, v\<lparr>bucket_i := length ass\<rparr>, ht)"
    | (found) j a as where "0 < j" "j < length ass" "\<forall>l. 0 < l \<and> l < j \<longrightarrow> ass ! l = []" "ass ! j = a # as"
      "visitor_skip (Suc (length (buckets ht))) v (lockb 0 ht) = Inr (True, v\<lparr>bucket_i := j, next_visit := Some a\<rparr>, lockb j ht)"
    using visitor_skip_spec [OF rep idle n(2) v, of "Suc (length (buckets ht))"] n(1) by auto
  then show ?thesis
  proof cases
    case empty
    then have "print_summary ht = Inr (stats ht, [], ht)" by (simp add: sum nxt)
    moreover have "ass ! j = []" if "j < length ass" for j using that empty(1) Nil by (cases "j = 0") auto
    ultimately show ?thesis by blast
  next
    case found
    let ?v = "v\<lparr>bucket_i := j, next_visit := Some a, visits := visits v + 1\<rparr>"
    note bh = rep_bucket_head [OF rep found(2), unfolded found(4)]
    have "visit_loop (Suc (brk (items ht))) ?v (lockb j ht) = Inr (seg_files (lockb j ht) as, lockb j ht)"
      using bh by (intro visit_chain) (auto simp: v_def)
    moreover obtain it where "cells (items ht) a = Some it" using bh by auto
    ultimately have "print_summary ht = Inr (stats ht, seg_files ht (ass ! j), lockb j ht)"
      unfolding sum using found
      by (subst visit_loop.simps) (simp add: nxt load_item_def seg_files_def del: visit_loop.simps)
    moreover have "ass ! l = []" if "l < j" for l using that found(3) Nil by (cases "l = 0") auto
    ultimately show ?thesis using found(1,2,4) by (intro disjI2 exI [of _ j]) simp
  qed
qed

lemma full_visit:
  assumes rep: "htable_rep XXH64 ht ass" and idle: "htable_unlocked ht"
  shows "(\<forall>j < length ass. ass ! j = []) \<and> print_summary ht = Inr (stats ht, [], ht) \<or>
    (\<exists>i < length ass. (\<forall>l < i. ass ! l = []) \<and> ass ! i \<noteq> [] \<and>
      print_summary ht = Inr (stats ht, seg_files ht (if i = 0 then tl (ass ! 0) else ass ! i), lockb i ht))"
proof (cases "ass ! 0 = []")
  case True
  from visit_later_bucket [OF rep idle this] show ?thesis
  proof (elim disjE exE conjE)
    fix j assume "0 < j" "j < length ass" "\<forall>l < j. ass ! l = []" "ass ! j \<noteq> []"
      "print_summary ht = Inr (stats ht, seg_files ht (ass ! j), lockb j ht)"
    then show ?thesis by (intro disjI2 exI [of _ j]) simp
  qed (rule disjI1, intro conjI)
next
  case False
  moreover have "0 < length ass" using rep by (auto simp: htable_rep_def)
  ultimately show ?thesis using visit_first_bucket [OF rep idle] by (intro disjI2 exI [of _ 0]) simp
qed


lemma rep_seg_files:
  assumes rep: "htable_rep XXH64 ht ass" and i: "i < length ass" and as: "set as \<subseteq> set (ass ! i)"
    and f: "f \<in> set (seg_files ht as)"
  shows "htable_lookup XXH64 ht (key f) = Some f" and "htable_bucket_ptr XXH64 ht (key f) = i"
proof -
  obtain a where a: "a \<in> set (ass ! i)" "f = file (the (cells (items ht) a))"
    using f as by (auto simp: seg_files_def)
  then have "a \<in> dom (cells (items ht))"
    using dseg_dom [OF rep_bucket_head(2) [OF rep i]] by auto
  then obtain it where it: "cells (items ht) a = Some it" by blast
  then show "htable_lookup XXH64 ht (key f) = Some f" unfolding lookup_rep [OF rep] using a(2) by auto
  show "htable_bucket_ptr XXH64 ht (key f) = i" using rep i a by (simp add: htable_rep_def)
qed

lemma fetch_locked_bucket:
  assumes "htable_rep XXH64 ht ass" and "htable_bucket_ptr XXH64 ht k = i"
  shows "htable_fetch_item XXH64 (lockb i ht) k = Inl Deadlock"
proof -
  have "i < length (buckets ht)" using bucket_ptr_lt [OF assms(1), of k] assms by (simp add: htable_rep_def)
  then show ?thesis using assms(2) by (simp add: htable_fetch_item_def lock_bucket_def lockb_def)
qed

lemma nonempty_visit:
  assumes rep: "htable_rep XXH64 ht ass" and idle: "htable_unlocked ht" and ne: "htable_lookup XXH64 ht k0 = Some f0"
  obtains i where "i < length ass" and "ass ! i \<noteq> []"
    and "print_summary ht = Inr (stats ht, seg_files ht (if i = 0 then tl (ass ! 0) else ass ! i), lockb i ht)"
proof -
  obtain a it where "cells (items ht) a = Some it" using ne unfolding lookup_rep [OF rep] by blast
  then have "\<not> (\<forall>j < length ass. ass ! j = [])"
    using rep_locate [OF rep] by (metis append_is_Nil_conv list.distinct(1))
  with full_visit [OF rep idle] that show thesis by blast
qed

lemma bucket_has_file:
  assumes rep: "htable_rep XXH64 ht ass" and i: "i < length ass" "ass ! i \<noteq> []"
  shows "\<exists>k f. htable_lookup XXH64 ht k = Some f \<and> htable_bucket_ptr XXH64 ht k = i"
proof -
  have "file (the (cells (items ht) (List.hd (ass ! i)))) \<in> set (seg_files ht (ass ! i))"
    using i(2) by (simp add: seg_files_def)
  from rep_seg_files [OF rep i(1) _ this] show ?thesis by blast
qed

subsection \<open>Properties\<close>

text \<open>
  C23: A complete visit of a table that is not empty, such as the one that prints the summary at
  shutdown, returns only files of one bucket, and leaves the mutex of that bucket locked:
  every later access to a file of the bucket, and there is one, waits for ever.
\<close>

theorem visit_stays_in_one_bucket:
  assumes inv: "htable_inv XXH64 ht" and ne: "htable_lookup XXH64 ht k0 = Some f0"
  shows "\<exists>fs i ht'. print_summary ht = Inr (stats ht, fs, ht') \<and>
    (\<forall>f \<in> set fs. htable_lookup XXH64 ht (key f) = Some f \<and> htable_bucket_ptr XXH64 ht (key f) = i) \<and>
    (\<exists>k f. htable_lookup XXH64 ht k = Some f \<and> htable_bucket_ptr XXH64 ht k = i) \<and>
    (\<forall>k. htable_bucket_ptr XXH64 ht k = i \<longrightarrow> htable_fetch_item XXH64 ht' k = Inl Deadlock)"
proof -
  obtain ass where rep: "htable_rep XXH64 ht ass" using core_rep [OF inv_core [OF inv]] by blast
  obtain i where i: "i < length ass" "ass ! i \<noteq> []" "print_summary ht =
      Inr (stats ht, seg_files ht (if i = 0 then tl (ass ! 0) else ass ! i), lockb i ht)"
    using nonempty_visit [OF rep core_unlocked [OF inv_core [OF inv]] ne] by blast
  have sub: "set (if i = 0 then tl (ass ! 0) else ass ! i) \<subseteq> set (ass ! i)"
    by (cases "ass ! 0") auto
  show ?thesis
    using rep_seg_files [OF rep i(1) sub] bucket_has_file [OF rep i(1,2)] fetch_locked_bucket [OF rep] i(3) by blast
qed

theorem visit_stays_in_one_bucket_witness:
  "\<exists>rs ht fs i ht'. sample_table CACHE_EVICTION_POLICY_FIFO [Create [97] 3 True] = Inr (rs, ht) \<and>
     print_summary ht = Inr (stats ht, fs, ht') \<and>
     (\<forall>k. htable_bucket_ptr (\<lambda>_. 0) ht k = i \<longrightarrow> htable_fetch_item (\<lambda>_. 0) ht' k = Inl Deadlock)"
proof -
  obtain ht where ht: "sample_table CACHE_EVICTION_POLICY_FIFO [Create [97] 3 True] = Inr ([Reply HTABLE_ERR_OK (-1)], ht)"
    "htable_inv (\<lambda>_. 0) ht" "htable_lookup (\<lambda>_. 0) ht = [[97] \<mapsto> new_file [97] 3 True]"
    by (rule sample_created)
  have "htable_lookup (\<lambda>_. 0) ht [97] = Some (new_file [97] 3 True)" by (simp add: ht(3))
  from visit_stays_in_one_bucket [OF ht(2) this] ht(1) show ?thesis by blast
qed

text \<open>
  When the table holds a single file and that file is in bucket 0, a complete visit returns
  nothing: the first item of bucket 0 is always skipped.
\<close>

lemma visit_skips_first_item:
  assumes inv: "htable_inv XXH64 ht" and one: "htable_lookup XXH64 ht = [k \<mapsto> f]"
    and b0: "htable_bucket_ptr XXH64 ht k = 0"
  shows "\<exists>ht'. print_summary ht = Inr (stats ht, [], ht')"
proof -
  obtain ass where rep: "htable_rep XXH64 ht ass" using core_rep [OF inv_core [OF inv]] by blast
  have uniq: "i = 0 \<and> length (ass ! i) \<le> 1" if i: "i < length ass" "ass ! i \<noteq> []" for i
  proof
    have key: "key (file (the (cells (items ht) a))) = k \<and> htable_bucket_ptr XXH64 ht k = i"
      if "a \<in> set (ass ! i)" for a
      using rep_seg_files [OF rep i(1), of "[a]" "file (the (cells (items ht) a))"] that
      by (auto simp: seg_files_def one split: if_splits)
    show "i = 0" using key [of "List.hd (ass ! i)"] i(2) b0 by simp
    have "bucket_rep (cells (items ht)) (buckets ht ! i) (ass ! i)" using rep i(1) by (simp add: htable_rep_def)
    then have "distinct (ass ! i)" "inj_on (\<lambda>a. key (file (the (cells (items ht) a)))) (set (ass ! i))"
      by (simp_all add: bucket_rep_def)
    then have "distinct (map (\<lambda>a. key (file (the (cells (items ht) a)))) (ass ! i))" by (simp add: distinct_map)
    moreover have "map (\<lambda>a. key (file (the (cells (items ht) a)))) (ass ! i) = replicate (length (ass ! i)) k"
      using key by (intro replicate_eqI) auto
    ultimately have "distinct (replicate (length (ass ! i)) k)" by simp
    then show "length (ass ! i) \<le> 1" by (cases "ass ! i" rule: remdups_adj.cases) auto
  qed
  from full_visit [OF rep core_unlocked [OF inv_core [OF inv]]] show ?thesis
  proof
    assume "\<exists>i < length ass. (\<forall>l < i. ass ! l = []) \<and> ass ! i \<noteq> [] \<and>
      print_summary ht = Inr (stats ht, seg_files ht (if i = 0 then tl (ass ! 0) else ass ! i), lockb i ht)"
    then obtain i where i: "i < length ass" "ass ! i \<noteq> []"
      "print_summary ht = Inr (stats ht, seg_files ht (if i = 0 then tl (ass ! 0) else ass ! i), lockb i ht)" by blast
    with uniq [OF i(1,2)] have "tl (ass ! 0) = []" by (cases "ass ! 0") auto
    with i(3) uniq [OF i(1,2)] show ?thesis by (simp add: seg_files_def)
  qed blast
qed

text \<open>
  A visit with a limit returns at most as many files as the limit says.
\<close>

lemma visit_respects_limit:
  assumes "htable_visit ht n = Inr (v, ht1)" and "n \<noteq> 0" and "visit_loop fuel v ht1 = Inr (fs, ht')"
  shows "length fs \<le> unat n"
proof -
  have "max_visits v = n" "visits v = 0"
    using assms(1) by (auto simp: htable_visit_def Let_def bind_result_eq_Inr split: if_splits)
  with visits_bound [OF assms(3)] assms(2) show ?thesis by simp
qed

end
