(* ===== verification/HTable_Evict.thy ===== *)
theory HTable_Evict
  imports HTable_Refine
begin

text \<open>
  Cache eviction. Under the segmented policy the eviction loop is correct: with a source of
  random numbers that does not avoid a bucket for ever it ends, the table is within its
  limits, the evicted files are exactly the ones that left the table, and no file is
  evicted that did not have to be. The FIFO policy evicts the oldest file once; its list
  is linked in the wrong direction, and the consequences are shown at the end.
\<close>

definition draw_bucket :: "HTable \<Rightarrow> nat \<Rightarrow> nat" where
  "draw_bucket ht r = unat ((of_nat r :: u64) mod buckets_count ht)"

definition covers :: "HTable \<Rightarrow> nat list \<Rightarrow> bool" where
  "covers ht draws \<longleftrightarrow> (\<forall>i < length (buckets ht). \<exists>r \<in> set draws. draw_bucket ht r = i)"

definition unlinked :: "hash_fn \<Rightarrow> HTable \<Rightarrow> nat \<Rightarrow> File \<Rightarrow> HTable \<Rightarrow> bool" where
  "unlinked XXH64 ht a f ht2 \<longleftrightarrow>
     files_at ht a = Some f \<and> ht2 = ht\<lparr>items := items ht2, buckets := buckets ht2\<rparr> \<and>
     length (buckets ht2) = length (buckets ht) \<and>
     (\<exists>ass. htable_rep XXH64 ht2 ass) \<and> htable_unlocked ht2 \<and>
     files_at ht2 = (files_at ht)(a := None) \<and>
     htable_lookup XXH64 ht2 = (htable_lookup XXH64 ht)(key f := None)"

text \<open>\<open>m'\<close> is the store \<open>m\<close> without the evicted files, which are distinct files of \<open>m\<close>.\<close>

definition evicts :: "File list \<Rightarrow> store \<Rightarrow> store \<Rightarrow> bool" where
  "evicts ev m m' \<longleftrightarrow>
     distinct (map key ev) \<and> (\<forall>f \<in> set ev. m (key f) = Some f) \<and> m' = m |` (- key ` set ev)"

text \<open>Before each eviction the table was over its limits.\<close>

definition needed :: "HTable \<Rightarrow> File list \<Rightarrow> bool" where
  "needed ht ev \<longleftrightarrow>
     (\<forall>j < length ev.
        items_count (stats ht) - of_nat j > max_items_count ht \<or>
        total_space_in_bytes (stats ht) - (\<Sum>f \<leftarrow> take j ev. length_in_bytes f) > max_space_in_bytes ht)"

text \<open>What an eviction pass under the segmented policy achieves.\<close>

definition evicted_ok :: "hash_fn \<Rightarrow> HTable \<Rightarrow> store \<Rightarrow> File list \<Rightarrow> HTable \<Rightarrow> bool" where
  "evicted_ok XXH64 ht m ev ht' \<longleftrightarrow>
     htable_inv XXH64 ht' \<and> \<not> htable_over_limit ht' \<and> max_items_count ht' = max_items_count ht \<and>
     card (dom (htable_lookup XXH64 ht')) \<le> unat (max_items_count ht) \<and>
     evicts ev m (htable_lookup XXH64 ht')"

text \<open>The bytes of a file, and a file with new bytes.\<close>

definition content_bytes :: "File \<Rightarrow> byte list" where
  "content_bytes f = (case contents f of None \<Rightarrow> [] | Some blk \<Rightarrow> blk)"

definition put_contents :: "byte list \<Rightarrow> File \<Rightarrow> File" where
  "put_contents data f = f\<lparr>length_in_bytes := of_nat (length data), contents := Some data\<rparr>"

text \<open>The queue of the FIFO policy after the files \<open>ks\<close> were created, in this order.\<close>

definition fifo_of :: "cstring list \<Rightarrow> Fifo" where
  "fifo_of ks = fold (\<lambda>k ff. fifo_add_file ff k) ks fifo_create"

text \<open>Three files in a table for two.\<close>

definition sample_three :: "meta_op list" where
  "sample_three = [Create [97] 3 True, Create [98] 3 True, Create [99] 3 True]"

definition sample_three_store :: store where
  "sample_three_store =
     [[97] \<mapsto> new_file [97] 3 True, [98] \<mapsto> new_file [98] 3 True, [99] \<mapsto> new_file [99] 3 True]"

lemma sample_three_run:
  obtains rs ht where "sample_table pol sample_three = Inr (rs, ht)"
    and "htable_inv (\<lambda>_. 0) ht" and "htable_lookup (\<lambda>_. 0) ht = sample_three_store"
proof -
  obtain rs where "run spec_exec sample_three Map.empty = Inr (rs, sample_three_store)"
    by (simp add: sample_three_def sample_three_store_def as_reply_def spec_create_def)
  then show thesis using sample_run that by blast
qed

lemma sample_three_eval:
  "case sample_table CACHE_EVICTION_POLICY_SEGMENTED_FIFO sample_three of
     Inr (rs, ht) \<Rightarrow> policy ht = CACHE_EVICTION_POLICY_SEGMENTED_FIFO \<and>
       length (buckets ht) = 4 \<and> buckets_count ht = 4
   | Inl _ \<Rightarrow> False"
  by code_simp

lemma sample_three_facts:
  assumes "sample_table CACHE_EVICTION_POLICY_SEGMENTED_FIFO sample_three = Inr (rs, ht)"
  shows "policy ht = CACHE_EVICTION_POLICY_SEGMENTED_FIFO" and "covers ht [0, 1, 2, 3]"
    and "card (dom sample_three_store) = 3"
proof -
  have n: "policy ht = CACHE_EVICTION_POLICY_SEGMENTED_FIFO" "length (buckets ht) = 4" "buckets_count ht = 4"
    using sample_three_eval assms by simp_all
  show "policy ht = CACHE_EVICTION_POLICY_SEGMENTED_FIFO" by (rule n)
  have "draw_bucket ht i = i" if "i < 4" for i
    using that n(3) by (simp add: draw_bucket_def unat_mod_distrib)
  then show "covers ht [0, 1, 2, 3]" by (simp add: covers_def n(2) less_Suc_eq numeral_eq_Suc)
  show "card (dom sample_three_store) = 3" by (simp add: sample_three_store_def)
qed

subsection \<open>Unlinking one file\<close>

lemma core_unlinked:
  assumes core: "htable_core XXH64 ht" and u: "unlinked XXH64 ht a f ht2"
  shows "htable_core XXH64 (ht2\<lparr>stats := stats_on_evict f (stats ht)\<rparr>)"
proof -
  from u obtain ass where "htable_rep XXH64 (ht2\<lparr>stats := stats_on_evict f (stats ht)\<rparr>) ass"
    by (auto simp: unlinked_def)
  moreover have "fifo_present (ht2\<lparr>stats := stats_on_evict f (stats ht)\<rparr>)"
  proof -
    have "fifo_present (ht\<lparr>items := items ht2, buckets := buckets ht2\<rparr>)"
      using core by (simp add: htable_core_def fifo_present_def)
    then have "fifo_present ht2" using u by (simp add: unlinked_def)
    then show ?thesis by (simp add: fifo_present_def)
  qed
  ultimately show ?thesis
    using u by (intro core_delete [OF core, of a f])
      (simp_all add: unlinked_def files_at_def fun_eq_iff htable_unlocked_def stats_on_evict_def)
qed

lemma unlink_locked:
  assumes core: "htable_core XXH64 ht" and a: "cells (items ht) a = Some it"
  defines "i \<equiv> htable_bucket_ptr XXH64 ht (key (file it))"
  obtains ht1 where "unlink_item i a (lockb i ht) = Inr ht1" and "cells (items ht1) a = Some it"
    and "unlinked XXH64 ht a (file it) (free_item a (unlock_bucket i ht1))"
proof -
  obtain ht1 ht2 where u: "unlink_item i a (lockb i ht) = Inr ht1"
    "free_item a (unlock_bucket i ht1) = ht2" "cells (items ht1) a = Some it"
    "ht2 = ht\<lparr>items := items ht2, buckets := buckets ht2\<rparr>" "\<exists>ass. htable_rep XXH64 ht2 ass"
    "htable_unlocked ht2" "files_at ht2 = (files_at ht)(a := None)"
    "htable_lookup XXH64 ht2 = (htable_lookup XXH64 ht)(key (file it) := None)"
    using fetched_unlink [OF core a] unfolding i_def by metis
  have n: "length (buckets h) < 2 ^ 64 \<and> buckets_count h = of_nat (length (buckets h))"
    if "\<exists>ass. htable_rep XXH64 h ass" for h
    using that by (auto simp: htable_rep_def)
  have "buckets_count ht2 = buckets_count ht" by (subst u(4)) simp
  then have "unat (of_nat (length (buckets ht2)) :: u64) = unat (of_nat (length (buckets ht)) :: u64)"
    using n [OF u(5)] n [OF core_rep [OF core]] by simp
  then have "length (buckets ht2) = length (buckets ht)"
    using n [OF u(5)] n [OF core_rep [OF core]] by simp
  with u a have "unlinked XXH64 ht a (file it) ht2"
    unfolding unlinked_def by (simp add: files_at_def)
  with u(1,2,3) that show thesis by blast
qed

lemma unlink_take_last:
  assumes core: "htable_core XXH64 ht" and i: "i < length (buckets ht)"
    and last: "last_item (buckets ht ! i) = Some a"
  obtains ht1 it where "take_last i a (lockb i ht) = Inr ht1" and "cells (items ht1) a = Some it"
    and "unlinked XXH64 ht a (file it) (free_item a (unlock_bucket i ht1))"
proof -
  obtain ass where rep: "htable_rep XXH64 ht ass" using core_rep [OF core] by blast
  then have b: "bucket_rep (cells (items ht)) (buckets ht ! i) (ass ! i)"
    and il: "i < length ass" using i by (auto simp: htable_rep_def)
  obtain xs where xs: "ass ! i = xs @ [a]"
    using b last by (cases "ass ! i" rule: rev_cases) (auto simp: bucket_rep_def)
  have "a \<in> dom (cells (items ht))"
    using b dseg_dom unfolding bucket_rep_def xs by fastforce
  then obtain it where a: "cells (items ht) a = Some it" by blast
  have ptr: "htable_bucket_ptr XXH64 ht (key (file it)) = i"
    using rep il xs a by (auto simp: htable_rep_def)
  obtain ht1 where u: "unlink_item i a (lockb i ht) = Inr ht1" "cells (items ht1) a = Some it"
    "unlinked XXH64 ht a (file it) (free_item a (unlock_bucket i ht1))"
    using unlink_locked [OF core a] unfolding ptr by blast
  define it' where "it' = it\<lparr>next_item := None, prev_item := None\<rparr>"
  have bl: "bucket_rep (cells (items (lockb i ht))) (buckets (lockb i ht) ! i) (xs @ [a])"
    using b i unfolding xs by (auto simp: bucket_rep_def lockb_def)
  have "take_last i a (lockb i ht) = Inr (store_item a it' ht1)"
    using take_last_eq [OF bl, of it] a u(1) i by (simp add: it'_def lockb_def [of i ht])
  moreover have "cells (items (store_item a it' ht1)) a = Some it'"
    by (simp add: store_item_def)
  moreover have "free_item a (unlock_bucket i (store_item a it' ht1)) = free_item a (unlock_bucket i ht1)"
    by (simp add: free_item_def unlock_bucket_def store_item_def heap_free_def heap_store_def htable_upd_commute)
  ultimately show thesis using u(3) that by (auto simp: it'_def)
qed

subsection \<open>The segmented policy\<close>

lemma lock_idle_bucket:
  assumes "htable_core XXH64 ht" and "i < length (buckets ht)"
  shows "lock_bucket i ht = Inr (lockb i ht)" and "unlock_bucket i (lockb i ht) = ht"
    and "head (buckets (lockb i ht) ! i) = head (buckets ht ! i)"
    and "last_item (buckets (lockb i ht) ! i) = last_item (buckets ht ! i)"
proof -
  have g: "\<not> guard (buckets ht ! i)"
    using core_unlocked [OF assms(1)] assms(2) by (simp add: htable_unlocked_def)
  with assms(2) show "lock_bucket i ht = Inr (lockb i ht)" "unlock_bucket i (lockb i ht) = ht"
    by (simp add: lock_bucket_def lockb_def, intro unlock_lockb)
  show "head (buckets (lockb i ht) ! i) = head (buckets ht ! i)"
    "last_item (buckets (lockb i ht) ! i) = last_item (buckets ht ! i)"
    using assms(2) by (simp_all add: lockb_def)
qed

lemma draw_bucket_lt:
  assumes "htable_core XXH64 ht"
  shows "draw_bucket ht r < length (buckets ht)"
proof -
  obtain ass where rep: "htable_rep XXH64 ht ass" using core_rep [OF assms] by blast
  have "draw_bucket ht r = htable_bucket_ptr (\<lambda>_. of_nat r) ht []"
    by (simp add: draw_bucket_def htable_bucket_ptr_def)
  also have "\<dots> < length ass"
  proof -
    have n: "0 < length ass" "length ass < 2 ^ 64" "buckets_count ht = of_nat (length ass)"
      using rep by (auto simp: htable_rep_def)
    then have "unat ((of_nat r :: u64) mod buckets_count ht) = unat (of_nat r :: u64) mod length ass"
      by (simp add: unat_mod_distrib)
    with n show ?thesis by (simp add: htable_bucket_ptr_def)
  qed
  finally show ?thesis using rep by (simp add: htable_rep_def)
qed

lemma empty_bucket_head:
  assumes "htable_core XXH64 ht" and "i < length (buckets ht)" and "last_item (buckets ht ! i) = None"
  shows "head (buckets ht ! i) = None"
proof -
  obtain as where b: "bucket_rep (cells (items ht)) (buckets ht ! i) as"
    using core_rep [OF assms(1)] assms(2) by (auto simp: htable_rep_def)
  then have "as = []" using assms(3) by (simp add: bucket_rep_def lastp_def split: if_splits)
  with b show ?thesis by (simp add: bucket_rep_def)
qed

lemma segmented_fifo_loop_finds:
  assumes core: "htable_core XXH64 ht" and n: "items_count (stats ht) \<noteq> 0"
    and "\<exists>r \<in> set ds. last_item (buckets ht ! draw_bucket ht r) \<noteq> None"
  shows "\<exists>i a it ds' ht1. segmented_fifo_loop (ds @ rest) ht = Inr (Some a, ds' @ rest, ht1) \<and>
    last_item (buckets ht ! i) = Some a \<and> cells (items ht1) a = Some it \<and>
    unlinked XXH64 ht a (file it) (free_item a ht1)"
  using assms(3)
proof (induction ds)
  case (Cons r ds)
  let ?i = "draw_bucket ht r"
  have i: "?i < length (buckets ht)" by (rule draw_bucket_lt [OF core])
  note lk = lock_idle_bucket [OF core i]
  have pos: "0 < items_count (stats ht)" using n by (simp add: word_neq_0_conv)
  have step: "segmented_fifo_loop ((r # ds) @ rest) ht =
      (case last_item (buckets ht ! ?i) of
         None \<Rightarrow> bind_result (c_assert (head (buckets ht ! ?i) = None)) (\<lambda>_. segmented_fifo_loop (ds @ rest) ht)
       | Some a \<Rightarrow> bind_result (take_last ?i a (lockb ?i ht)) (\<lambda>ht2. Inr (Some a, ds @ rest, unlock_bucket ?i ht2)))"
    using pos lk
    by (simp add: segmented_fifo_loop.simps [of "r # _"] Let_def draw_bucket_def [symmetric] cong: option.case_cong)
  show ?case
  proof (cases "last_item (buckets ht ! ?i)")
    case None
    with Cons.prems have "\<exists>r \<in> set ds. last_item (buckets ht ! draw_bucket ht r) \<noteq> None" by auto
    from Cons.IH [OF this] show ?thesis
      unfolding step by (simp add: None empty_bucket_head [OF core i None])
  next
    case (Some a)
    obtain ht1 it where "take_last ?i a (lockb ?i ht) = Inr ht1" "cells (items ht1) a = Some it"
      "unlinked XXH64 ht a (file it) (free_item a (unlock_bucket ?i ht1))"
      using unlink_take_last [OF core i Some] by blast
    with Some have "segmented_fifo_loop ((r # ds) @ rest) ht = Inr (Some a, ds @ rest, unlock_bucket ?i ht1) \<and>
        last_item (buckets ht ! ?i) = Some a \<and> cells (items (unlock_bucket ?i ht1)) a = Some it \<and>
        unlinked XXH64 ht a (file it) (free_item a (unlock_bucket ?i ht1))"
      unfolding step by (simp add: unlock_bucket_def)
    then show ?thesis by blast
  qed
qed simp

lemma some_bucket_filled:
  assumes core: "htable_core XXH64 ht" and "dom (cells (items ht)) \<noteq> {}"
  obtains i where "i < length (buckets ht)" and "last_item (buckets ht ! i) \<noteq> None"
proof -
  obtain ass where rep: "htable_rep XXH64 ht ass" using core_rep [OF core] by blast
  then have "set (concat ass) = dom (cells (items ht))" by (simp only: htable_rep_def)
  with assms(2) obtain a where "a \<in> set (concat ass)" by blast
  from in_concat_nth [OF this] obtain i where i: "i < length ass" "a \<in> set (ass ! i)" by blast
  with rep have "bucket_rep (cells (items ht)) (buckets ht ! i) (ass ! i)"
    by (simp add: htable_rep_def)
  with i have "last_item (buckets ht ! i) \<noteq> None" by (auto simp: bucket_rep_def lastp_def)
  with i rep that show thesis by (simp add: htable_rep_def)
qed

lemma items_count_zero:
  assumes "htable_core XXH64 ht" and "card (dom (cells (items ht))) < 2 ^ 64"
  shows "items_count (stats ht) = 0 \<longleftrightarrow> dom (cells (items ht)) = {}"
proof -
  have "finite (dom (cells (items ht)))"
    using core_rep [OF assms(1)] heap_ok_finite by (auto simp: htable_rep_def)
  moreover have "items_count (stats ht) = of_nat (card (dom (cells (items ht))))"
    using assms(1) by (simp add: htable_core_def stats_rep_def)
  ultimately show ?thesis using of_nat_u64_eq_0 [OF assms(2)] by simp
qed

lemma over_limit_nonempty:
  assumes "htable_core XXH64 ht" and "htable_over_limit ht"
  shows "dom (cells (items ht)) \<noteq> {}"
  using assms by (auto simp: htable_core_def stats_rep_def htable_over_limit_def)

lemma evict_one_segmented:
  assumes core: "htable_core XXH64 ht" and pol: "policy ht = CACHE_EVICTION_POLICY_SEGMENTED_FIFO"
    and over: "htable_over_limit ht" and small: "card (dom (cells (items ht))) < 2 ^ 64"
    and cov: "covers ht s"
  shows "\<exists>i a it draws' ht1. htable_evict_one XXH64 (junk @ s @ rest) ht = Inr (Some a, draws' @ rest, ht1) \<and>
    last_item (buckets ht ! i) = Some a \<and> cells (items ht1) a = Some it \<and>
    unlinked XXH64 ht a (file it) (free_item a ht1)"
proof -
  note ne = over_limit_nonempty [OF core over]
  have n: "items_count (stats ht) \<noteq> 0" using items_count_zero [OF core small] ne by simp
  obtain i where "i < length (buckets ht)" "last_item (buckets ht ! i) \<noteq> None"
    using some_bucket_filled [OF core ne] by blast
  moreover from this cov obtain r where "r \<in> set s" "draw_bucket ht r = i" unfolding covers_def by blast
  ultimately have "\<exists>r \<in> set (junk @ s). last_item (buckets ht ! draw_bucket ht r) \<noteq> None" by auto
  from segmented_fifo_loop_finds [OF core n this, of rest] n pol show ?thesis
    by (auto simp: htable_evict_one_def htable_evict_single_file_segmented_fifo_def)
qed


lemma evicts_Nil: "evicts [] m m"
  by (simp add: evicts_def restrict_map_def)

lemma evicts_Cons:
  assumes "m (key f) = Some f" and "evicts ev (m(key f := None)) m'"
  shows "evicts (f # ev) m m'"
proof -
  have k: "key g \<noteq> key f \<and> m (key g) = Some g" if "g \<in> set ev" for g
    using assms(2) that by (cases "key g = key f") (auto simp: evicts_def)
  have "m' = m |` (- key ` set (f # ev))"
    using assms(2) by (auto simp: evicts_def restrict_map_def fun_eq_iff)
  moreover have "key f \<notin> key ` set ev" using k by fastforce
  then have "distinct (map key (f # ev))" using assms(2) by (simp add: evicts_def)
  ultimately show ?thesis using assms(1) k by (simp add: evicts_def)
qed

lemma needed_Cons:
  assumes "htable_over_limit ht" and "needed ht2 ev"
    and "max_items_count ht2 = max_items_count ht" "max_space_in_bytes ht2 = max_space_in_bytes ht"
    and "items_count (stats ht2) = items_count (stats ht) - 1"
    and "total_space_in_bytes (stats ht2) = total_space_in_bytes (stats ht) - length_in_bytes f"
  shows "needed ht (f # ev)"
  unfolding needed_def
proof (intro allI impI)
  fix j assume j: "j < length (f # ev)"
  show "items_count (stats ht) - of_nat j > max_items_count ht \<or>
      total_space_in_bytes (stats ht) - (\<Sum>f \<leftarrow> take j (f # ev). length_in_bytes f) > max_space_in_bytes ht"
  proof (cases j)
    case 0
    with assms(1) show ?thesis by (simp add: htable_over_limit_def)
  next
    case (Suc j')
    have "items_count (stats ht) - 1 - of_nat j' = items_count (stats ht) - of_nat j"
      "total_space_in_bytes (stats ht) - length_in_bytes f - (\<Sum>f \<leftarrow> take j' ev. length_in_bytes f) =
       total_space_in_bytes (stats ht) - (\<Sum>f \<leftarrow> take j (f # ev). length_in_bytes f)"
      by (simp_all add: Suc)
    moreover have "j' < length ev" using j Suc by simp
    ultimately show ?thesis using assms(2-) unfolding needed_def by metis
  qed
qed

lemma evicted_facts:
  assumes u: "unlinked XXH64 ht a f ht2"
  defines "ht3 \<equiv> ht2\<lparr>stats := stats_on_evict f (stats ht)\<rparr>"
  shows "policy ht3 = policy ht" "stats_guard ht3 = stats_guard ht"
    "max_items_count ht3 = max_items_count ht" "max_space_in_bytes ht3 = max_space_in_bytes ht"
    "items_count (stats ht3) = items_count (stats ht) - 1"
    "total_space_in_bytes (stats ht3) = total_space_in_bytes (stats ht) - length_in_bytes f"
    "historical_num_evictions (stats ht3) = historical_num_evictions (stats ht) + 1"
    "covers ht3 ds = covers ht ds" "fifo ht3 = fifo ht"
    "dom (cells (items ht3)) = dom (cells (items ht)) - {a}" "a \<in> dom (cells (items ht))"
    "htable_lookup XXH64 ht3 = (htable_lookup XXH64 ht)(key f := None)"
proof -
  have eq: "ht2 = ht\<lparr>items := items ht2, buckets := buckets ht2\<rparr>"
    and len: "length (buckets ht2) = length (buckets ht)"
    and files: "files_at ht2 = (files_at ht)(a := None)" and a: "files_at ht a = Some f"
    using u by (simp_all add: unlinked_def)
  show "policy ht3 = policy ht" "stats_guard ht3 = stats_guard ht"
    "max_items_count ht3 = max_items_count ht" "max_space_in_bytes ht3 = max_space_in_bytes ht" "fifo ht3 = fifo ht"
    unfolding ht3_def by (subst eq, simp)+
  show "items_count (stats ht3) = items_count (stats ht) - 1"
    "total_space_in_bytes (stats ht3) = total_space_in_bytes (stats ht) - length_in_bytes f"
    "historical_num_evictions (stats ht3) = historical_num_evictions (stats ht) + 1"
    by (simp_all add: ht3_def stats_on_evict_def)
  have "buckets_count ht2 = buckets_count ht" by (subst eq) simp
  then show "covers ht3 ds = covers ht ds"
    using len by (simp add: covers_def draw_bucket_def ht3_def)
  have "dom (files_at ht2) = dom (files_at ht) - {a}" by (simp add: files del: dom_files_at)
  then show "dom (cells (items ht3)) = dom (cells (items ht)) - {a}" by (simp add: ht3_def)
  show "a \<in> dom (cells (items ht))" using domI [of "files_at ht", OF a] by simp
  show "htable_lookup XXH64 ht3 = (htable_lookup XXH64 ht)(key f := None)"
    using u by (simp add: unlinked_def ht3_def)
qed

lemma free_item_stats: "free_item a (ht\<lparr>stats := s\<rparr>) = (free_item a ht)\<lparr>stats := s\<rparr>"
  by (simp add: free_item_def)

lemma unlinked_stats:
  assumes "unlinked XXH64 ht a f (free_item a ht1)"
  shows "stats ht1 = stats ht"
proof -
  have "stats (free_item a ht1) = stats (ht\<lparr>items := items (free_item a ht1), buckets := buckets (free_item a ht1)\<rparr>)"
    using assms by (simp add: unlinked_def)
  then show ?thesis by (simp add: free_item_def)
qed

lemma unlinked_lookup:
  "htable_core XXH64 ht \<Longrightarrow> unlinked XXH64 ht a f ht2 \<Longrightarrow> htable_lookup XXH64 ht (key f) = Some f"
  using core_rep [of XXH64 ht] lookup_files by (auto simp: unlinked_def)

lemma evict_loop_step:
  assumes "htable_over_limit ht" and "htable_evict_one XXH64 draws ht = Inr (Some a, draws', ht1)"
    and "cells (items ht1) a = Some it" and "stats ht1 = stats ht"
  shows "evict_loop (Suc fuel) XXH64 draws ht =
      bind_result (evict_loop fuel XXH64 draws' ((free_item a ht1)\<lparr>stats := stats_on_evict (file it) (stats ht)\<rparr>))
        (\<lambda>(evicted, draws, ht). Inr (file it # evicted, draws, ht))"
  using assms by (simp add: evict_loop.simps [of "Suc fuel"] load_item_def free_item_stats)

lemma evict_loop_segmented:
  assumes "htable_core XXH64 ht" and "policy ht = CACHE_EVICTION_POLICY_SEGMENTED_FIFO"
    and "card (dom (cells (items ht))) < 2 ^ 64" and "card (dom (cells (items ht))) \<le> fuel"
    and "card (dom (cells (items ht))) \<le> length segs" and "\<forall>s \<in> set segs. covers ht s"
  shows "\<exists>ev draws' ht'. evict_loop fuel XXH64 (junk @ concat segs) ht = Inr (ev, draws', ht') \<and>
    htable_core XXH64 ht' \<and> \<not> htable_over_limit ht' \<and> stats_guard ht' = stats_guard ht \<and>
    evicts ev (htable_lookup XXH64 ht) (htable_lookup XXH64 ht') \<and> needed ht ev \<and>
    historical_num_evictions (stats ht') = historical_num_evictions (stats ht) + of_nat (length ev) \<and>
    max_items_count ht' = max_items_count ht"
  using assms
proof (induction segs arbitrary: fuel ht junk)
  case Nil
  have "finite (dom (cells (items ht)))"
    using core_rep [OF Nil.prems(1)] heap_ok_finite by (auto simp: htable_rep_def)
  with Nil.prems have "dom (cells (items ht)) = {}" by simp
  with over_limit_nonempty [OF Nil.prems(1)] have "\<not> htable_over_limit ht" by blast
  with Nil.prems(1) show ?case by (simp add: evict_loop.simps evicts_Nil needed_def)
next
  case (Cons s segs)
  note core = Cons.prems(1)
  show ?case
  proof (cases "htable_over_limit ht")
    case False
    with core show ?thesis by (simp add: evict_loop.simps evicts_Nil needed_def)
  next
    case True
    obtain a it draws' ht1 where
      one: "htable_evict_one XXH64 (junk @ s @ concat segs) ht = Inr (Some a, draws' @ concat segs, ht1)"
      and it: "cells (items ht1) a = Some it" and u: "unlinked XXH64 ht a (file it) (free_item a ht1)"
      using evict_one_segmented [OF core Cons.prems(2) True Cons.prems(3), of s junk "concat segs"] Cons.prems(6)
      by auto
    let ?ht = "(free_item a ht1)\<lparr>stats := stats_on_evict (file it) (stats ht)\<rparr>"
    note ef = evicted_facts [OF u]
    note st = evict_loop_step [OF True one it unlinked_stats [OF u]]
    have fin: "finite (dom (cells (items ht)))"
      using core_rep [OF core] heap_ok_finite by (auto simp: htable_rep_def)
    have card: "card (dom (cells (items ht))) = Suc (card (dom (cells (items ?ht))))"
      unfolding ef(10) by (rule card_Suc_Diff1 [OF fin ef(11), symmetric])
    with Cons.prems(4) obtain fuel' where fuel: "fuel = Suc fuel'" by (cases fuel) auto
    obtain ev draws2 ht' where ih: "evict_loop fuel' XXH64 (draws' @ concat segs) ?ht = Inr (ev, draws2, ht')"
      "htable_core XXH64 ht'" "\<not> htable_over_limit ht'" "stats_guard ht' = stats_guard ?ht"
      "evicts ev (htable_lookup XXH64 ?ht) (htable_lookup XXH64 ht')" "needed ?ht ev"
      "historical_num_evictions (stats ht') = historical_num_evictions (stats ?ht) + of_nat (length ev)"
      "max_items_count ht' = max_items_count ?ht"
      using Cons.IH [OF core_unlinked [OF core u], of fuel' draws'] Cons.prems(2-) card fuel ef(1,8) by auto
    have "evict_loop fuel XXH64 (junk @ concat (s # segs)) ht = Inr (file it # ev, draws2, ht')"
      using st [of fuel'] ih(1) by (simp add: fuel)
    moreover have "evicts (file it # ev) (htable_lookup XXH64 ht) (htable_lookup XXH64 ht')"
      using evicts_Cons [of "htable_lookup XXH64 ht", OF unlinked_lookup [OF core u]] ih(5) unfolding ef(12) by blast
    moreover have "needed ht (file it # ev)"
      by (rule needed_Cons [OF True ih(6) ef(3,4,5,6)])
    ultimately show ?thesis using ih ef(2,3,7) by auto
  qed
qed

text \<open>The invariant between operations is the one inside the loop, with the mutex released.\<close>

lemma core_stats_guard [simp]: "htable_core XXH64 (ht\<lparr>stats_guard := g\<rparr>) = htable_core XXH64 ht"
  by (simp add: htable_core_def htable_unlocked_def stats_rep_def live_files_def fifo_present_def)

lemma over_limit_guard [simp]: "htable_over_limit (ht\<lparr>stats_guard := g\<rparr>) = htable_over_limit ht"
  by (simp add: htable_over_limit_def)

lemma evict_fuel_enough:
  assumes "htable_core XXH64 ht"
  shows "card (dom (cells (items ht))) \<le> Suc (brk (items ht))"
proof -
  have "dom (cells (items ht)) \<subseteq> {..<brk (items ht)}"
    using core_rep [OF assms] by (auto simp: htable_rep_def heap_ok_def)
  then have "card (dom (cells (items ht))) \<le> card {..<brk (items ht)}" by (intro card_mono) auto
  then show ?thesis by simp
qed

lemma lookup_card:
  assumes "htable_core XXH64 ht"
  shows "card (dom (htable_lookup XXH64 ht)) = card (dom (cells (items ht)))"
proof -
  obtain ass where rep: "htable_rep XXH64 ht ass" using core_rep [OF assms] by blast
  let ?g = "\<lambda>a. key (the (files_at ht a))"
  have inj: "inj_on ?g (dom (files_at ht))"
  proof (rule inj_onI)
    fix a c assume "a \<in> dom (files_at ht)" "c \<in> dom (files_at ht)" "?g a = ?g c"
    then obtain f g where "files_at ht a = Some f" "files_at ht c = Some g" "key f = key g"
      by (auto simp del: dom_files_at)
    then show "a = c" by (rule rep_key_unique [OF rep])
  qed
  have "dom (htable_lookup XXH64 ht) = ?g ` dom (files_at ht)"
  proof (rule set_eqI)
    fix k
    have "k \<in> dom (htable_lookup XXH64 ht) \<longleftrightarrow> (\<exists>a f. files_at ht a = Some f \<and> key f = k)"
      unfolding dom_def using lookup_files [OF rep] by auto
    also have "\<dots> \<longleftrightarrow> k \<in> ?g ` dom (files_at ht)"
      by (auto simp: image_iff dom_def simp del: dom_files_at) force
    finally show "k \<in> dom (htable_lookup XXH64 ht) \<longleftrightarrow> k \<in> ?g ` dom (files_at ht)" .
  qed
  then show ?thesis using card_image [OF inj] by simp
qed

lemma within_items_limit:
  assumes core: "htable_core XXH64 ht" and small: "card (dom (htable_lookup XXH64 ht)) < 2 ^ 64"
    and lim: "\<not> htable_over_limit ht"
  shows "card (dom (htable_lookup XXH64 ht)) \<le> unat (max_items_count ht)"
proof -
  have "items_count (stats ht) = of_nat (card (dom (htable_lookup XXH64 ht)))"
    using core unfolding lookup_card [OF core] by (simp add: htable_core_def stats_rep_def)
  moreover have "items_count (stats ht) \<le> max_items_count ht" using lim by (simp add: htable_over_limit_def not_less)
  ultimately show ?thesis using unat_of_nat_u64 [OF small] by (simp add: word_le_nat_alt)
qed

lemma evicts_card: "finite (dom m) \<Longrightarrow> evicts ev m m' \<Longrightarrow> card (dom m') \<le> card (dom m)"
  by (intro card_mono) (auto simp: evicts_def)

lemma finite_lookup: "htable_core XXH64 ht \<Longrightarrow> finite (dom (htable_lookup XXH64 ht))"
proof -
  assume core: "htable_core XXH64 ht"
  obtain ass where rep: "htable_rep XXH64 ht ass" using core_rep [OF core] by blast
  have "dom (htable_lookup XXH64 ht) \<subseteq> (\<lambda>a. key (the (files_at ht a))) ` dom (files_at ht)"
    using lookup_files [OF rep] by (force simp: dom_def image_iff simp del: dom_files_at)
  then show ?thesis using finite_files_at [OF rep] by (rule finite_surj [rotated])
qed

lemma evict_files_segmented:
  assumes inv: "htable_inv XXH64 ht" and pol: "policy ht = CACHE_EVICTION_POLICY_SEGMENTED_FIFO"
    and small: "card (dom (htable_lookup XXH64 ht)) < 2 ^ 64"
    and segs: "card (dom (htable_lookup XXH64 ht)) \<le> length segs" "\<forall>s \<in> set segs. covers ht s"
  shows "\<exists>ev draws' ht'. htable_evict_files XXH64 (concat segs) ht = Inr (HTABLE_ERR_OK, ev, draws', ht') \<and>
    evicted_ok XXH64 ht (htable_lookup XXH64 ht) ev ht' \<and> needed ht ev \<and>
    historical_num_evictions (stats ht') = historical_num_evictions (stats ht) + of_nat (length ev)"
proof -
  note core = inv_core [OF inv]
  let ?ht = "ht\<lparr>stats_guard := True\<rparr>"
  have cov: "covers ?ht s = covers ht s" for s by (simp add: covers_def draw_bucket_def)
  have need: "needed ?ht ev = needed ht ev" for ev by (simp add: needed_def)
  have "\<exists>ev draws' ht'. evict_loop (Suc (brk (items ht))) XXH64 ([] @ concat segs) ?ht = Inr (ev, draws', ht') \<and>
    htable_core XXH64 ht' \<and> \<not> htable_over_limit ht' \<and> stats_guard ht' = stats_guard ?ht \<and>
    evicts ev (htable_lookup XXH64 ?ht) (htable_lookup XXH64 ht') \<and> needed ?ht ev \<and>
    historical_num_evictions (stats ht') = historical_num_evictions (stats ?ht) + of_nat (length ev) \<and>
    max_items_count ht' = max_items_count ?ht"
    using core pol small segs evict_fuel_enough [OF core] unfolding lookup_card [OF core]
    by (intro evict_loop_segmented) (simp_all add: cov)
  then obtain ev draws' ht' where r: "evict_loop (Suc (brk (items ht))) XXH64 (concat segs) ?ht = Inr (ev, draws', ht')"
    "htable_core XXH64 ht'" "\<not> htable_over_limit ht'"
    "evicts ev (htable_lookup XXH64 ht) (htable_lookup XXH64 ht')" "needed ht ev"
    "historical_num_evictions (stats ht') = historical_num_evictions (stats ht) + of_nat (length ev)"
    "max_items_count ht' = max_items_count ht"
    by (auto simp: need)
  let ?ht' = "ht'\<lparr>stats_guard := False\<rparr>"
  have "htable_evict_files XXH64 (concat segs) ht = Inr (HTABLE_ERR_OK, ev, draws', ?ht')"
    using r(1) inv_stats_idle [OF inv]
    by (simp add: htable_evict_files_def htable_stats_lock_def htable_stats_unlock_def)
  moreover have "card (dom (htable_lookup XXH64 ht')) < 2 ^ 64"
    using evicts_card [OF finite_lookup [OF core] r(4)] small by (rule le_less_trans)
  then have "card (dom (htable_lookup XXH64 ht')) \<le> unat (max_items_count ht)"
    using within_items_limit [OF r(2) _ r(3)] r(7) by simp
  then have "evicted_ok XXH64 ht (htable_lookup XXH64 ht) ev ?ht'"
    using r by (simp add: evicted_ok_def htable_inv_def)
  ultimately show ?thesis using r(5,6) by auto
qed

subsection \<open>Writing\<close>

lemma stats_on_write_sel [simp]:
  "items_count (stats_on_write new old s) = items_count s"
  "total_space_in_bytes (stats_on_write new old s) = total_space_in_bytes s + new - old"
  by (simp_all add: stats_on_write_def Let_def)

lemma put_contents_sel [simp]:
  "key (put_contents d f) = key f" "length_in_bytes (put_contents d f) = of_nat (length d)"
  "contents (put_contents d f) = Some d"
  by (simp_all add: put_contents_def)

text \<open>Storing new bytes in a file and accounting for them, before any eviction.\<close>

lemma put_file:
  assumes inv: "htable_inv XXH64 ht" and a: "cells (items ht) a = Some it"
    and small: "length data < 2 ^ 64" and d: "new - old = of_nat (length data) - length_in_bytes (file it)"
  defines "ht1 \<equiv> (set_file a (put_contents data (file it)) ht)\<lparr>stats := stats_on_write new old (stats ht)\<rparr>"
  shows "htable_inv XXH64 ht1"
    and "htable_lookup XXH64 ht1 = (htable_lookup XXH64 ht)(key (file it) \<mapsto> put_contents data (file it))"
    and "policy ht1 = policy ht" and "max_items_count ht1 = max_items_count ht" and "covers ht1 s = covers ht s"
    and "htable_over_limit ht1 \<longleftrightarrow> items_count (stats ht) > max_items_count ht \<or>
      total_space_in_bytes (stats ht) + new - old > max_space_in_bytes ht"
proof -
  note core = inv_core [OF inv]
  have "file_ok (put_contents data (file it))" using small by (simp add: file_ok_def)
  moreover have "total_space_in_bytes (stats_on_write new old (stats ht)) =
      total_space_in_bytes (stats ht) + length_in_bytes (put_contents data (file it)) - length_in_bytes (file it)"
    using d by (simp add: add_diff_eq [symmetric] del: add_diff_eq)
  ultimately have "htable_core XXH64 ht1"
    unfolding ht1_def by (intro core_set_file [OF core a]) simp_all
  then show "htable_inv XXH64 ht1" using inv by (simp add: htable_inv_def ht1_def)
  obtain ass where "htable_rep XXH64 ht ass" using core_rep [OF core] by blast
  from lookup_set_file [OF this a, of "put_contents data (file it)"]
  show "htable_lookup XXH64 ht1 = (htable_lookup XXH64 ht)(key (file it) \<mapsto> put_contents data (file it))"
    by (simp add: ht1_def)
  show "policy ht1 = policy ht" "max_items_count ht1 = max_items_count ht" "covers ht1 s = covers ht s"
    by (simp_all add: ht1_def set_file_def covers_def draw_bucket_def)
  show "htable_over_limit ht1 \<longleftrightarrow> items_count (stats ht) > max_items_count ht \<or>
      total_space_in_bytes (stats ht) + new - old > max_space_in_bytes ht"
    by (simp add: ht1_def set_file_def htable_over_limit_def)
qed

lemma xrealloc_length:
  "xrealloc buf sz = Inr blk \<Longrightarrow> length blk = unat sz"
  by (auto simp: xrealloc_def split: option.splits if_splits)

lemma xrealloc_ok: "buf = None \<or> sz \<noteq> 0 \<Longrightarrow> \<exists>blk. xrealloc buf sz = Inr blk"
  by (auto simp: xrealloc_def split: option.splits)

lemma replace_stores:
  assumes inv: "htable_inv XXH64 ht" and k: "htable_lookup XXH64 ht k = Some f"
    and small: "length data < 2 ^ 64" and ne: "contents f = None \<or> data \<noteq> []"
  obtains ht1 where "htable_replace_file_contents XXH64 draws ht k data = htable_evict_files XXH64 draws ht1"
    and "htable_inv XXH64 ht1" and "htable_lookup XXH64 ht1 = (htable_lookup XXH64 ht)(k \<mapsto> put_contents data f)"
    and "policy ht1 = policy ht" and "max_items_count ht1 = max_items_count ht" and "\<And>s. covers ht1 s = covers ht s"
    and "htable_over_limit ht1 \<longleftrightarrow> items_count (stats ht) > max_items_count ht \<or>
      total_space_in_bytes (stats ht) + of_nat (length data) - length_in_bytes f > max_space_in_bytes ht"
proof (cases rule: core_fetch_cases [OF inv_core [OF inv], of k, case_names missing found])
  case missing
  with k show thesis by simp
next
  case (found a it)
  have f: "file it = f" using found(3) k by simp
  let ?sz = "of_nat (length data) :: u64"
  have "?sz \<noteq> 0 \<or> contents f = None" using ne of_nat_u64_eq_0 [OF small] by auto
  then obtain blk where blk: "xrealloc (contents f) ?sz = Inr blk" using xrealloc_ok by blast
  then have "length blk = length data" using xrealloc_length small by fastforce
  then have put: "f\<lparr>length_in_bytes := ?sz, contents := Some (data @ drop (length data) blk)\<rparr> = put_contents data f"
    by (simp add: put_contents_def)
  have kf: "key f = k" using found(2) f by simp
  have res: "htable_replace_file_contents XXH64 draws ht k data =
      htable_evict_files XXH64 draws
        ((set_file a (put_contents data f) ht)\<lparr>stats := stats_on_write ?sz (length_in_bytes f) (stats ht)\<rparr>)"
    using found inv blk inv_stats_idle [OF inv]
    by (simp add: htable_replace_file_contents_def fetched f put)
  note pf = put_file [OF inv found(1) small, of ?sz "length_in_bytes f", unfolded f kf]
  show thesis by (rule that [OF res pf]) simp_all
qed

lemma replace_empty_exits:
  assumes inv: "htable_inv XXH64 ht" and k: "htable_lookup XXH64 ht k = Some f" and c: "contents f = Some blk"
  shows "htable_replace_file_contents XXH64 draws ht k [] = Inl Exit_Failure"
proof (cases rule: core_fetch_cases [OF inv_core [OF inv], of k, case_names missing found])
  case missing
  with k show ?thesis by simp
next
  case (found a it)
  then have "file it = f" using k by simp
  with found c show ?thesis by (simp add: htable_replace_file_contents_def fetched xrealloc_def)
qed

lemma append_stores:
  assumes inv: "htable_inv XXH64 ht" and k: "htable_lookup XXH64 ht k = Some f"
    and small: "length (content_bytes f @ data) < 2 ^ 64" and ne: "contents f = None \<or> content_bytes f @ data \<noteq> []"
  obtains ht1 where "htable_append_to_file_contents XXH64 draws ht k data = htable_evict_files XXH64 draws ht1"
    and "htable_inv XXH64 ht1"
    and "htable_lookup XXH64 ht1 = (htable_lookup XXH64 ht)(k \<mapsto> put_contents (content_bytes f @ data) f)"
    and "policy ht1 = policy ht" and "max_items_count ht1 = max_items_count ht" and "\<And>s. covers ht1 s = covers ht s"
proof (cases rule: core_fetch_cases [OF inv_core [OF inv], of k, case_names missing found])
  case missing
  with k show thesis by simp
next
  case (found a it)
  have f: "file it = f" using found(3) k by simp
  let ?old = "content_bytes f" and ?sz = "of_nat (length data) :: u64"
  have "unat (length_in_bytes f) = length ?old"
    using core_file_ok [OF inv_core [OF inv] found(1)] f by (auto simp: file_ok_def content_bytes_def split: option.splits)
  moreover have "of_nat (unat (length_in_bytes f)) = length_in_bytes f" by simp
  ultimately have len: "length_in_bytes f = of_nat (length ?old)" by simp
  then have new: "length_in_bytes f + ?sz = of_nat (length (?old @ data))" by simp
  have "contents f = None \<or> (of_nat (length (?old @ data)) :: u64) \<noteq> 0"
    using ne of_nat_u64_eq_0 [OF small] by auto
  then obtain blk where blk: "xrealloc (contents f) (of_nat (length (?old @ data))) = Inr blk" using xrealloc_ok by blast
  have bl: "length blk = length (?old @ data)" using xrealloc_length [OF blk] unat_of_nat_u64 [OF small] by (simp only:)
  have pre: "take (length ?old) blk = ?old"
  proof (cases "contents f")
    case (Some old)
    then have "unat (of_nat (length old + length data) :: u64) = length old + length data"
      using unat_of_nat_u64 [OF small] by (simp add: content_bytes_def)
    with Some blk show ?thesis
      by (auto simp: xrealloc_def content_bytes_def simp del: of_nat_add split: if_splits)
  qed (simp add: content_bytes_def)
  have off: "unat (length_in_bytes f) = length ?old" using len small by simp
  have blk2: "xrealloc (contents f) (length_in_bytes f + ?sz) = Inr blk" using blk by (simp add: new)
  have fits: "\<not> length blk < length ?old + length data" using bl by simp
  have put: "f\<lparr>length_in_bytes := length_in_bytes f + ?sz,
      contents := Some (take (length ?old) blk @ data @ drop (length ?old + length data) blk)\<rparr> = put_contents (?old @ data) f"
    using bl by (simp add: put_contents_def new pre)
  have kf: "key f = k" using found(2) f by simp
  have res: "htable_append_to_file_contents XXH64 draws ht k data =
      htable_evict_files XXH64 draws
        ((set_file a (put_contents (?old @ data) f) ht)\<lparr>stats := stats_on_write ?sz 0 (stats ht)\<rparr>)"
    using found inv inv_stats_idle [OF inv]
    by (simp add: htable_append_to_file_contents_def fetched f blk2 off fits put)
  note pf = put_file [OF inv found(1) small, of ?sz 0, unfolded f kf]
  show thesis by (rule that [OF res pf(1-5)]) (simp_all add: len)
qed


subsection \<open>The FIFO policy\<close>

lemma fifo_add_keeps_last:
  assumes "fifo_last ff = Some l" and "cells (fifo_items ff) l = Some it" and "l < brk (fifo_items ff)"
  shows "fifo_last (fold (\<lambda>k ff. fifo_add_file ff k) ks ff) = Some l \<and>
    cells (fifo_items (fold (\<lambda>k ff. fifo_add_file ff k) ks ff)) l = Some it"
  using assms by (induction ks arbitrary: ff) (simp_all add: fifo_add_file_def heap_alloc_def)

lemma fifo_of_evict:
  obtains ff where "fifo_evict (fifo_of (k0 # ks)) = Inr (Some k0, ff)" and "fifo_last ff = None"
proof -
  let ?ff = "fifo_add_file fifo_create k0"
  have "fifo_last ?ff = Some 0" "cells (fifo_items ?ff) 0 = Some \<lparr>fifo_key = k0, fifo_prev = None\<rparr>"
    "0 < brk (fifo_items ?ff)"
    by (simp_all add: fifo_add_file_def fifo_create_def heap_alloc_def heap_empty_def)
  from fifo_add_keeps_last [OF this, of ks] show thesis
    using that by (auto simp: fifo_evict_def fifo_of_def)
qed

lemma core_fifo: "htable_core XXH64 ht \<Longrightarrow> htable_core XXH64 (ht\<lparr>fifo := Some ff\<rparr>)"
  by (simp add: htable_core_def htable_unlocked_def stats_rep_def live_files_def fifo_present_def)

lemma evict_one_fifo:
  assumes core: "htable_core XXH64 ht" and pol: "policy ht = CACHE_EVICTION_POLICY_FIFO"
    and ff: "fifo ht = Some (fifo_of (k0 # ks))" and k: "htable_lookup XXH64 ht k0 = Some f"
  obtains a it ff' ht1 where "htable_evict_one XXH64 draws ht = Inr (Some a, draws, ht1)"
    and "cells (items ht1) a = Some it" and "file it = f" and "fifo_last ff' = None"
    and "unlinked XXH64 (ht\<lparr>fifo := Some ff'\<rparr>) a f (free_item a ht1)"
proof -
  obtain ff' where ev: "fifo_evict (fifo_of (k0 # ks)) = Inr (Some k0, ff')" and last: "fifo_last ff' = None"
    using fifo_of_evict by blast
  let ?ht = "ht\<lparr>fifo := Some ff'\<rparr>" and ?i = "htable_bucket_ptr XXH64 ht k0"
  note core' = core_fifo [OF core, of ff']
  show thesis
  proof (cases rule: core_fetch_cases [OF core', of k0, case_names missing found])
    case missing
    with k show thesis by simp
  next
    case (found a it)
    then have f: "file it = f" "key f = k0" using k by auto
    obtain ht1 where u: "unlink_item ?i a (lockb ?i ?ht) = Inr ht1" "cells (items ht1) a = Some it"
      "unlinked XXH64 ?ht a f (free_item a (unlock_bucket ?i ht1))"
      using unlink_locked [OF core' found(1)] by (auto simp: f)
    have "htable_evict_one XXH64 draws ht = Inr (Some a, draws, unlock_bucket ?i ht1)"
      using pol ff ev found(4) u(1)
      by (simp add: htable_evict_one_def htable_evict_single_file_fifo_def Let_def)
    then show thesis
      using that [of a "unlock_bucket ?i ht1" it ff'] u(2,3) f(1) last by (simp add: unlock_bucket_def)
  qed
qed

lemma evict_loop_fifo_empty:
  assumes "policy ht = CACHE_EVICTION_POLICY_FIFO" and "fifo ht = Some ff" and "fifo_last ff = None"
    and "htable_over_limit ht"
  shows "evict_loop (Suc fuel) XXH64 draws ht = Inl Null_Deref"
  using assms
  by (simp add: evict_loop.simps htable_evict_one_def htable_evict_single_file_fifo_def fifo_evict_def)

lemma evict_files_fifo:
  assumes inv: "htable_inv XXH64 ht" and pol: "policy ht = CACHE_EVICTION_POLICY_FIFO"
    and ff: "fifo ht = Some (fifo_of (k0 # ks))" and k: "htable_lookup XXH64 ht k0 = Some f"
    and over: "htable_over_limit ht"
  shows "if items_count (stats ht) - 1 > max_items_count ht \<or>
            total_space_in_bytes (stats ht) - length_in_bytes f > max_space_in_bytes ht
         then htable_evict_files XXH64 draws ht = Inl Null_Deref
         else \<exists>ht'. htable_evict_files XXH64 draws ht = Inr (HTABLE_ERR_OK, [f], draws, ht') \<and>
                htable_inv XXH64 ht' \<and> htable_lookup XXH64 ht' = (htable_lookup XXH64 ht)(k0 := None)"
proof -
  let ?ht = "ht\<lparr>stats_guard := True\<rparr>"
  have core: "htable_core XXH64 ?ht" using inv_core [OF inv] by simp
  have pre: "policy ?ht = CACHE_EVICTION_POLICY_FIFO" "fifo ?ht = Some (fifo_of (k0 # ks))"
    "htable_lookup XXH64 ?ht k0 = Some f" using pol ff k by simp_all
  obtain a it ff' ht1 where one: "htable_evict_one XXH64 draws ?ht = Inr (Some a, draws, ht1)"
    and it: "cells (items ht1) a = Some it" "file it = f" and last: "fifo_last ff' = None"
    and u: "unlinked XXH64 (?ht\<lparr>fifo := Some ff'\<rparr>) a f (free_item a ht1)"
    by (rule evict_one_fifo [OF core pre])
  let ?ht3 = "(free_item a ht1)\<lparr>stats := stats_on_evict f (stats ht)\<rparr>"
  note ef = evicted_facts [OF u]
  have kf: "key f = k0"
    using k core_rep [OF core] lookup_files [of XXH64 ?ht] by auto
  have "a < brk (items ht)" using ef(11) core_rep [OF core] by (auto simp: htable_rep_def heap_ok_def)
  then obtain fuel where fuel: "brk (items ht) = Suc fuel" by (cases "brk (items ht)") auto
  have over': "htable_over_limit ?ht3 \<longleftrightarrow> items_count (stats ht) - 1 > max_items_count ht \<or>
      total_space_in_bytes (stats ht) - length_in_bytes f > max_space_in_bytes ht"
    using ef by (simp add: htable_over_limit_def)
  have step: "evict_loop (Suc (brk (items ht))) XXH64 draws ?ht =
      bind_result (evict_loop (Suc fuel) XXH64 draws ?ht3) (\<lambda>(evicted, draws, ht). Inr (f # evicted, draws, ht))"
    using evict_loop_step [OF _ one it(1), of "Suc fuel"] over unlinked_stats [OF u] it(2) by (simp add: fuel)
  have core3: "htable_core XXH64 ?ht3"
    using core_unlinked [OF core_fifo [OF core] u] by simp
  note simps = htable_evict_files_def htable_stats_lock_def htable_stats_unlock_def inv_stats_idle [OF inv] step
  show ?thesis
  proof (cases "htable_over_limit ?ht3")
    case True
    have "evict_loop (Suc fuel) XXH64 draws ?ht3 = Inl Null_Deref"
      using ef(1,9) pol last True by (intro evict_loop_fifo_empty) simp_all
    then have "htable_evict_files XXH64 draws ht = Inl Null_Deref" by (simp add: simps)
    with True over' show ?thesis by simp
  next
    case False
    then have "htable_evict_files XXH64 draws ht = Inr (HTABLE_ERR_OK, [f], draws, ?ht3\<lparr>stats_guard := False\<rparr>)"
      by (simp add: simps evict_loop.simps [of "Suc fuel"])
    moreover have "htable_inv XXH64 (?ht3\<lparr>stats_guard := False\<rparr>)" using core3 by (simp add: htable_inv_def)
    moreover have "htable_lookup XXH64 (?ht3\<lparr>stats_guard := False\<rparr>) = (htable_lookup XXH64 ht)(k0 := None)"
      using ef(12) kf by simp
    ultimately have "\<exists>ht'. htable_evict_files XXH64 draws ht = Inr (HTABLE_ERR_OK, [f], draws, ht') \<and>
        htable_inv XXH64 ht' \<and> htable_lookup XXH64 ht' = (htable_lookup XXH64 ht)(k0 := None)" by blast
    with False over' show ?thesis by simp
  qed
qed


lemma evict_nothing:
  assumes "htable_inv XXH64 ht" and "\<not> htable_over_limit ht"
  shows "htable_evict_files XXH64 ds ht = Inr (HTABLE_ERR_OK, [], ds, ht)"
proof -
  have "htable_stats_unlock (ht\<lparr>stats_guard := True\<rparr>) = ht"
    using inv_stats_idle [OF assms(1)] by (cases ht) (simp add: htable_stats_unlock_def)
  then show ?thesis
    using assms inv_stats_idle [OF assms(1)]
    by (simp add: htable_evict_files_def htable_stats_lock_def evict_loop.simps [of "Suc _"])
qed

lemma evict_after_write:
  assumes "htable_inv XXH64 ht1" and "policy ht1 = CACHE_EVICTION_POLICY_SEGMENTED_FIFO"
    and "htable_lookup XXH64 ht1 = (htable_lookup XXH64 ht)(k \<mapsto> g)" and "htable_lookup XXH64 ht k = Some f"
    and "max_items_count ht1 = max_items_count ht" and "\<And>s. covers ht1 s = covers ht s"
    and "card (dom (htable_lookup XXH64 ht)) < 2 ^ 64"
    and "card (dom (htable_lookup XXH64 ht)) \<le> length segs" and "\<forall>s \<in> set segs. covers ht s"
  shows "\<exists>ev draws' ht'. htable_evict_files XXH64 (concat segs) ht1 = Inr (HTABLE_ERR_OK, ev, draws', ht') \<and>
    evicted_ok XXH64 ht ((htable_lookup XXH64 ht)(k \<mapsto> g)) ev ht'"
proof -
  have "dom (htable_lookup XXH64 ht1) = dom (htable_lookup XXH64 ht)" using assms(3,4) by auto
  with assms have "\<exists>ev draws' ht'. htable_evict_files XXH64 (concat segs) ht1 = Inr (HTABLE_ERR_OK, ev, draws', ht') \<and>
      evicted_ok XXH64 ht1 (htable_lookup XXH64 ht1) ev ht' \<and> needed ht1 ev \<and>
      historical_num_evictions (stats ht') = historical_num_evictions (stats ht1) + of_nat (length ev)"
    by (intro evict_files_segmented) simp_all
  then show ?thesis using assms(3,5) by (auto simp: evicted_ok_def)
qed

text \<open>Creating files fills the queue in the order of creation.\<close>

lemma create_fifo:
  assumes inv: "htable_inv XXH64 ht" and none: "htable_lookup XXH64 ht k = None"
    and pol: "policy ht = CACHE_EVICTION_POLICY_FIFO" and ff: "fifo ht = Some ff"
    and c: "htable_create_file XXH64 ht k fd lock = Inr (e, ht')"
  shows "policy ht' = CACHE_EVICTION_POLICY_FIFO" and "fifo ht' = Some (fifo_add_file ff k)"
proof -
  let ?f = "new_file k fd lock"
  obtain ass where rep: "htable_rep XXH64 ht ass" using core_rep [OF inv_core [OF inv]] by blast
  have kf: "key ?f = k" by (simp add: new_file_def)
  obtain hp b' where ins: "insert_item (htable_bucket_ptr XXH64 ht k) ?f ht =
      Inr (ht\<lparr>items := hp, buckets := (buckets ht)[htable_bucket_ptr XXH64 ht k := b']\<rparr>)"
    using insert_item_rep [OF rep core_unlocked [OF inv_core [OF inv]], of ?f] none kf by metis
  have "htable_fetch_item XXH64 ht k = Inr (None, ht)"
    using none by (cases rule: core_fetch_cases [OF inv_core [OF inv], of k]) auto
  then show "policy ht' = CACHE_EVICTION_POLICY_FIFO" "fifo ht' = Some (fifo_add_file ff k)"
    using c ins pol ff inv_stats_idle [OF inv]
    by (auto simp: htable_create_file_def htable_stats_lock_def htable_stats_unlock_def htable_fifo_add_def)
qed

lemma creates_fifo:
  assumes "htable_inv XXH64 ht" and "policy ht = CACHE_EVICTION_POLICY_FIFO" and "fifo ht = Some ff"
    and "distinct ks" and "\<forall>k \<in> set ks. htable_lookup XXH64 ht k = None"
    and "run (htable_exec XXH64) (map (\<lambda>k. Create k fd l) ks) ht = Inr (rs, ht')"
  shows "policy ht' = CACHE_EVICTION_POLICY_FIFO \<and> fifo ht' = Some (fold (\<lambda>k ff. fifo_add_file ff k) ks ff)"
  using assms
proof (induction ks arbitrary: ht ff rs)
  case (Cons k ks)
  have none: "htable_lookup XXH64 ht k = None" using Cons.prems(5) by simp
  obtain r ht1 rs1 where s: "htable_exec XXH64 (Create k fd l) ht = Inr (r, ht1)"
    and rest: "run (htable_exec XXH64) (map (\<lambda>k. Create k fd l) ks) ht1 = Inr (rs1, ht')"
    using Cons.prems(6) by (auto simp: bind_result_eq_Inr)
  have m: "htable_inv XXH64 ht1" "htable_lookup XXH64 ht1 = (htable_lookup XXH64 ht)(k \<mapsto> new_file k fd l)"
    using htable_exec_refines [OF Cons.prems(1), of "Create k fd l"] s none
    by (auto simp: refines_def as_reply_def spec_create_def)
  obtain e where "htable_create_file XXH64 ht k fd l = Inr (e, ht1)"
    using s by (auto simp: as_reply_def htable_open_or_create_file_def bind_result_eq_Inr)
  note cf = create_fifo [OF Cons.prems(1) none Cons.prems(2,3) this]
  have "\<forall>k \<in> set ks. htable_lookup XXH64 ht1 k = None" using Cons.prems(4,5) by (auto simp: m(2))
  then show ?case using Cons.IH [OF m(1) cf _ _ rest] Cons.prems(4) by simp
qed simp

lemma sample_three_fifo:
  assumes "sample_table CACHE_EVICTION_POLICY_FIFO sample_three = Inr (rs, ht)"
  shows "policy ht = CACHE_EVICTION_POLICY_FIFO" and "fifo ht = Some (fifo_of [[97], [98], [99]])"
proof -
  obtain ht0 where h: "htable_create 4 (sample_config CACHE_EVICTION_POLICY_FIFO) = Inr ht0"
    "htable_inv (\<lambda>_. 0) ht0" "htable_lookup (\<lambda>_. 0) ht0 = Map.empty"
    using htable_create_inv [of 4 "sample_config CACHE_EVICTION_POLICY_FIFO" "\<lambda>_. 0"] by auto
  have "policy ht0 = CACHE_EVICTION_POLICY_FIFO" "fifo ht0 = Some fifo_create"
    using h(1) by (auto simp: htable_create_def sample_config_def)
  moreover have "run (htable_exec (\<lambda>_. 0)) (map (\<lambda>k. Create k 3 True) [[97], [98], [99]]) ht0 = Inr (rs, ht)"
    using assms h(1) by (simp add: sample_table_def sample_three_def del: run.simps)
  ultimately show "policy ht = CACHE_EVICTION_POLICY_FIFO" "fifo ht = Some (fifo_of [[97], [98], [99]])"
    using creates_fifo [of "\<lambda>_. 0" ht0 fifo_create "[[97], [98], [99]]" 3 True rs ht] h(2,3)
    by (simp_all add: fifo_of_def del: run.simps)
qed

subsection \<open>Properties\<close>

text \<open>
  C18: Eviction under the segmented policy. If the random draws visit every bucket once per file that
  could be evicted, the pass returns; the table is back within its limits, the files handed
  back are exactly the files that left the table, they are counted, and each one was evicted
  while the table was still over its limits.
\<close>

theorem evict_files_correct:
  assumes "htable_inv XXH64 ht" and "policy ht = CACHE_EVICTION_POLICY_SEGMENTED_FIFO"
    and "card (dom (htable_lookup XXH64 ht)) < 2 ^ 64"
    and "card (dom (htable_lookup XXH64 ht)) \<le> length segs" and "\<forall>s \<in> set segs. covers ht s"
  shows "\<exists>ev draws' ht'. htable_evict_files XXH64 (concat segs) ht = Inr (HTABLE_ERR_OK, ev, draws', ht') \<and>
    evicted_ok XXH64 ht (htable_lookup XXH64 ht) ev ht' \<and> needed ht ev \<and>
    historical_num_evictions (stats ht') = historical_num_evictions (stats ht) + of_nat (length ev)"
  using assms by (rule evict_files_segmented)

theorem evict_files_correct_witness:
  "\<exists>rs ht ev draws' ht'.
     sample_table CACHE_EVICTION_POLICY_SEGMENTED_FIFO [Create [97] 3 True, Create [98] 3 True, Create [99] 3 True] = Inr (rs, ht) \<and>
     htable_evict_files (\<lambda>_. 0) (concat (replicate 3 [0, 1, 2, 3])) ht = Inr (HTABLE_ERR_OK, ev, draws', ht') \<and>
     evicted_ok (\<lambda>_. 0) ht (htable_lookup (\<lambda>_. 0) ht) ev ht' \<and> needed ht ev"
proof -
  obtain rs ht where ht: "sample_table CACHE_EVICTION_POLICY_SEGMENTED_FIFO sample_three = Inr (rs, ht)"
    "htable_inv (\<lambda>_. 0) ht" "htable_lookup (\<lambda>_. 0) ht = sample_three_store"
    by (rule sample_three_run)
  have "card (dom (htable_lookup (\<lambda>_. 0) ht)) = 3" "policy ht = CACHE_EVICTION_POLICY_SEGMENTED_FIFO" "covers ht [0, 1, 2, 3]"
    using sample_three_facts [OF ht(1)] by (simp_all add: ht(3))
  with evict_files_correct [OF ht(2), of "replicate 3 [0, 1, 2, 3]"] ht(1) show ?thesis
    by (auto simp: sample_three_def)
qed

text \<open>
  C13: Replacing the contents of a file under the segmented policy returns, with random draws as
  above; the file holds exactly the new bytes before the eviction pass, which brings the
  table back within its limits and hands back exactly the files that left it. No lock and
  no open flag is looked at.
\<close>

theorem replace_file_contents_correct:
  assumes inv: "htable_inv XXH64 ht" and pol: "policy ht = CACHE_EVICTION_POLICY_SEGMENTED_FIFO"
    and k: "htable_lookup XXH64 ht k = Some f"
    and data: "length data < 2 ^ 64" "contents f = None \<or> data \<noteq> []"
    and draws: "card (dom (htable_lookup XXH64 ht)) < 2 ^ 64"
      "card (dom (htable_lookup XXH64 ht)) \<le> length segs" "\<forall>s \<in> set segs. covers ht s"
  shows "\<exists>ev draws' ht'. htable_replace_file_contents XXH64 (concat segs) ht k data = Inr (HTABLE_ERR_OK, ev, draws', ht') \<and>
    evicted_ok XXH64 ht ((htable_lookup XXH64 ht)(k \<mapsto> put_contents data f)) ev ht'"
proof (rule replace_stores [OF inv k data, of "concat segs"])
  fix ht1
  assume r: "htable_replace_file_contents XXH64 (concat segs) ht k data = htable_evict_files XXH64 (concat segs) ht1"
    "htable_inv XXH64 ht1" "htable_lookup XXH64 ht1 = (htable_lookup XXH64 ht)(k \<mapsto> put_contents data f)"
    "policy ht1 = policy ht" "max_items_count ht1 = max_items_count ht" "\<And>s. covers ht1 s = covers ht s"
  from evict_after_write [OF r(2) _ r(3) k r(5,6) draws] r(1,4) pol show ?thesis by simp
qed

theorem replace_file_contents_correct_witness:
  "\<exists>rs ht ev draws' ht'.
     sample_table CACHE_EVICTION_POLICY_SEGMENTED_FIFO [Create [97] 3 True, Create [98] 3 True, Create [99] 3 True] = Inr (rs, ht) \<and>
     htable_replace_file_contents (\<lambda>_. 0) (concat (replicate 3 [0, 1, 2, 3])) ht [98] [1, 2, 3] = Inr (HTABLE_ERR_OK, ev, draws', ht') \<and>
     evicted_ok (\<lambda>_. 0) ht (sample_three_store([98] \<mapsto> put_contents [1, 2, 3] (new_file [98] 3 True))) ev ht'"
proof -
  obtain rs ht where ht: "sample_table CACHE_EVICTION_POLICY_SEGMENTED_FIFO sample_three = Inr (rs, ht)"
    "htable_inv (\<lambda>_. 0) ht" "htable_lookup (\<lambda>_. 0) ht = sample_three_store"
    by (rule sample_three_run)
  have "card (dom (htable_lookup (\<lambda>_. 0) ht)) = 3" "policy ht = CACHE_EVICTION_POLICY_SEGMENTED_FIFO" "covers ht [0, 1, 2, 3]"
    "htable_lookup (\<lambda>_. 0) ht [98] = Some (new_file [98] 3 True)" "contents (new_file [98] 3 True) = None"
    using sample_three_facts [OF ht(1)] by (simp_all add: ht(3) sample_three_store_def new_file_def)
  with replace_file_contents_correct [OF ht(2), of "[98]" "new_file [98] 3 True" "[1, 2, 3]" "replicate 3 [0, 1, 2, 3]"] ht(1,3)
  show ?thesis by (auto simp: sample_three_def)
qed


text \<open>
  C19: Appending to a file under the segmented policy: the file holds its old bytes followed by the
  new ones, provided the sum of the lengths fits 64 bits, and the eviction pass that follows
  is correct as for a replacement.
\<close>

theorem append_to_file_contents_correct:
  assumes inv: "htable_inv XXH64 ht" and pol: "policy ht = CACHE_EVICTION_POLICY_SEGMENTED_FIFO"
    and k: "htable_lookup XXH64 ht k = Some f"
    and data: "length (content_bytes f @ data) < 2 ^ 64" "contents f = None \<or> content_bytes f @ data \<noteq> []"
    and draws: "card (dom (htable_lookup XXH64 ht)) < 2 ^ 64"
      "card (dom (htable_lookup XXH64 ht)) \<le> length segs" "\<forall>s \<in> set segs. covers ht s"
  shows "\<exists>ev draws' ht'. htable_append_to_file_contents XXH64 (concat segs) ht k data = Inr (HTABLE_ERR_OK, ev, draws', ht') \<and>
    evicted_ok XXH64 ht ((htable_lookup XXH64 ht)(k \<mapsto> put_contents (content_bytes f @ data) f)) ev ht'"
proof (rule append_stores [OF inv k data, of "concat segs"])
  fix ht1
  assume r: "htable_append_to_file_contents XXH64 (concat segs) ht k data = htable_evict_files XXH64 (concat segs) ht1"
    "htable_inv XXH64 ht1" "htable_lookup XXH64 ht1 = (htable_lookup XXH64 ht)(k \<mapsto> put_contents (content_bytes f @ data) f)"
    "policy ht1 = policy ht" "max_items_count ht1 = max_items_count ht" "\<And>s. covers ht1 s = covers ht s"
  from evict_after_write [OF r(2) _ r(3) k r(5,6) draws] r(1,4) pol show ?thesis by simp
qed

theorem append_to_file_contents_correct_witness:
  "\<exists>rs ht ev draws' ht'.
     sample_table CACHE_EVICTION_POLICY_SEGMENTED_FIFO [Create [97] 3 True, Create [98] 3 True, Create [99] 3 True] = Inr (rs, ht) \<and>
     htable_append_to_file_contents (\<lambda>_. 0) (concat (replicate 3 [0, 1, 2, 3])) ht [98] [1, 2] = Inr (HTABLE_ERR_OK, ev, draws', ht') \<and>
     evicted_ok (\<lambda>_. 0) ht (sample_three_store([98] \<mapsto> put_contents [1, 2] (new_file [98] 3 True))) ev ht'"
proof -
  obtain rs ht where ht: "sample_table CACHE_EVICTION_POLICY_SEGMENTED_FIFO sample_three = Inr (rs, ht)"
    "htable_inv (\<lambda>_. 0) ht" "htable_lookup (\<lambda>_. 0) ht = sample_three_store"
    by (rule sample_three_run)
  have "card (dom (htable_lookup (\<lambda>_. 0) ht)) = 3" "policy ht = CACHE_EVICTION_POLICY_SEGMENTED_FIFO" "covers ht [0, 1, 2, 3]"
    "htable_lookup (\<lambda>_. 0) ht [98] = Some (new_file [98] 3 True)" "content_bytes (new_file [98] 3 True) = []"
    using sample_three_facts [OF ht(1)] by (simp_all add: ht(3) sample_three_store_def new_file_def content_bytes_def)
  with append_to_file_contents_correct [OF ht(2), of "[98]" "new_file [98] 3 True" "[1, 2]" "replicate 3 [0, 1, 2, 3]"] ht(1,3)
  show ?thesis by (auto simp: sample_three_def)
qed

text \<open>
  Replacing the contents of a file that already holds a block by zero bytes ends the server
  process: \<open>realloc\<close> to size 0 frees the block and returns NULL, which \<open>xrealloc\<close> takes
  for an allocation failure.
\<close>

lemma empty_rewrite_exits:
  assumes "htable_inv XXH64 ht" and "htable_lookup XXH64 ht k = Some f" and "contents f = Some blk"
  shows "htable_replace_file_contents XXH64 draws ht k [] = Inl Exit_Failure"
  using assms by (rule replace_empty_exits)

text \<open>
  C24: Under the FIFO policy an eviction pass on a table whose queue was never evicted from hands back
  the oldest file, when evicting that one is enough. When it is not, the queue answers with
  no file, although it still holds all the others, and the pass dereferences NULL.
\<close>

theorem fifo_eviction_pass:
  assumes "htable_inv XXH64 ht" and "policy ht = CACHE_EVICTION_POLICY_FIFO"
    and "fifo ht = Some (fifo_of (k0 # ks))" and "htable_lookup XXH64 ht k0 = Some f"
    and "htable_over_limit ht"
  shows "if items_count (stats ht) - 1 > max_items_count ht \<or>
            total_space_in_bytes (stats ht) - length_in_bytes f > max_space_in_bytes ht
         then htable_evict_files XXH64 draws ht = Inl Null_Deref
         else \<exists>ht'. htable_evict_files XXH64 draws ht = Inr (HTABLE_ERR_OK, [f], draws, ht') \<and>
                htable_inv XXH64 ht' \<and> htable_lookup XXH64 ht' = (htable_lookup XXH64 ht)(k0 := None)"
  using assms by (rule evict_files_fifo)

theorem fifo_eviction_pass_witness:
  "\<exists>rs ht ht'.
     sample_table CACHE_EVICTION_POLICY_FIFO [Create [97] 3 True, Create [98] 3 True, Create [99] 3 True] = Inr (rs, ht) \<and>
     htable_evict_files (\<lambda>_. 0) [] ht = Inr (HTABLE_ERR_OK, [new_file [97] 3 True], [], ht') \<and>
     htable_lookup (\<lambda>_. 0) ht' = sample_three_store([97] := None)"
proof -
  obtain rs ht where ht: "sample_table CACHE_EVICTION_POLICY_FIFO sample_three = Inr (rs, ht)"
    "htable_inv (\<lambda>_. 0) ht" "htable_lookup (\<lambda>_. 0) ht = sample_three_store"
    by (rule sample_three_run)
  have "case sample_table CACHE_EVICTION_POLICY_FIFO sample_three of
      Inl _ \<Rightarrow> False
    | Inr (rs, ht) \<Rightarrow> items_count (stats ht) = 3 \<and> max_items_count ht = 2 \<and>
        total_space_in_bytes (stats ht) = 0 \<and> max_space_in_bytes ht = 10000"
    by code_simp
  then have st: "items_count (stats ht) = 3" "max_items_count ht = 2" "total_space_in_bytes (stats ht) = 0"
    "max_space_in_bytes ht = 10000" using ht(1) by simp_all
  then have "htable_over_limit ht" by (simp add: htable_over_limit_def)
  moreover have "htable_lookup (\<lambda>_. 0) ht [97] = Some (new_file [97] 3 True)"
    by (simp add: ht(3) sample_three_store_def)
  ultimately have "\<exists>ht'. htable_evict_files (\<lambda>_. 0) [] ht = Inr (HTABLE_ERR_OK, [new_file [97] 3 True], [], ht') \<and>
      htable_inv (\<lambda>_. 0) ht' \<and> htable_lookup (\<lambda>_. 0) ht' = (htable_lookup (\<lambda>_. 0) ht)([97] := None)"
    using fifo_eviction_pass [OF ht(2) sample_three_fifo [OF ht(1)], of "new_file [97] 3 True" "[]"]
    by (simp add: st new_file_def)
  then show ?thesis using ht(1,3) by (auto simp: sample_three_def)
qed

text \<open>
  The queue of the FIFO policy gives the oldest path once, then nothing, and after the next
  creation the newest path: the items are linked from the newest to the oldest, while
  eviction follows the same links from the oldest.
\<close>

lemma fifo_evict_order:
  "\<exists>ff ff'. fifo_evict (fifo_of (k0 # ks)) = Inr (Some k0, ff) \<and> fifo_evict ff = Inr (None, ff) \<and>
     fifo_evict (fifo_add_file ff k) = Inr (Some k, ff')"
proof -
  obtain ff where "fifo_evict (fifo_of (k0 # ks)) = Inr (Some k0, ff)" "fifo_last ff = None"
    by (rule fifo_of_evict)
  then show ?thesis by (auto simp: fifo_evict_def fifo_add_file_def heap_alloc_def)
qed

end
