(* ===== verification/HTable_Locks.thy ===== *)
theory HTable_Locks
  imports HTable_Evict
begin

text \<open>
  The lock protocol of the file store, proved on the abstract operations and carried over
  to the hash table by the simulation: refinement of whole request sequences, absence of
  memory faults and deadlocks, exclusion of everybody but the owner of a lock, the
  hand-over to the waiting clients, and the two places where the code departs from it.
\<close>

definition stranger :: "int \<Rightarrow> meta_op \<Rightarrow> bool" where
  "stranger fd x \<longleftrightarrow> op_fd x \<noteq> fd \<and> op_fd x \<noteq> -1"

definition handover :: "int list \<Rightarrow> reply list" where
  "handover ws = map (Reply HTABLE_ERR_OK) ws @ [Reply HTABLE_ERR_OK (-1)]"

subsection \<open>Exclusion\<close>

lemma spec_exec_stranger:
  assumes "m k = Some f" and "is_locked f" and "stranger (fd_owner f) x"
    and "spec_exec x m = Inr (r, m')"
  shows "\<exists>ws. m' k = Some (f\<lparr>subs := ws @ subs f\<rparr>)"
proof -
  have "m' k = Some f \<or> (\<exists>fd. m' k = Some (f\<lparr>subs := fd # subs f\<rparr>))"
  proof (cases x)
    case (Unlock k' fd)
    with assms show ?thesis
      by (cases "k' = k") (auto simp: spec_unlock_def stranger_def split: option.splits if_splits list.splits)
  qed (use assms in \<open>auto simp: as_reply_def spec_lock_def spec_open_def spec_create_def spec_close_def
        spec_remove_def stranger_def split: option.splits if_splits\<close>)
  then show ?thesis
  proof
    assume "m' k = Some f"
    then have "m' k = Some (f\<lparr>subs := [] @ subs f\<rparr>)" by simp
    then show ?thesis by blast
  next
    assume "\<exists>fd. m' k = Some (f\<lparr>subs := fd # subs f\<rparr>)"
    then obtain fd where "m' k = Some (f\<lparr>subs := [fd] @ subs f\<rparr>)" by auto
    then show ?thesis by blast
  qed
qed

lemma spec_run_stranger:
  assumes "m k = Some f" and "is_locked f" and "list_all (stranger (fd_owner f)) xs"
    and "run spec_exec xs m = Inr (rs, m')"
  shows "\<exists>ws. m' k = Some (f\<lparr>subs := ws @ subs f\<rparr>)"
  using assms
proof (induction xs arbitrary: m f rs)
  case Nil
  then have "m' k = Some (f\<lparr>subs := [] @ subs f\<rparr>)" by simp
  then show ?case by blast
next
  case (Cons x xs)
  from Cons.prems(4) obtain r m1 rs1 where s: "spec_exec x m = Inr (r, m1)"
    and rest: "run spec_exec xs m1 = Inr (rs1, m')"
    by (auto simp: bind_result_eq_Inr)
  obtain ws where f1: "m1 k = Some (f\<lparr>subs := ws @ subs f\<rparr>)"
    using spec_exec_stranger [OF Cons.prems(1,2) _ s] Cons.prems(3) by auto
  have "\<exists>ws'. m' k = Some ((f\<lparr>subs := ws @ subs f\<rparr>)\<lparr>subs := ws' @ subs (f\<lparr>subs := ws @ subs f\<rparr>)\<rparr>)"
    using Cons.prems by (intro Cons.IH [OF f1 _ _ rest]) simp_all
  then obtain ws' where "m' k = Some (f\<lparr>subs := (ws' @ ws) @ subs f\<rparr>)" by auto
  then show ?case by blast
qed

subsection \<open>Hand-over\<close>

lemma run_append:
  "run exec (xs @ ys) s =
     bind_result (run exec xs s) (\<lambda>(rs, s).
     bind_result (run exec ys s) (\<lambda>(rs', s). Inr (rs @ rs', s)))"
  by (induction xs arbitrary: s) (auto simp: bind_result_def split: sum.splits)

lemma spec_queue:
  assumes "m k = Some f" and "is_locked f"
  shows "run spec_exec (map (Lock k) fds) m =
    Inr (replicate (length fds) (Reply HTABLE_ERR_OK_WAIT (-1)), m(k \<mapsto> f\<lparr>subs := rev fds @ subs f\<rparr>))"
  using assms
proof (induction fds arbitrary: m f)
  case (Cons fd fds)
  let ?f = "f\<lparr>subs := fd # subs f\<rparr>"
  have l: "spec_exec (Lock k fd) m = Inr (Reply HTABLE_ERR_OK_WAIT (-1), m(k \<mapsto> ?f))"
    using Cons.prems by (simp add: as_reply_def spec_lock_def)
  have "run spec_exec (map (Lock k) fds) (m(k \<mapsto> ?f)) =
      Inr (replicate (length fds) (Reply HTABLE_ERR_OK_WAIT (-1)), (m(k \<mapsto> ?f))(k \<mapsto> ?f\<lparr>subs := rev fds @ subs ?f\<rparr>))"
    using Cons.prems by (intro Cons.IH) simp_all
  with l show ?case by (simp add: fun_eq_iff)
qed (simp add: map_upd_triv)

lemma spec_release_all:
  assumes "m k = Some f" and "is_locked f"
  shows "\<exists>fd. run spec_exec (map (Unlock k) (fd_owner f # subs f)) m =
    Inr (handover (subs f), m(k \<mapsto> f\<lparr>subs := [], is_locked := False, fd_owner := fd\<rparr>))"
  using assms
proof (induction "subs f" arbitrary: m f)
  case Nil
  have "f\<lparr>is_locked := False\<rparr> = f\<lparr>subs := [], is_locked := False, fd_owner := fd_owner f\<rparr>"
    using Nil by (cases f) simp
  with Nil show ?case
    by (auto simp: spec_unlock_def handover_def intro!: exI [of _ "fd_owner f"])
next
  case (Cons w ws)
  let ?f = "f\<lparr>subs := ws, fd_owner := w\<rparr>"
  have u: "spec_exec (Unlock k (fd_owner f)) m = Inr (Reply HTABLE_ERR_OK w, m(k \<mapsto> ?f))"
    using Cons.prems Cons.hyps(2) [symmetric] by (simp add: spec_unlock_def)
  have "\<exists>fd. run spec_exec (map (Unlock k) (fd_owner ?f # subs ?f)) (m(k \<mapsto> ?f)) =
      Inr (handover (subs ?f), (m(k \<mapsto> ?f))(k \<mapsto> ?f\<lparr>subs := [], is_locked := False, fd_owner := fd\<rparr>))"
    using Cons.prems by (intro Cons.hyps(1)) simp_all
  then obtain fd where "run spec_exec (map (Unlock k) (w # ws)) (m(k \<mapsto> ?f)) =
      Inr (handover ws, m(k \<mapsto> f\<lparr>subs := [], is_locked := False, fd_owner := fd\<rparr>))" by auto
  with u show ?case by (auto simp: Cons.hyps(2) [symmetric] handover_def)
qed

lemma spec_lock_cycle:
  assumes f: "m k = Some f" "\<not> is_locked f" "subs f = []"
  shows "\<exists>fd. run spec_exec (map (Lock k) (fd0 # fds) @ map (Unlock k) (fd0 # rev fds)) m =
    Inr (Reply HTABLE_ERR_OK (-1) # replicate (length fds) (Reply HTABLE_ERR_OK_WAIT (-1)) @ handover (rev fds),
         m(k \<mapsto> f\<lparr>fd_owner := fd\<rparr>))"
proof -
  let ?f1 = "f\<lparr>is_locked := True, fd_owner := fd0\<rparr>"
  let ?f2 = "?f1\<lparr>subs := rev fds @ subs ?f1\<rparr>"
  have l: "spec_exec (Lock k fd0) m = Inr (Reply HTABLE_ERR_OK (-1), m(k \<mapsto> ?f1))"
    using f by (simp add: as_reply_def spec_lock_def)
  have q: "run spec_exec (map (Lock k) fds) (m(k \<mapsto> ?f1)) =
      Inr (replicate (length fds) (Reply HTABLE_ERR_OK_WAIT (-1)), m(k \<mapsto> ?f2))"
    using spec_queue [of "m(k \<mapsto> ?f1)" k ?f1 fds] by simp
  obtain fd where "run spec_exec (map (Unlock k) (fd_owner ?f2 # subs ?f2)) (m(k \<mapsto> ?f2)) =
      Inr (handover (subs ?f2), (m(k \<mapsto> ?f2))(k \<mapsto> ?f2\<lparr>subs := [], is_locked := False, fd_owner := fd\<rparr>))"
    using spec_release_all [of "m(k \<mapsto> ?f2)" k ?f2] by auto
  moreover have "f\<lparr>is_locked := False, fd_owner := fd, subs := []\<rparr> = f\<lparr>fd_owner := fd\<rparr>"
    "f\<lparr>subs := [], is_locked := False, fd_owner := fd\<rparr> = f\<lparr>fd_owner := fd\<rparr>"
    using f by (cases f; simp)+
  ultimately have "run spec_exec (map (Unlock k) (fd0 # rev fds)) (m(k \<mapsto> ?f2)) =
      Inr (handover (rev fds), m(k \<mapsto> f\<lparr>fd_owner := fd\<rparr>))"
    using f by simp
  with l q show ?thesis by (auto simp only: list.map append_Cons run.simps run_append bind_result_Inr prod.case)
qed


subsection \<open>From the abstract store to the table\<close>

lemma run_inv:
  assumes "htable_inv XXH64 ht" and "run (htable_exec XXH64) xs ht = Inr (rs, ht')"
  shows "htable_inv XXH64 ht'" and "run spec_exec xs (htable_lookup XXH64 ht) = Inr (rs, htable_lookup XXH64 ht')"
  using htable_run_refines [OF assms(1), of xs] assms(2)
  by (auto simp: refines_def split: sum.splits prod.splits)

lemma spec_exec_fault:
  "spec_exec x m = Inl e \<Longrightarrow>
     e = Assert_Fail \<and> (\<exists>k fd f. x = Lock k fd \<and> m k = Some f \<and> \<not> is_locked f \<and> subs f \<noteq> [])"
  by (cases x)
    (auto simp: as_reply_def spec_lock_def spec_unlock_def spec_open_def spec_create_def spec_close_def
      spec_remove_def split: option.splits if_splits list.splits)

subsection \<open>Properties\<close>

text \<open>
  C7: From a freshly created table, every sequence of lock, unlock, open, create, close and remove
  requests gives the replies, the faults and the files that the same sequence gives on a
  plain map from paths to files, whatever the hash function and the number of buckets; and
  the table satisfies its representation invariant afterwards.
\<close>

theorem htable_refines_store:
  assumes "0 < n"
  shows "\<exists>ht. htable_create n config = Inr ht \<and>
    refines (htable_inv XXH64) (htable_lookup XXH64)
      (run (htable_exec XXH64) xs ht) (run spec_exec xs Map.empty)"
  using htable_create_inv [OF assms, of config XXH64] htable_run_refines [of XXH64 _ xs] by metis

theorem htable_refines_store_witness:
  "\<exists>ht. htable_create 4 (sample_config CACHE_EVICTION_POLICY_FIFO) = Inr ht \<and>
    refines (htable_inv (\<lambda>_. 0)) (htable_lookup (\<lambda>_. 0))
      (run (htable_exec (\<lambda>_. 0)) [Create [97] 3 True, Lock [97] 4, Remove [97] 3] ht)
      (run spec_exec [Create [97] 3 True, Lock [97] 4, Remove [97] 3] Map.empty)"
  using htable_refines_store [of 4 "sample_config CACHE_EVICTION_POLICY_FIFO" "\<lambda>_. 0" "[Create [97] 3 True, Lock [97] 4, Remove [97] 3]"]
  by simp

text \<open>
  C8: Requests on metadata (lock, unlock, open, create, close, remove) are safe on a table that
  satisfies the invariant, one at a time: none of them dereferences NULL or freed memory, leaves a bucket
  array, deadlocks on a mutex or loops; it returns and re-establishes the invariant, or it is a lock
  request on a file that is not locked and has waiting clients, which fails the assertion of
  \<open>htable_lock_file\<close>. The other requests are not safe: a write can dereference NULL under the
  FIFO policy (\<open>fifo_eviction_pass\<close>) or end the process (\<open>empty_rewrite_exits\<close>), and \<open>readNFiles\<close>
  leaves a bucket locked (\<open>visit_stays_in_one_bucket\<close>).
\<close>

theorem htable_exec_safe:
  assumes inv: "htable_inv XXH64 ht"
  shows "case htable_exec XXH64 x ht of
      Inr (r, ht') \<Rightarrow> htable_inv XXH64 ht'
    | Inl e \<Rightarrow> e = Assert_Fail \<and>
        (\<exists>k fd f. x = Lock k fd \<and> htable_lookup XXH64 ht k = Some f \<and> \<not> is_locked f \<and> subs f \<noteq> [])"
proof (cases "spec_exec x (htable_lookup XXH64 ht)")
  case (Inl e)
  with htable_exec_refines [OF inv, of x] spec_exec_fault show ?thesis
    by (auto simp: refines_def)
next
  case (Inr y)
  with htable_exec_refines [OF inv, of x] show ?thesis
    by (cases y) (auto simp: refines_def)
qed

theorem htable_exec_safe_witness:
  "\<exists>ht. sample_table CACHE_EVICTION_POLICY_FIFO [Create [97] 3 False] = Inr ([Reply HTABLE_ERR_OK (-1)], ht) \<and>
     (case htable_exec (\<lambda>_. 0) (Lock [97] 4) ht of
        Inr (r, ht') \<Rightarrow> htable_inv (\<lambda>_. 0) ht'
      | Inl e \<Rightarrow> e = Assert_Fail \<and>
          (\<exists>k fd f. Lock [97] 4 = Lock k fd \<and> htable_lookup (\<lambda>_. 0) ht k = Some f \<and>
             \<not> is_locked f \<and> subs f \<noteq> []))"
proof -
  obtain ht where ht: "sample_table CACHE_EVICTION_POLICY_FIFO [Create [97] 3 False] = Inr ([Reply HTABLE_ERR_OK (-1)], ht)"
    "htable_inv (\<lambda>_. 0) ht"
    by (rule sample_created)
  from htable_exec_safe [OF ht(2), of "Lock [97] 4"] ht(1) show ?thesis by blast
qed

text \<open>
  C15: What the lock of a file protects, and what it does not. While a client owns the lock, no sequence of
  lock, unlock, open, create, close and remove requests of other clients (the server's own
  removals, with descriptor -1, apart) changes the file: it stays locked by its owner, with the same
  contents and the same open flag, and only the list of waiting clients grows. But a write is not
  checked against the lock, nor even told which client it comes from: after any such sequence,
  one that fits the limits of the table replaces the contents of the locked file.
\<close>

theorem lock_exclusion:
  assumes inv: "htable_inv XXH64 ht" and k: "htable_lookup XXH64 ht k = Some f" and l: "is_locked f"
    and xs: "list_all (stranger (fd_owner f)) xs"
    and run: "run (htable_exec XXH64) xs ht = Inr (rs, ht')"
  shows "\<exists>ws. htable_lookup XXH64 ht' k = Some (f\<lparr>subs := ws @ subs f\<rparr>) \<and>
    (\<forall>draws data. data \<noteq> [] \<and> length data < 2 ^ 64 \<and> \<not> items_count (stats ht') > max_items_count ht' \<and>
       \<not> total_space_in_bytes (stats ht') + of_nat (length data) - length_in_bytes f > max_space_in_bytes ht' \<longrightarrow>
       (\<exists>ht''. htable_replace_file_contents XXH64 draws ht' k data = Inr (HTABLE_ERR_OK, [], draws, ht'') \<and>
          htable_lookup XXH64 ht'' k = Some (f\<lparr>subs := ws @ subs f, length_in_bytes := of_nat (length data), contents := Some data\<rparr>)))"
proof -
  obtain ws where ws: "htable_lookup XXH64 ht' k = Some (f\<lparr>subs := ws @ subs f\<rparr>)"
    using spec_run_stranger [OF k l xs run_inv(2) [OF inv run]] by blast
  have "\<exists>ht''. htable_replace_file_contents XXH64 draws ht' k data = Inr (HTABLE_ERR_OK, [], draws, ht'') \<and>
      htable_lookup XXH64 ht'' k = Some (put_contents data (f\<lparr>subs := ws @ subs f\<rparr>))"
    if d: "data \<noteq> []" "length data < 2 ^ 64" "\<not> items_count (stats ht') > max_items_count ht'"
      "\<not> total_space_in_bytes (stats ht') + of_nat (length data) - length_in_bytes f > max_space_in_bytes ht'" for draws data
  proof -
    obtain ht1 where "htable_replace_file_contents XXH64 draws ht' k data = htable_evict_files XXH64 draws ht1"
      "htable_inv XXH64 ht1" "\<not> htable_over_limit ht1"
      "htable_lookup XXH64 ht1 = (htable_lookup XXH64 ht')(k \<mapsto> put_contents data (f\<lparr>subs := ws @ subs f\<rparr>))"
      using replace_stores [OF run_inv(1) [OF inv run] ws d(2), of draws] d(1,3,4) by auto
    with evict_nothing [of XXH64 ht1 draws] show ?thesis by (intro exI [of _ ht1]) simp
  qed
  with ws show ?thesis by (auto simp: put_contents_def)
qed

theorem lock_exclusion_witness:
  "\<exists>ht ht' ht'' rs ws. sample_table CACHE_EVICTION_POLICY_FIFO [Create [97] 3 True] = Inr ([Reply HTABLE_ERR_OK (-1)], ht) \<and>
     run (htable_exec (\<lambda>_. 0)) [Lock [97] 4, Unlock [97] 4, Remove [97] 5] ht = Inr (rs, ht') \<and>
     htable_lookup (\<lambda>_. 0) ht' [97] = Some ((new_file [97] 3 True)\<lparr>subs := ws\<rparr>) \<and>
     htable_replace_file_contents (\<lambda>_. 0) [] ht' [97] [7, 8] = Inr (HTABLE_ERR_OK, [], [], ht'') \<and>
     htable_lookup (\<lambda>_. 0) ht'' [97] = Some ((new_file [97] 3 True)\<lparr>subs := ws, length_in_bytes := 2, contents := Some [7, 8]\<rparr>)"
proof -
  let ?xs = "[Lock [97] 4, Unlock [97] 4, Remove [97] 5]"
  obtain ht where ht: "sample_table CACHE_EVICTION_POLICY_FIFO [Create [97] 3 True] = Inr ([Reply HTABLE_ERR_OK (-1)], ht)"
    "htable_inv (\<lambda>_. 0) ht" "htable_lookup (\<lambda>_. 0) ht = [[97] \<mapsto> new_file [97] 3 True]"
    by (rule sample_created)
  have "case sample_table CACHE_EVICTION_POLICY_FIFO [Create [97] 3 True] of Inl _ \<Rightarrow> False
    | Inr (rs, ht) \<Rightarrow> (case run (htable_exec (\<lambda>_. 0)) ?xs ht of Inl _ \<Rightarrow> False
       | Inr (rs, ht') \<Rightarrow> items_count (stats ht') = 1 \<and> max_items_count ht' = 2 \<and>
           total_space_in_bytes (stats ht') = 0 \<and> max_space_in_bytes ht' = 10000)"
    by code_simp
  then obtain rs ht' where r: "run (htable_exec (\<lambda>_. 0)) ?xs ht = Inr (rs, ht')" and
    st: "items_count (stats ht') = 1" "max_items_count ht' = 2" "total_space_in_bytes (stats ht') = 0" "max_space_in_bytes ht' = 10000"
    using ht(1) by (auto split: sum.splits)
  have "list_all (stranger (fd_owner (new_file [97] 3 True))) ?xs" by (simp add: stranger_def new_file_def)
  with lock_exclusion [OF ht(2) _ _ _ r, of "[97]" "new_file [97] 3 True"] obtain ws where
    ws: "htable_lookup (\<lambda>_. 0) ht' [97] = Some ((new_file [97] 3 True)\<lparr>subs := ws\<rparr>)"
      "\<exists>ht''. htable_replace_file_contents (\<lambda>_. 0) [] ht' [97] [7, 8] = Inr (HTABLE_ERR_OK, [], [], ht'') \<and>
        htable_lookup (\<lambda>_. 0) ht'' [97] = Some ((new_file [97] 3 True)\<lparr>subs := ws, length_in_bytes := 2, contents := Some [7, 8]\<rparr>)"
    by (auto simp: ht(3) st new_file_def dest!: spec [of _ "[] :: nat list"] spec [of _ "[7, 8] :: byte list"])
  with ht(1) r show ?thesis by blast
qed

text \<open>
  C16: The clients that queue for the lock of an unlocked file all get it, exactly once each, the
  last to come first: when each owner in turn unlocks, the table answers with the
  descriptor of the next one, and -1 when nobody is left; the file ends up unlocked.
\<close>

theorem lock_handover:
  assumes inv: "htable_inv XXH64 ht" and k: "htable_lookup XXH64 ht k = Some f"
    and idle: "\<not> is_locked f" "subs f = []"
  shows "\<exists>ht' fd. run (htable_exec XXH64) (map (Lock k) (fd0 # fds) @ map (Unlock k) (fd0 # rev fds)) ht =
      Inr (Reply HTABLE_ERR_OK (-1) # replicate (length fds) (Reply HTABLE_ERR_OK_WAIT (-1)) @ handover (rev fds), ht') \<and>
    htable_inv XXH64 ht' \<and> htable_lookup XXH64 ht' = (htable_lookup XXH64 ht)(k \<mapsto> f\<lparr>fd_owner := fd\<rparr>)"
proof -
  from spec_lock_cycle [of "htable_lookup XXH64 ht", OF k idle] obtain fd where
    "run spec_exec (map (Lock k) (fd0 # fds) @ map (Unlock k) (fd0 # rev fds)) (htable_lookup XXH64 ht) =
    Inr (Reply HTABLE_ERR_OK (-1) # replicate (length fds) (Reply HTABLE_ERR_OK_WAIT (-1)) @ handover (rev fds),
         (htable_lookup XXH64 ht)(k \<mapsto> f\<lparr>fd_owner := fd\<rparr>))" by blast
  from htable_run_returns [OF inv this] show ?thesis by blast
qed

theorem lock_handover_witness:
  "\<exists>ht ht' fd. sample_table CACHE_EVICTION_POLICY_FIFO [Create [97] 3 False] = Inr ([Reply HTABLE_ERR_OK (-1)], ht) \<and>
     run (htable_exec (\<lambda>_. 0)) (map (Lock [97]) [4, 5, 6] @ map (Unlock [97]) [4, 6, 5]) ht =
       Inr ([Reply HTABLE_ERR_OK (-1), Reply HTABLE_ERR_OK_WAIT (-1), Reply HTABLE_ERR_OK_WAIT (-1),
             Reply HTABLE_ERR_OK 6, Reply HTABLE_ERR_OK 5, Reply HTABLE_ERR_OK (-1)], ht') \<and>
     htable_lookup (\<lambda>_. 0) ht' = [[97] \<mapsto> (new_file [97] 3 False)\<lparr>fd_owner := fd\<rparr>]"
proof -
  obtain ht where ht: "sample_table CACHE_EVICTION_POLICY_FIFO [Create [97] 3 False] = Inr ([Reply HTABLE_ERR_OK (-1)], ht)"
    "htable_inv (\<lambda>_. 0) ht" "htable_lookup (\<lambda>_. 0) ht = [[97] \<mapsto> new_file [97] 3 False]"
    by (rule sample_created)
  have "htable_lookup (\<lambda>_. 0) ht [97] = Some (new_file [97] 3 False)"
    "\<not> is_locked (new_file [97] 3 False)" "subs (new_file [97] 3 False) = []"
    by (simp_all add: ht(3) new_file_def)
  from lock_handover [OF ht(2) this, of 4 "[5, 6]"] ht show ?thesis
    by (auto simp: handover_def numeral_eq_Suc)
qed

text \<open>
  C28: A closed file whose owner still holds the lock while others wait for it: the owner opens it
  again without asking for the lock, which clears the lock but leaves the waiting list,
  and the next lock request of anybody ends the server at the assertion.
\<close>

theorem reopen_then_lock_asserts:
  assumes inv: "htable_inv XXH64 ht" and k: "htable_lookup XXH64 ht k = Some f"
    and f: "\<not> is_open f" "is_locked f" "subs f \<noteq> []"
  shows "run (htable_exec XXH64) [Open k (fd_owner f) False, Lock k fd] ht = Inl Assert_Fail"
proof -
  have "run spec_exec [Open k (fd_owner f) False, Lock k fd] (htable_lookup XXH64 ht) = Inl Assert_Fail"
    using k f by (simp add: as_reply_def spec_open_def spec_lock_def)
  with htable_run_refines [OF inv, of "[Open k (fd_owner f) False, Lock k fd]"] show ?thesis
    by (simp add: refines_def del: run.simps)
qed

theorem reopen_then_lock_asserts_witness:
  "\<exists>rs ht. sample_table CACHE_EVICTION_POLICY_FIFO [Create [97] 3 True, Lock [97] 4, Close [97] 3] = Inr (rs, ht) \<and>
     run (htable_exec (\<lambda>_. 0)) [Open [97] 3 False, Lock [97] 5] ht = Inl Assert_Fail"
proof -
  let ?f = "(new_file [97] 3 True)\<lparr>subs := [4], is_open := False\<rparr>"
  obtain rs where "run spec_exec [Create [97] 3 True, Lock [97] 4, Close [97] 3] Map.empty = Inr (rs, [[97] \<mapsto> ?f])"
    by (simp add: as_reply_def spec_create_def spec_lock_def spec_close_def new_file_def)
  then obtain ht where ht: "sample_table CACHE_EVICTION_POLICY_FIFO [Create [97] 3 True, Lock [97] 4, Close [97] 3] = Inr (rs, ht)"
    "htable_inv (\<lambda>_. 0) ht" "htable_lookup (\<lambda>_. 0) ht = [[97] \<mapsto> ?f]"
    using sample_run by blast
  have "run (htable_exec (\<lambda>_. 0)) [Open [97] (fd_owner ?f) False, Lock [97] 5] ht = Inl Assert_Fail"
    by (rule reopen_then_lock_asserts [OF ht(2)]) (simp_all add: ht(3) new_file_def)
  moreover have "fd_owner ?f = 3" by (simp add: new_file_def)
  ultimately show ?thesis using ht(1) by metis
qed

end
