(* ===== verification/Worker.thy ===== *)
theory Worker
  imports HTable_Visitor HTable_Evict HTable_Locks Deserializer
begin

unbundle bit_operations_syntax

text \<open>
  The model of \<open>src/server/worker.c\<close>: the handler of every request, from the bytes of a
  complete message to the change of the file table and the bytes of the response. The
  table, the responses written so far, the outcomes of the \<open>write\<close> system calls to come
  and the random draws to come are the state of the server as a worker sees it. Logging is
  left out.
\<close>

subsection \<open>Codes of the protocol\<close>

datatype ApiOp =
    API_OP_OPEN_CONNECTION
  | API_OP_CLOSE_CONNECTION
  | API_OP_OPEN_FILE
  | API_OP_OPEN_FILE_CREATE
  | API_OP_OPEN_FILE_LOCK
  | API_OP_OPEN_FILE_CREATE_LOCK
  | API_OP_READ_FILE
  | API_OP_READ_N_FILES
  | API_OP_WRITE_FILE
  | API_OP_APPEND_TO_FILE
  | API_OP_LOCK_FILE
  | API_OP_UNLOCK_FILE
  | API_OP_CLOSE_FILE
  | API_OP_REMOVE_FILE

fun api_op_code :: "ApiOp \<Rightarrow> byte" where
  "api_op_code API_OP_OPEN_CONNECTION = 0"
| "api_op_code API_OP_CLOSE_CONNECTION = 1"
| "api_op_code API_OP_OPEN_FILE = 2"
| "api_op_code API_OP_OPEN_FILE_CREATE = 3"
| "api_op_code API_OP_OPEN_FILE_LOCK = 4"
| "api_op_code API_OP_OPEN_FILE_CREATE_LOCK = 5"
| "api_op_code API_OP_READ_FILE = 6"
| "api_op_code API_OP_READ_N_FILES = 7"
| "api_op_code API_OP_WRITE_FILE = 8"
| "api_op_code API_OP_APPEND_TO_FILE = 9"
| "api_op_code API_OP_LOCK_FILE = 10"
| "api_op_code API_OP_UNLOCK_FILE = 11"
| "api_op_code API_OP_CLOSE_FILE = 12"
| "api_op_code API_OP_REMOVE_FILE = 13"

definition RESPONSE_OK :: byte where "RESPONSE_OK = 0"

definition RESPONSE_ERR :: byte where "RESPONSE_ERR = 1"

subsection \<open>State and output\<close>

record Server =
  table :: HTable
  out :: "(int \<times> byte list) list"
  script :: "write_outcome list"
  draws :: "nat list"

definition log_out :: "int \<Rightarrow> byte list \<Rightarrow> write_outcome list \<Rightarrow> Server \<Rightarrow> Server" where
  "log_out fd bs sc s = s\<lparr>out := out s @ [(fd, bs)], script := sc\<rparr>"

text \<open>A call of \<open>write_bytes\<close>, and a single call of \<open>write\<close> with one byte.\<close>

definition send :: "int \<Rightarrow> byte list \<Rightarrow> Server \<Rightarrow> int \<times> Server" where
  "send fd bs s = (case write_bytes (script s) bs of (r, bs', sc) \<Rightarrow> (r, log_out fd bs' sc s))"

definition send_byte :: "int \<Rightarrow> byte \<Rightarrow> Server \<Rightarrow> Server" where
  "send_byte fd b s =
     (case script s of
        [] \<Rightarrow> log_out fd [b] [] s
      | Wrote n # sc \<Rightarrow> log_out fd (if n = 0 then [] else [b]) sc s
      | Write_Eintr # sc \<Rightarrow> log_out fd [] sc s
      | Write_Error # sc \<Rightarrow> log_out fd [] sc s)"

definition write_response_byte :: "int \<Rightarrow> int \<Rightarrow> Server \<Rightarrow> Server" where
  "write_response_byte fd result s = send_byte fd (if result = 0 then RESPONSE_OK else RESPONSE_ERR) s"

text \<open>The bytes of a file that \<open>write_bytes (fd, contents, length_in_bytes)\<close> reads.\<close>

definition file_region :: "File \<Rightarrow> byte list result" where
  "file_region f =
     (case contents f of
        None \<Rightarrow> if length_in_bytes f = 0 then Inr [] else Inl Null_Deref
      | Some blk \<Rightarrow> if length blk < unat (length_in_bytes f) then Inl Out_Of_Bounds
                     else Inr (take (unat (length_in_bytes f)) blk))"

text \<open>A file sent with its path: two lengths, the path, the contents.\<close>

definition send_file :: "int \<Rightarrow> int \<Rightarrow> File \<Rightarrow> Server \<Rightarrow> (int \<times> Server) result" where
  "send_file fd ret f s =
     (case send fd (u64_to_big_endian (of_nat (length (key f)))) s of (r1, s) \<Rightarrow>
      case send fd (u64_to_big_endian (length_in_bytes f)) s of (r2, s) \<Rightarrow>
      case send fd (key f) s of (r3, s) \<Rightarrow>
      bind_result (file_region f) (\<lambda>bytes.
      case send fd bytes s of (r4, s) \<Rightarrow> Inr (ret OR r1 OR r2 OR r3 OR r4, s)))"

subsection \<open>Handlers\<close>

definition worker_handle_read_file ::
    "hash_fn \<Rightarrow> int \<Rightarrow> byte list \<Rightarrow> u64 \<Rightarrow> Server \<Rightarrow> Server result" where
  "worker_handle_read_file XXH64 fd buf len s =
     bind_result (buf_to_str buf len) (\<lambda>path.
     bind_result (htable_fetch_file XXH64 (table s) path) (\<lambda>(p, ht).
     let s = s\<lparr>table := ht\<rparr> in
     case p of
       None \<Rightarrow> Inr (write_response_byte fd (-1) s)
     | Some a \<Rightarrow>
         bind_result (load_item a ht) (\<lambda>it.
         case send fd (RESPONSE_OK # u64_to_big_endian (length_in_bytes (file it))) s of (r1, s) \<Rightarrow>
         bind_result (file_region (file it)) (\<lambda>bytes.
         case send fd bytes s of (r2, s) \<Rightarrow>
           Inr (s\<lparr>table := htable_release_file XXH64 (table s) path\<rparr>)))))"

fun read_n_loop :: "nat \<Rightarrow> int \<Rightarrow> int \<Rightarrow> HTableVisitor \<Rightarrow> Server \<Rightarrow> (int \<times> Server) result" where
  "read_n_loop 0 fd ret v s = Inl Stuck"
| "read_n_loop (Suc fuel) fd ret v s =
     bind_result (htable_visitor_next v (table s)) (\<lambda>(p, v, ht).
     let s = s\<lparr>table := ht\<rparr> in
     case p of
       None \<Rightarrow> Inr (ret, s)
     | Some a \<Rightarrow>
         bind_result (load_item a ht) (\<lambda>it.
         bind_result (send_file fd ret (file it) s) (\<lambda>(ret, s).
           if ret < 0 then Inr (ret, s) else read_n_loop fuel fd ret v s)))"

definition worker_handle_read_n_files :: "int \<Rightarrow> byte list \<Rightarrow> u64 \<Rightarrow> Server \<Rightarrow> Server result" where
  "worker_handle_read_n_files fd buf len s =
     (if len \<noteq> 8 then Inr s
      else
        bind_result (big_endian_to_u64 buf) (\<lambda>n.
        bind_result (htable_visit (table s) (ucast n)) (\<lambda>(v, ht).
        bind_result (read_n_loop (brk (items (table s)) + 2) fd 0 v (s\<lparr>table := ht\<rparr>)) (\<lambda>(ret, s).
        case send fd (replicate 8 0) s of (r, s) \<Rightarrow> Inr s))))"

fun send_evicted :: "int \<Rightarrow> int \<Rightarrow> File list \<Rightarrow> Server \<Rightarrow> Server result" where
  "send_evicted fd ret [] s = Inr s"
| "send_evicted fd ret (f # fs) s =
     bind_result (send_file fd ret f s) (\<lambda>(ret, s).
       if ret < 0 then Inr s else send_evicted fd ret fs s)"

text \<open>
  \<open>arg2_buffer\<close> and \<open>arg2_size\<close> describe the region of the message behind the path. The
  count of evicted files is an \<open>unsigned\<close>.
\<close>

definition worker_handle_write_file ::
    "hash_fn \<Rightarrow> int \<Rightarrow> byte list \<Rightarrow> u64 \<Rightarrow> Server \<Rightarrow> Server result" where
  "worker_handle_write_file XXH64 fd buf len s =
     (if len < 16 then Inr s
      else
        bind_result (big_endian_to_u64 buf) (\<lambda>arg1_size.
        bind_result (big_endian_to_u64 (drop 8 buf)) (\<lambda>arg2_size.
        if len \<noteq> 16 + arg1_size + arg2_size then Inr s
        else
          bind_result (buf_to_str (drop 16 buf) arg1_size) (\<lambda>path.
          let arg2_buffer = drop (unat arg1_size) (drop 16 buf) in
          if length arg2_buffer < unat arg2_size then Inl Out_Of_Bounds
          else
            bind_result
              (htable_replace_file_contents XXH64 (draws s) (table s) path (take (unat arg2_size) arg2_buffer))
              (\<lambda>(e, evicted, ds, ht).
            let s = s\<lparr>table := ht, draws := ds\<rparr> in
            case send fd [RESPONSE_OK] s of (r1, s) \<Rightarrow>
            case send fd (u64_to_big_endian (ucast (of_nat (length evicted) :: u32))) s of (r2, s) \<Rightarrow>
            let ret = htable_err_code e OR r1 OR r2 in
            if ret < 0 then Inr s else send_evicted fd ret evicted s)))))"

definition worker_handle_open_file ::
    "hash_fn \<Rightarrow> int \<Rightarrow> byte list \<Rightarrow> u64 \<Rightarrow> bool \<Rightarrow> bool \<Rightarrow> Server \<Rightarrow> Server result" where
  "worker_handle_open_file XXH64 fd buf len create lock s =
     bind_result (buf_to_str buf len) (\<lambda>path.
     bind_result (htable_open_or_create_file XXH64 (table s) path fd create lock) (\<lambda>(e, ht).
       Inr (write_response_byte fd (htable_err_code e) (s\<lparr>table := ht\<rparr>))))"

definition worker_handle_lock_file ::
    "hash_fn \<Rightarrow> int \<Rightarrow> byte list \<Rightarrow> u64 \<Rightarrow> Server \<Rightarrow> Server result" where
  "worker_handle_lock_file XXH64 fd buf len s =
     bind_result (buf_to_str buf len) (\<lambda>path.
     bind_result (htable_lock_file XXH64 (table s) path fd) (\<lambda>(e, ht).
       Inr (send_byte fd (if htable_err_code e < 0 then RESPONSE_ERR else RESPONSE_OK) (s\<lparr>table := ht\<rparr>))))"

definition worker_handle_unlock_file ::
    "hash_fn \<Rightarrow> int \<Rightarrow> byte list \<Rightarrow> u64 \<Rightarrow> Server \<Rightarrow> Server result" where
  "worker_handle_unlock_file XXH64 fd buf len s =
     bind_result (buf_to_str buf len) (\<lambda>path.
     bind_result (htable_unlock_file XXH64 (table s) path fd) (\<lambda>(e, new_fd, ht).
     let s = write_response_byte fd (htable_err_code e) (s\<lparr>table := ht\<rparr>) in
       Inr (if new_fd \<noteq> -1 then write_response_byte new_fd (htable_err_code HTABLE_ERR_OK) s else s)))"

definition worker_handle_close_file ::
    "hash_fn \<Rightarrow> int \<Rightarrow> byte list \<Rightarrow> u64 \<Rightarrow> Server \<Rightarrow> Server result" where
  "worker_handle_close_file XXH64 fd buf len s =
     bind_result (buf_to_str buf len) (\<lambda>path.
     bind_result (htable_close_file XXH64 (table s) path fd) (\<lambda>(e, ht).
       Inr (write_response_byte fd (htable_err_code e) (s\<lparr>table := ht\<rparr>))))"

definition worker_handle_remove_file ::
    "hash_fn \<Rightarrow> int \<Rightarrow> byte list \<Rightarrow> u64 \<Rightarrow> Server \<Rightarrow> Server result" where
  "worker_handle_remove_file XXH64 fd buf len s =
     bind_result (buf_to_str buf len) (\<lambda>path.
     bind_result (htable_remove_file XXH64 (table s) path fd) (\<lambda>(e, ht).
       Inr (write_response_byte fd (htable_err_code e) (s\<lparr>table := ht\<rparr>))))"

subsection \<open>Dispatch\<close>

definition worker_dispatch ::
    "hash_fn \<Rightarrow> int \<Rightarrow> byte \<Rightarrow> byte list \<Rightarrow> u64 \<Rightarrow> Server \<Rightarrow> Server result" where
  "worker_dispatch XXH64 fd opc buf len s =
     (if opc = api_op_code API_OP_READ_FILE then worker_handle_read_file XXH64 fd buf len s
      else if opc = api_op_code API_OP_READ_N_FILES then worker_handle_read_n_files fd buf len s
      else if opc = api_op_code API_OP_OPEN_FILE then worker_handle_open_file XXH64 fd buf len False False s
      else if opc = api_op_code API_OP_OPEN_FILE_CREATE then worker_handle_open_file XXH64 fd buf len True False s
      else if opc = api_op_code API_OP_OPEN_FILE_LOCK then worker_handle_open_file XXH64 fd buf len False True s
      else if opc = api_op_code API_OP_OPEN_FILE_CREATE_LOCK then worker_handle_open_file XXH64 fd buf len True True s
      else if opc = api_op_code API_OP_WRITE_FILE then worker_handle_write_file XXH64 fd buf len s
      else if opc = api_op_code API_OP_UNLOCK_FILE then worker_handle_unlock_file XXH64 fd buf len s
      else if opc = api_op_code API_OP_LOCK_FILE then worker_handle_lock_file XXH64 fd buf len s
      else if opc = api_op_code API_OP_CLOSE_FILE then worker_handle_close_file XXH64 fd buf len s
      else if opc = api_op_code API_OP_REMOVE_FILE then worker_handle_remove_file XXH64 fd buf len s
      else Inr s)"

definition worker_handle_message ::
    "hash_fn \<Rightarrow> int \<Rightarrow> byte list \<Rightarrow> u64 \<Rightarrow> Server \<Rightarrow> Server result" where
  "worker_handle_message XXH64 fd buf len s =
     (if len = 16 then Inr s
      else
        let buf = drop 8 buf; len = len - 8 in
        bind_result (big_endian_to_u64 buf) (\<lambda>n.
        if n + 8 \<noteq> len then Inl Exit_Failure
        else if length buf \<le> 8 then Inl Out_Of_Bounds
        else worker_dispatch XXH64 fd (buf ! 8) (drop 9 buf) (len - 9) s))"


subsection \<open>Requests on metadata, abstractly\<close>

text \<open>The request of a message with an operation code and a path, and the bytes of its response.\<close>

fun meta_request :: "int \<Rightarrow> ApiOp \<Rightarrow> cstring \<Rightarrow> meta_op option" where
  "meta_request fd API_OP_OPEN_FILE k = Some (Open k fd False)"
| "meta_request fd API_OP_OPEN_FILE_CREATE k = Some (Create k fd False)"
| "meta_request fd API_OP_OPEN_FILE_LOCK k = Some (Open k fd True)"
| "meta_request fd API_OP_OPEN_FILE_CREATE_LOCK k = Some (Create k fd True)"
| "meta_request fd API_OP_LOCK_FILE k = Some (Lock k fd)"
| "meta_request fd API_OP_UNLOCK_FILE k = Some (Unlock k fd)"
| "meta_request fd API_OP_CLOSE_FILE k = Some (Close k fd)"
| "meta_request fd API_OP_REMOVE_FILE k = Some (Remove k fd)"
| "meta_request fd _ k = None"

definition status_byte :: "HTableError \<Rightarrow> byte" where
  "status_byte e = (if e = HTABLE_ERR_OK then RESPONSE_OK else RESPONSE_ERR)"

text \<open>
  The response to a request whose reply from the table is known. It is not always the one byte, for
  success or failure, that \<open>serverapi.h\<close> and the comment of \<open>make_simple_request\<close> describe, which is
  \<open>one_byte_response\<close>: \<open>worker_handle_lock_file\<close> answers \<open>RESPONSE_OK\<close> whatever the reply is, for a
  missing file and for a client that has to wait too, since no error code is negative; and an unlock
  that hands the lock over writes a second byte, to the new owner, who has had its response before.
\<close>

fun one_byte_response :: "int \<Rightarrow> reply \<Rightarrow> (int \<times> byte list) list" where
  "one_byte_response fd (Reply e new_fd) = [(fd, [status_byte e])]"

fun meta_response :: "int \<Rightarrow> ApiOp \<Rightarrow> reply \<Rightarrow> (int \<times> byte list) list" where
  "meta_response fd API_OP_LOCK_FILE (Reply e new_fd) = [(fd, [RESPONSE_OK])]"
| "meta_response fd API_OP_UNLOCK_FILE (Reply e new_fd) =
     (fd, [status_byte e]) # (if new_fd \<noteq> -1 then [(new_fd, [RESPONSE_OK])] else [])"
| "meta_response fd _ (Reply e new_fd) = [(fd, [status_byte e])]"

text \<open>A client's request: its descriptor, the operation and the path.\<close>

type_synonym request = "int \<times> ApiOp \<times> cstring"

fun wf_request :: "request \<Rightarrow> bool" where
  "wf_request (fd, aop, k) \<longleftrightarrow> meta_request fd aop k \<noteq> None \<and> 0 \<notin> set k \<and> length k < 2 ^ 32"

fun handle_request :: "hash_fn \<Rightarrow> request \<Rightarrow> Server \<Rightarrow> (unit \<times> Server) result" where
  "handle_request XXH64 (fd, aop, k) s =
     (let msg = frame (api_op_code aop # k) in
      bind_result (worker_handle_message XXH64 fd msg (of_nat (length msg)) s) (\<lambda>s. Inr ((), s)))"

fun spec_request :: "request \<Rightarrow> store \<times> (int \<times> byte list) list \<Rightarrow> (unit \<times> store \<times> (int \<times> byte list) list) result" where
  "spec_request (fd, aop, k) (m, outs) =
     (case meta_request fd aop k of
        None \<Rightarrow> Inr ((), m, outs)
      | Some x \<Rightarrow> bind_result (spec_exec x m) (\<lambda>(r, m). Inr ((), m, outs @ meta_response fd aop r)))"

definition server_ok :: "hash_fn \<Rightarrow> Server \<Rightarrow> bool" where
  "server_ok XXH64 s \<longleftrightarrow> htable_inv XXH64 (table s) \<and> script s = []"

definition server_view :: "hash_fn \<Rightarrow> Server \<Rightarrow> store \<times> (int \<times> byte list) list" where
  "server_view XXH64 s = (htable_lookup XXH64 (table s), out s)"

text \<open>The message of a write request, and the pieces in which a file is sent.\<close>

definition write_message :: "cstring \<Rightarrow> byte list \<Rightarrow> byte list" where
  "write_message k data =
     frame (api_op_code API_OP_WRITE_FILE #
       u64_to_big_endian (of_nat (length k)) @ u64_to_big_endian (of_nat (length data)) @ k @ data)"

definition file_pieces :: "int \<Rightarrow> File \<Rightarrow> (int \<times> byte list) list" where
  "file_pieces fd f =
     [(fd, u64_to_big_endian (of_nat (length (key f)))), (fd, u64_to_big_endian (length_in_bytes f)),
      (fd, key f), (fd, content_bytes f)]"

definition sample_server :: "CacheEvictionPolicy \<Rightarrow> meta_op list \<Rightarrow> Server result" where
  "sample_server pol xs =
     bind_result (sample_table pol xs) (\<lambda>(rs, ht). Inr \<lparr>table = ht, out = [], script = [], draws = []\<rparr>)"

subsection \<open>Messages\<close>

lemma frame_split:
  "drop 8 (frame p) = u64_to_big_endian (of_nat (length p)) @ p"
  by (simp add: frame_def)

lemma handle_frame:
  assumes "length arg < 2 ^ 63"
  shows "worker_handle_message XXH64 fd (frame (opc # arg)) (of_nat (length (frame (opc # arg)))) s =
    worker_dispatch XXH64 fd opc arg (of_nat (length arg)) s"
proof -
  let ?n = "Suc (length arg)"
  have len: "length (frame (opc # arg)) = 16 + ?n" by simp
  have "of_nat (16 + ?n) \<noteq> (16 :: u64)"
  proof
    assume "of_nat (16 + ?n) = (16 :: u64)"
    then have "unat (of_nat (16 + ?n) :: u64) = unat (16 :: u64)" by (rule arg_cong)
    moreover have "16 + ?n < 2 ^ 64" using assms by simp
    ultimately show False by (simp only: unat_of_nat_u64) simp
  qed
  moreover have "of_nat (16 + ?n) - 8 = of_nat ?n + (8 :: u64)" "of_nat (16 + ?n) - 8 - 9 = (of_nat (length arg) :: u64)"
    by simp_all
  ultimately show ?thesis
    unfolding worker_handle_message_def len frame_split Let_def
    by (simp add: u64.dec_prefix nth_append)
qed

lemma buf_to_str_all:
  assumes "length k < 2 ^ 63" and "0 \<notin> set k"
  shows "buf_to_str k (of_nat (length k)) = Inr k"
proof -
  have "unat (of_nat (length k) :: u64) = length k" using assms(1) by (intro unat_of_nat_u64) simp
  moreover have "takeWhile (\<lambda>b. b \<noteq> 0) k = k" using assms(2) by (auto simp: takeWhile_eq_all_conv)
  ultimately show ?thesis by (simp add: buf_to_str_def)
qed

lemma send_idle: "script s = [] \<Longrightarrow> send fd bs s = (1, s\<lparr>out := out s @ [(fd, bs)]\<rparr>)"
  by (cases s) (simp add: send_def log_out_def)

lemma send_byte_idle: "script s = [] \<Longrightarrow> send_byte fd b s = s\<lparr>out := out s @ [(fd, [b])]\<rparr>"
  by (cases s) (simp add: send_byte_def log_out_def)

lemma err_code_zero [simp]: "htable_err_code e = 0 \<longleftrightarrow> e = HTABLE_ERR_OK"
  by (cases e) simp_all

lemma err_code_nonneg [simp]: "\<not> htable_err_code e < 0"
  by (cases e) simp_all

lemma response_byte_idle:
  "script s = [] \<Longrightarrow> write_response_byte fd (htable_err_code e) s = s\<lparr>out := out s @ [(fd, [status_byte e])]\<rparr>"
  by (simp add: write_response_byte_def send_byte_idle status_byte_def)

lemma handle_meta:
  assumes x: "meta_request fd aop k = Some x" and k: "0 \<notin> set k" "length k < 2 ^ 32" and sc: "script s = []"
  shows "worker_handle_message XXH64 fd (frame (api_op_code aop # k)) (of_nat (length (frame (api_op_code aop # k)))) s =
    bind_result (htable_exec XXH64 x (table s)) (\<lambda>(r, ht). Inr (s\<lparr>table := ht, out := out s @ meta_response fd aop r\<rparr>))"
proof -
  have len: "length k < 2 ^ 63" using k(2) by simp
  note simps = worker_dispatch_def buf_to_str_all [OF len k(1)] as_reply_def bind_result_assoc
    case_prod_unfold response_byte_idle send_byte_idle sc
  have "worker_dispatch XXH64 fd (api_op_code aop) k (of_nat (length k)) s =
    bind_result (htable_exec XXH64 x (table s)) (\<lambda>(r, ht). Inr (s\<lparr>table := ht, out := out s @ meta_response fd aop r\<rparr>))"
  proof (cases aop)
    case API_OP_UNLOCK_FILE
    with x show ?thesis
      by (auto simp: simps worker_handle_unlock_file_def write_response_byte_def status_byte_def Let_def
          intro!: bind_result_cong)
  qed (use x in \<open>auto simp: simps worker_handle_open_file_def worker_handle_lock_file_def
        worker_handle_close_file_def worker_handle_remove_file_def intro!: bind_result_cong\<close>)
  then show ?thesis unfolding handle_frame [OF len] .
qed

lemma handle_request_refines:
  assumes ok: "server_ok XXH64 s" and wf: "wf_request q"
  shows "refines (server_ok XXH64) (server_view XXH64) (handle_request XXH64 q s) (spec_request q (server_view XXH64 s))"
proof -
  obtain fd aop k where q: "q = (fd, aop, k)" by (cases q) auto
  obtain x where x: "meta_request fd aop k = Some x" and k: "0 \<notin> set k" "length k < 2 ^ 32"
    using wf by (auto simp: q)
  have inv: "htable_inv XXH64 (table s)" and sc: "script s = []" using ok by (simp_all add: server_ok_def)
  have h: "handle_request XXH64 q s = bind_result (htable_exec XXH64 x (table s))
      (\<lambda>(r, ht). Inr ((), s\<lparr>table := ht, out := out s @ meta_response fd aop r\<rparr>))"
    by (simp add: q handle_meta [OF x k sc, simplified] bind_result_assoc case_prod_unfold)
  have sp: "spec_request q (server_view XXH64 s) = bind_result (spec_exec x (htable_lookup XXH64 (table s)))
      (\<lambda>(r, m). Inr ((), m, out s @ meta_response fd aop r))"
    by (simp add: q server_view_def x)
  from htable_exec_refines [OF inv, of x] show ?thesis
    unfolding h sp by (auto simp: refines_def server_ok_def server_view_def sc split: sum.splits)
qed

lemma meta_response_one_byte:
  assumes "meta_request fd aop k = Some x"
  shows "meta_response fd aop (Reply e g) = one_byte_response fd (Reply e g) \<longleftrightarrow>
    (aop = API_OP_LOCK_FILE \<longrightarrow> e = HTABLE_ERR_OK) \<and> (aop = API_OP_UNLOCK_FILE \<longrightarrow> g = -1)"
  using assms by (cases aop) (auto simp: status_byte_def RESPONSE_OK_def RESPONSE_ERR_def)

text \<open>One request, from the map of files.\<close>

lemma handle_spec:
  assumes ok: "server_ok XXH64 s" and k: "0 \<notin> set k" "length k < 2 ^ 32" and x: "meta_request fd aop k = Some x"
    and sp: "spec_exec x (htable_lookup XXH64 (table s)) = Inr (r, m)"
  obtains s' where "handle_request XXH64 (fd, aop, k) s = Inr ((), s')" and "server_ok XXH64 s'"
    and "htable_lookup XXH64 (table s') = m" and "out s' = out s @ meta_response fd aop r"
proof -
  have "wf_request (fd, aop, k)" using k x by simp
  from handle_request_refines [OF ok this] sp x that show thesis
    by (auto simp: refines_def server_view_def simp del: handle_request.simps split: sum.splits)
qed

interpretation worker: simulation wf_request "server_ok XXH64" "server_view XXH64" "handle_request XXH64" spec_request
  for XXH64
  by unfold_locales (rule handle_request_refines)


subsection \<open>Reading\<close>

lemma file_region_ok:
  assumes "file_ok f"
  shows "file_region f = Inr (content_bytes f)"
proof (cases "contents f")
  case None
  then show ?thesis using assms by (simp add: file_region_def content_bytes_def file_ok_def unat_eq_0)
next
  case (Some blk)
  then show ?thesis using assms by (simp add: file_region_def content_bytes_def file_ok_def)
qed

lemma handle_read:
  assumes ok: "server_ok XXH64 s" and k: "0 \<notin> set k" "length k < 2 ^ 32"
  shows "worker_handle_message XXH64 fd (frame (api_op_code API_OP_READ_FILE # k))
      (of_nat (length (frame (api_op_code API_OP_READ_FILE # k)))) s =
    Inr (s\<lparr>out := out s @ (case htable_lookup XXH64 (table s) k of
        None \<Rightarrow> [(fd, [RESPONSE_ERR])]
      | Some f \<Rightarrow> [(fd, RESPONSE_OK # u64_to_big_endian (length_in_bytes f)), (fd, content_bytes f)])\<rparr>)"
proof -
  have inv: "htable_inv XXH64 (table s)" and sc: "script s = []" using ok by (simp_all add: server_ok_def)
  have len: "length k < 2 ^ 63" using k(2) by simp
  have d: "worker_dispatch XXH64 fd (api_op_code API_OP_READ_FILE) k (of_nat (length k)) s =
      worker_handle_read_file XXH64 fd k (of_nat (length k)) s"
    by (simp add: worker_dispatch_def)
  show ?thesis
    unfolding handle_frame [OF len] d
  proof (cases rule: core_fetch_cases [OF inv_core [OF inv], of k, case_names missing found])
    case missing
    then show "worker_handle_read_file XXH64 fd k (of_nat (length k)) s = Inr (s\<lparr>out := out s @ (case htable_lookup XXH64 (table s) k of
        None \<Rightarrow> [(fd, [RESPONSE_ERR])]
      | Some f \<Rightarrow> [(fd, RESPONSE_OK # u64_to_big_endian (length_in_bytes f)), (fd, content_bytes f)])\<rparr>)"
      using sc by (simp add: worker_handle_read_file_def buf_to_str_all [OF len k(1)] htable_fetch_file_def
          write_response_byte_def send_byte_idle)
  next
    case (found a it)
    have "htable_release_file XXH64 (lockb (htable_bucket_ptr XXH64 (table s) k) (table s)) k = table s"
      using core_release(2) [OF inv_core [OF inv]] .
    with found sc show "worker_handle_read_file XXH64 fd k (of_nat (length k)) s = Inr (s\<lparr>out := out s @ (case htable_lookup XXH64 (table s) k of
        None \<Rightarrow> [(fd, [RESPONSE_ERR])]
      | Some f \<Rightarrow> [(fd, RESPONSE_OK # u64_to_big_endian (length_in_bytes f)), (fd, content_bytes f)])\<rparr>)"
      by (simp add: worker_handle_read_file_def buf_to_str_all [OF len k(1)] htable_fetch_file_def load_item_def
          send_idle file_region_ok [OF core_file_ok [OF inv_core [OF inv] found(1)]])
  qed
qed

lemma send_file_idle:
  assumes "script s = []" and "file_ok f" and "0 \<le> ret"
  obtains ret' where "0 \<le> ret'" and "send_file fd ret f s = Inr (ret', s\<lparr>out := out s @ file_pieces fd f\<rparr>)"
proof -
  have "send_file fd ret f s = Inr (ret OR 1 OR 1 OR 1 OR 1, s\<lparr>out := out s @ file_pieces fd f\<rparr>)"
    using assms(1,2) by (simp add: send_file_def send_idle file_region_ok file_pieces_def)
  moreover have "0 \<le> ret OR 1 OR 1 OR 1 OR 1" using assms(3) by simp
  ultimately show thesis using that by blast
qed

lemma visitor_skip_items:
  assumes "visitor_skip n v ht = Inr (b, v', ht')"
  shows "items ht' = items ht"
  using assms
proof (induction n arbitrary: v ht)
  case 0
  then show ?case by (simp add: visitor_skip.simps split: if_splits)
next
  case (Suc n)
  show ?case
  proof (cases "next_visit v")
    case (Some a)
    with Suc.prems show ?thesis by (simp add: visitor_skip.simps)
  next
    case None
    have l: "items h' = items h" if "lock_bucket i h = Inr h'" for i h h'
      using that by (auto simp: lock_bucket_def split: if_splits)
    from Suc.prems Suc.IH l show ?thesis
      unfolding visitor_skip_None [OF None] Let_def
      by (fastforce simp: bind_result_eq_Inr unlock_bucket_def split: if_splits)
  qed
qed

lemma visitor_next_items:
  assumes "htable_visitor_next v ht = Inr (p, v', ht')"
  shows "items ht' = items ht"
  using assms visitor_skip_items
  by (auto simp: htable_visitor_next_def bind_result_eq_Inr unlock_bucket_def split: if_splits option.splits)

lemma read_n_loop_visits:
  assumes "visit_loop fuel v (table s) = Inr (fs, ht')" and "script s = []" and "0 \<le> ret"
    and "\<forall>a it. cells (items (table s)) a = Some it \<longrightarrow> file_ok (file it)"
  shows "\<exists>ret'. read_n_loop fuel fd ret v s =
    Inr (ret', s\<lparr>table := ht', out := out s @ concat (map (file_pieces fd) fs)\<rparr>)"
  using assms
proof (induction fuel arbitrary: v s ret fs)
  case (Suc fuel)
  obtain p v1 ht1 where n: "htable_visitor_next v (table s) = Inr (p, v1, ht1)"
    using Suc.prems(1) by (auto simp: bind_result_eq_Inr)
  show ?case
  proof (cases p)
    case None
    with Suc.prems n show ?thesis by simp
  next
    case (Some a)
    obtain it fs1 where it: "load_item a ht1 = Inr it" "visit_loop fuel v1 ht1 = Inr (fs1, ht')" "fs = file it # fs1"
      using Suc.prems(1) n Some by (auto simp: bind_result_eq_Inr)
    have items: "items ht1 = items (table s)" using visitor_next_items [OF n] .
    then have "file_ok (file it)"
      using it(1) Suc.prems(4) by (auto simp: load_item_def heap_load_def split: option.splits)
    then obtain ret1 where r: "0 \<le> ret1" "send_file fd ret (file it) (s\<lparr>table := ht1\<rparr>) =
        Inr (ret1, (s\<lparr>table := ht1\<rparr>)\<lparr>out := out s @ file_pieces fd (file it)\<rparr>)"
      using send_file_idle [of "s\<lparr>table := ht1\<rparr>" "file it" ret fd] Suc.prems(2,3) by auto
    let ?s = "s\<lparr>table := ht1, out := out s @ file_pieces fd (file it)\<rparr>"
    have "\<exists>ret'. read_n_loop fuel fd ret1 v1 ?s =
        Inr (ret', ?s\<lparr>table := ht', out := out ?s @ concat (map (file_pieces fd) fs1)\<rparr>)"
      using Suc.prems(2,4) r(1) it(2) items by (intro Suc.IH) simp_all
    then show ?thesis using n Some it r by auto
  qed
qed simp

lemma handle_read_n_all:
  assumes ok: "server_ok XXH64 s" and p: "print_summary (table s) = Inr (st, fs, ht')"
  shows "worker_handle_message XXH64 fd (frame (api_op_code API_OP_READ_N_FILES # u64_to_big_endian 0))
      (of_nat (length (frame (api_op_code API_OP_READ_N_FILES # u64_to_big_endian 0)))) s =
    Inr (s\<lparr>table := ht', out := out s @ concat (map (file_pieces fd) fs) @ [(fd, replicate 8 0)]\<rparr>)"
proof -
  have inv: "htable_inv XXH64 (table s)" and sc: "script s = []" using ok by (simp_all add: server_ok_def)
  obtain v ht1 where v: "htable_visit (table s) 0 = Inr (v, ht1)"
    and l: "visit_loop (brk (items (table s)) + 2) v ht1 = Inr (fs, ht')"
    using p by (auto simp: print_summary_def bind_result_eq_Inr)
  have "items ht1 = items (table s)"
    using v by (auto simp: htable_visit_def lock_bucket_def Let_def bind_result_eq_Inr split: if_splits)
  then have fok: "\<forall>a it. cells (items (table (s\<lparr>table := ht1\<rparr>))) a = Some it \<longrightarrow> file_ok (file it)"
    using core_file_ok [OF inv_core [OF inv]] by simp
  obtain ret' where r: "read_n_loop (brk (items (table s)) + 2) fd 0 v (s\<lparr>table := ht1\<rparr>) =
      Inr (ret', s\<lparr>table := ht', out := out s @ concat (map (file_pieces fd) fs)\<rparr>)"
    using read_n_loop_visits [of "brk (items (table s)) + 2" v "s\<lparr>table := ht1\<rparr>" fs ht' 0 fd] l sc fok by auto
  have "(of_nat (length (u64_to_big_endian 0)) :: u64) = 8" by simp
  moreover have "big_endian_to_u64 (u64_to_big_endian 0) = Inr 0" by (rule u64.dec_enc)
  ultimately have "worker_dispatch XXH64 fd (api_op_code API_OP_READ_N_FILES) (u64_to_big_endian 0)
      (of_nat (length (u64_to_big_endian 0))) s =
    Inr (s\<lparr>table := ht', out := out s @ concat (map (file_pieces fd) fs) @ [(fd, replicate 8 0)]\<rparr>)"
    using v r sc
    by (simp add: worker_dispatch_def worker_handle_read_n_files_def send_idle del: read_n_loop.simps length_u64_to_big_endian)
  then show ?thesis using handle_frame [of "u64_to_big_endian 0"] by simp
qed


subsection \<open>Writing\<close>

lemma handle_write:
  assumes k: "0 \<notin> set k" "length k < 2 ^ 32" and data: "length data < 2 ^ 62" and sc: "script s = []"
  shows "worker_handle_message XXH64 fd (write_message k data) (of_nat (length (write_message k data))) s =
    bind_result (htable_replace_file_contents XXH64 (draws s) (table s) k data) (\<lambda>(e, evicted, ds, ht).
      send_evicted fd (htable_err_code e OR 1 OR 1) evicted
        (s\<lparr>table := ht, draws := ds,
           out := out s @ [(fd, [RESPONSE_OK]), (fd, u64_to_big_endian (ucast (of_nat (length evicted) :: u32)))]\<rparr>))"
proof -
  let ?a = "u64_to_big_endian (of_nat (length k)) @ u64_to_big_endian (of_nat (length data)) @ k @ data"
  have len: "length ?a < 2 ^ 63" using k(2) data by simp
  have n: "length ?a = 16 + length k + length data" by simp
  have uk: "unat (of_nat (length k) :: u64) = length k" using k(2) by (intro unat_of_nat_u64) simp
  have ud: "unat (of_nat (length data) :: u64) = length data" using data by (intro unat_of_nat_u64) simp
  have lt: "\<not> (of_nat (length ?a) :: u64) < 16"
  proof -
    have "unat (of_nat (length ?a) :: u64) = length ?a" using len by (intro unat_of_nat_u64) simp
    then show ?thesis using n by (simp only: word_less_nat_alt) simp
  qed
  have eq: "(of_nat (length ?a) :: u64) = 16 + of_nat (length k) + of_nat (length data)" unfolding n by simp
  have path: "buf_to_str (k @ data) (of_nat (length k)) = Inr k"
    using k(1) uk by (auto simp: buf_to_str_def takeWhile_eq_all_conv)
  have be: "big_endian_to_u64 ?a = Inr (of_nat (length k))"
    "big_endian_to_u64 (u64_to_big_endian (of_nat (length data)) @ k @ data) = Inr (of_nat (length data))"
    by (rule u64.dec_prefix)+
  have nn: "\<not> htable_err_code e OR 1 OR 1 < 0" for e using err_code_nonneg [of e] by (simp add: not_less)
  have "worker_handle_write_file XXH64 fd ?a (of_nat (length ?a)) s =
    bind_result (htable_replace_file_contents XXH64 (draws s) (table s) k data) (\<lambda>(e, evicted, ds, ht).
      send_evicted fd (htable_err_code e OR 1 OR 1) evicted
        (s\<lparr>table := ht, draws := ds,
           out := out s @ [(fd, [RESPONSE_OK]), (fd, u64_to_big_endian (ucast (of_nat (length evicted) :: u32)))]\<rparr>))"
    unfolding worker_handle_write_file_def Let_def be bind_result_Inr
    by (simp add: lt [unfolded eq] eq be(2) path uk ud send_idle sc nn case_prod_unfold del: length_append)
  moreover have "worker_dispatch XXH64 fd (api_op_code API_OP_WRITE_FILE) ?a (of_nat (length ?a)) s =
      worker_handle_write_file XXH64 fd ?a (of_nat (length ?a)) s"
    by (simp add: worker_dispatch_def)
  ultimately show ?thesis unfolding write_message_def handle_frame [OF len] by (simp only:)
qed

lemma sample_server_ok:
  assumes "run spec_exec xs Map.empty = Inr (rs, m)"
  obtains s where "sample_server pol xs = Inr s" and "server_ok (\<lambda>_. 0) s"
    and "htable_lookup (\<lambda>_. 0) (table s) = m" and "out s = []"
proof -
  obtain ht where ht: "sample_table pol xs = Inr (rs, ht)" "htable_inv (\<lambda>_. 0) ht" "htable_lookup (\<lambda>_. 0) ht = m"
    using sample_run [OF assms] by blast
  show thesis
    by (rule that [of "\<lparr>table = ht, out = [], script = [], draws = []\<rparr>"])
      (simp_all add: sample_server_def ht server_ok_def)
qed

lemma sample_server_created:
  obtains s where "sample_server pol [Create [97] 3 l] = Inr s" and "server_ok (\<lambda>_. 0) s"
    and "htable_lookup (\<lambda>_. 0) (table s) = [[97] \<mapsto> new_file [97] 3 l]" and "out s = []"
proof -
  have "run spec_exec [Create [97] 3 l] Map.empty = Inr ([Reply HTABLE_ERR_OK (-1)], [[97] \<mapsto> new_file [97] 3 l])"
    by (simp add: as_reply_def spec_create_def)
  then show thesis using sample_server_ok that by blast
qed

text \<open>
  When a write request fits the limits of the table, the server answers that it succeeded and
  evicted nothing, and a read request for the same path, from any client, is then answered with
  exactly the bytes that were written.
\<close>

lemma write_then_read:
  assumes ok: "server_ok XXH64 s" and k: "0 \<notin> set k" "length k < 2 ^ 32"
    and f: "htable_lookup XXH64 (table s) k = Some f" and data: "data \<noteq> []" "length data < 2 ^ 62"
    and fits: "\<not> items_count (stats (table s)) > max_items_count (table s)"
      "\<not> total_space_in_bytes (stats (table s)) + of_nat (length data) - length_in_bytes f > max_space_in_bytes (table s)"
  shows "\<exists>s1 s2.
    worker_handle_message XXH64 fd (write_message k data) (of_nat (length (write_message k data))) s = Inr s1 \<and>
    out s1 = out s @ [(fd, [RESPONSE_OK]), (fd, u64_to_big_endian 0)] \<and>
    worker_handle_message XXH64 fd' (frame (api_op_code API_OP_READ_FILE # k))
      (of_nat (length (frame (api_op_code API_OP_READ_FILE # k)))) s1 = Inr s2 \<and>
    out s2 = out s1 @ [(fd', RESPONSE_OK # u64_to_big_endian (of_nat (length data))), (fd', data)]"
proof -
  have inv: "htable_inv XXH64 (table s)" and sc: "script s = []" using ok by (simp_all add: server_ok_def)
  have small: "length data < 2 ^ 64" using data(2) by simp
  obtain ht1 where r: "htable_replace_file_contents XXH64 (draws s) (table s) k data = htable_evict_files XXH64 (draws s) ht1"
    "htable_inv XXH64 ht1" "htable_lookup XXH64 ht1 = (htable_lookup XXH64 (table s))(k \<mapsto> put_contents data f)"
    "\<not> htable_over_limit ht1"
    using replace_stores [OF inv f small, of "draws s"] data(1) fits by metis
  let ?s1 = "s\<lparr>table := ht1, out := out s @ [(fd, [RESPONSE_OK]), (fd, u64_to_big_endian 0)]\<rparr>"
  have w: "worker_handle_message XXH64 fd (write_message k data) (of_nat (length (write_message k data))) s = Inr ?s1"
    unfolding handle_write [OF k data(2) sc] r(1) evict_nothing [OF r(2,4)] by simp
  have "server_ok XXH64 ?s1" using r(2) sc by (simp add: server_ok_def)
  from handle_read [OF this k, of fd'] w show ?thesis
    by (auto simp: r(3) put_contents_def content_bytes_def)
qed

subsection \<open>Properties\<close>

text \<open>
  C9: Complete messages that carry an open, create, lock, unlock, close or remove request, one after the
  other, are handled like the same requests on the plain map of files: the workers never
  fault except where the map does, keep the table's invariant, and write the bytes of
  \<open>meta_response\<close> for each reply of the map. These bytes are the documented ones, a single byte
  that says whether the reply was \<open>HTABLE_ERR_OK\<close>, except in two cases: a lock request is answered OK
  even when its reply is an error or tells the client to wait, and an unlock request that hands the lock over
  sends a second byte to the new owner. (A refused removal is no third case, because its reply is
  \<open>HTABLE_ERR_OK\<close> in the table already.)
\<close>

theorem worker_requests_refine:
  assumes "server_ok XXH64 s" and "list_all wf_request qs"
  shows "refines (server_ok XXH64) (server_view XXH64)
      (run (handle_request XXH64) qs s) (run spec_request qs (htable_lookup XXH64 (table s), out s)) \<and>
    (\<forall>fd aop k x e g. meta_request fd aop k = Some x \<longrightarrow>
      (meta_response fd aop (Reply e g) = one_byte_response fd (Reply e g) \<longleftrightarrow>
       (aop = API_OP_LOCK_FILE \<longrightarrow> e = HTABLE_ERR_OK) \<and> (aop = API_OP_UNLOCK_FILE \<longrightarrow> g = -1)))"
  using worker.run_refines [OF assms] meta_response_one_byte by (simp add: server_view_def)

theorem worker_requests_refine_witness:
  "\<exists>s. sample_server CACHE_EVICTION_POLICY_FIFO [Create [97] 3 True] = Inr s \<and>
     refines (server_ok (\<lambda>_. 0)) (server_view (\<lambda>_. 0))
       (run (handle_request (\<lambda>_. 0)) [(4, API_OP_LOCK_FILE, [97]), (3, API_OP_UNLOCK_FILE, [97])] s)
       (run spec_request [(4, API_OP_LOCK_FILE, [97]), (3, API_OP_UNLOCK_FILE, [97])]
          (htable_lookup (\<lambda>_. 0) (table s), out s))"
proof -
  obtain s where s: "sample_server CACHE_EVICTION_POLICY_FIFO [Create [97] 3 True] = Inr s" "server_ok (\<lambda>_. 0) s"
    by (rule sample_server_created)
  from conjunct1 [OF worker_requests_refine [OF s(2), of "[(4, API_OP_LOCK_FILE, [97]), (3, API_OP_UNLOCK_FILE, [97])]"]] s(1)
  show ?thesis by (simp del: run.simps)
qed

text \<open>
  C30: A read request is answered with the code for success, the length and exactly the bytes of the
  file, or with the code for failure when there is no such file; the table is left as it
  was, mutexes included. Neither the open flag nor the lock of the file is looked at.
\<close>

theorem read_file_response:
  assumes "server_ok XXH64 s" and "0 \<notin> set k" and "length k < 2 ^ 32"
  shows "worker_handle_message XXH64 fd (frame (api_op_code API_OP_READ_FILE # k))
      (of_nat (length (frame (api_op_code API_OP_READ_FILE # k)))) s =
    Inr (s\<lparr>out := out s @ (case htable_lookup XXH64 (table s) k of
        None \<Rightarrow> [(fd, [RESPONSE_ERR])]
      | Some f \<Rightarrow> [(fd, RESPONSE_OK # u64_to_big_endian (length_in_bytes f)), (fd, content_bytes f)])\<rparr>)"
  using assms by (rule handle_read)

theorem read_file_response_witness:
  "\<exists>s. sample_server CACHE_EVICTION_POLICY_FIFO [Create [97] 3 True] = Inr s \<and>
     worker_handle_message (\<lambda>_. 0) 5 (frame [6, 97]) (of_nat (length (frame [6, 97]))) s =
       Inr (s\<lparr>out := [(5, 0 # u64_to_big_endian 0), (5, [])]\<rparr>)"
proof -
  obtain s where s: "sample_server CACHE_EVICTION_POLICY_FIFO [Create [97] 3 True] = Inr s" "server_ok (\<lambda>_. 0) s"
    "htable_lookup (\<lambda>_. 0) (table s) = [[97] \<mapsto> new_file [97] 3 True]" "out s = []"
    by (rule sample_server_created)
  from read_file_response [OF s(2), of "[97]" 5] s show ?thesis
    by (auto simp: new_file_def content_bytes_def RESPONSE_OK_def)
qed

text \<open>
  A write request for a path the server does not have is answered with the code for success and
  no evicted files, although nothing was stored.
\<close>

lemma write_missing_file_answers_ok:
  assumes ok: "server_ok XXH64 s" and k: "0 \<notin> set k" "length k < 2 ^ 32"
    and f: "htable_lookup XXH64 (table s) k = None" and data: "length data < 2 ^ 62"
  shows "worker_handle_message XXH64 fd (write_message k data) (of_nat (length (write_message k data))) s =
    Inr (s\<lparr>out := out s @ [(fd, [RESPONSE_OK]), (fd, u64_to_big_endian 0)]\<rparr>)"
proof -
  have inv: "htable_inv XXH64 (table s)" and sc: "script s = []" using ok by (simp_all add: server_ok_def)
  have "htable_fetch_item XXH64 (table s) k = Inr (None, table s)"
    using f by (cases rule: core_fetch_cases [OF inv_core [OF inv], of k]) auto
  then have "htable_replace_file_contents XXH64 (draws s) (table s) k data =
      Inr (HTABLE_ERR_FILE_NOT_FOUND, [], draws s, table s)"
    by (simp add: htable_replace_file_contents_def htable_fetch_file_def)
  then show ?thesis unfolding handle_write [OF k data sc] by simp
qed

text \<open>
  A request to append to a file is not recognised by the server: the message is dropped and no
  response is written, while the client waits for one.
\<close>

lemma append_request_unanswered:
  assumes "length arg < 2 ^ 63"
  shows "worker_handle_message XXH64 fd (frame (api_op_code API_OP_APPEND_TO_FILE # arg))
    (of_nat (length (frame (api_op_code API_OP_APPEND_TO_FILE # arg)))) s = Inr s"
  unfolding handle_frame [OF assms] by (simp add: worker_dispatch_def)

text \<open>
  C31: A request to read all files is answered with the files a complete visit returns, without the
  response code and the number of files the client expects in front of them. When the
  table is not empty, the request leaves a bucket locked: there is a stored file whose
  next access makes the worker wait for ever.
\<close>

theorem read_all_files_response:
  assumes ok: "server_ok XXH64 s" and k0: "htable_lookup XXH64 (table s) k0 = Some f0"
  shows "\<exists>fs ht' k f. print_summary (table s) = Inr (stats (table s), fs, ht') \<and>
    worker_handle_message XXH64 fd (frame (api_op_code API_OP_READ_N_FILES # u64_to_big_endian 0))
      (of_nat (length (frame (api_op_code API_OP_READ_N_FILES # u64_to_big_endian 0)))) s =
    Inr (s\<lparr>table := ht', out := out s @ concat (map (file_pieces fd) fs) @ [(fd, replicate 8 0)]\<rparr>) \<and>
    htable_lookup XXH64 (table s) k = Some f \<and> htable_fetch_file XXH64 ht' k = Inl Deadlock"
proof -
  have inv: "htable_inv XXH64 (table s)" using ok by (simp add: server_ok_def)
  obtain ass where rep: "htable_rep XXH64 (table s) ass" using core_rep [OF inv_core [OF inv]] by blast
  obtain i where i: "i < length ass" "ass ! i \<noteq> []" "print_summary (table s) =
      Inr (stats (table s), seg_files (table s) (if i = 0 then tl (ass ! 0) else ass ! i), lockb i (table s))"
    using nonempty_visit [OF rep core_unlocked [OF inv_core [OF inv]] k0] by blast
  obtain k f where "htable_lookup XXH64 (table s) k = Some f" "htable_bucket_ptr XXH64 (table s) k = i"
    using bucket_has_file [OF rep i(1,2)] by blast
  with fetch_locked_bucket [OF rep] handle_read_n_all [OF ok i(3), of fd] i(3) show ?thesis
    by (auto simp: htable_fetch_file_def)
qed

theorem read_all_files_response_witness:
  "\<exists>s s' k f. sample_server CACHE_EVICTION_POLICY_FIFO [Create [97] 3 True] = Inr s \<and>
     worker_handle_message (\<lambda>_. 0) 3 (frame (7 # u64_to_big_endian 0)) (of_nat (length (frame (7 # u64_to_big_endian 0)))) s = Inr s' \<and>
     htable_lookup (\<lambda>_. 0) (table s) k = Some f \<and> htable_fetch_file (\<lambda>_. 0) (table s') k = Inl Deadlock"
proof -
  obtain s where s: "sample_server CACHE_EVICTION_POLICY_FIFO [Create [97] 3 True] = Inr s" "server_ok (\<lambda>_. 0) s"
    "htable_lookup (\<lambda>_. 0) (table s) = [[97] \<mapsto> new_file [97] 3 True]"
    by (rule sample_server_created)
  have "htable_lookup (\<lambda>_. 0) (table s) [97] = Some (new_file [97] 3 True)" by (simp add: s(3))
  from read_all_files_response [OF s(2) this, of 3] s(1) show ?thesis by fastforce
qed

end
