(* ===== verification/HTable_Free.thy ===== *)
theory HTable_Free
  imports HTable_Evict
begin

text \<open>
  Freeing the table: \<open>htable_free\<close> and \<open>fifo_free\<close> of \<open>src/server/htable.c\<close>. Every item of
  the table is freed, exactly once; the queue of the FIFO policy is freed correctly only as
  long as nothing was evicted from it.
\<close>

fun free_chain :: "nat \<Rightarrow> ptr \<Rightarrow> HTableItem heap \<Rightarrow> HTableItem heap result" where
  "free_chain fuel None h = Inr h"
| "free_chain 0 (Some a) h = Inl Stuck"
| "free_chain (Suc fuel) (Some a) h =
     bind_result (heap_load a h) (\<lambda>it. free_chain fuel (next_item it) (heap_free a h))"

fun free_buckets :: "HTableBucket list \<Rightarrow> HTableItem heap \<Rightarrow> HTableItem heap result" where
  "free_buckets [] h = Inr h"
| "free_buckets (b # bs) h =
     bind_result (free_chain (Suc (brk h)) (head b) h) (free_buckets bs)"

fun fifo_free_loop :: "nat \<Rightarrow> ptr \<Rightarrow> FifoItem heap \<Rightarrow> FifoItem heap result" where
  "fifo_free_loop fuel None h = Inr h"
| "fifo_free_loop 0 (Some a) h = Inl Stuck"
| "fifo_free_loop (Suc fuel) (Some a) h =
     bind_result (heap_load a h) (\<lambda>it. fifo_free_loop fuel (fifo_prev it) (heap_free a h))"

definition fifo_free :: "Fifo option \<Rightarrow> FifoItem heap result" where
  "fifo_free ff =
     (case ff of
        None \<Rightarrow> Inr heap_empty
      | Some ff \<Rightarrow> fifo_free_loop (Suc (brk (fifo_items ff))) (fifo_head ff) (fifo_items ff))"

text \<open>What is left of the two heaps when the table has been freed.\<close>

definition htable_free :: "HTable option \<Rightarrow> (HTableItem heap \<times> FifoItem heap) result" where
  "htable_free p =
     (case p of
        None \<Rightarrow> Inr (heap_empty, heap_empty)
      | Some ht \<Rightarrow>
          bind_result (free_buckets (buckets ht) (items ht)) (\<lambda>h.
          bind_result (fifo_free (fifo ht)) (\<lambda>hf. Inr (h, hf))))"


subsection \<open>The items\<close>

lemma free_chain_dseg:
  assumes "dseg (cells h) prv p as None" and "distinct as" and "length as \<le> fuel"
  shows "free_chain fuel p h = Inr (h\<lparr>cells := cells h |` (- set as)\<rparr>)"
  using assms
proof (induction as arbitrary: prv p h fuel)
  case (Cons a as)
  then obtain it fuel' where it: "p = Some a" "cells h a = Some it" "fuel = Suc fuel'"
    "dseg (cells h) (Some a) (next_item it) as None" by (cases fuel) auto
  have d: "dseg (cells (heap_free a h)) (Some a) (next_item it) as None"
    using it(4) Cons.prems(2) by simp
  have "free_chain fuel' (next_item it) (heap_free a h) =
      Inr ((heap_free a h)\<lparr>cells := cells (heap_free a h) |` (- set as)\<rparr>)"
    using Cons.prems(2,3) it(3) by (intro Cons.IH [OF d]) simp_all
  moreover have "(cells h)(a := None) |` (- set as) = cells h |` (- set (a # as))"
    by (auto simp: restrict_map_def fun_eq_iff)
  ultimately show ?case using it by (simp add: heap_free_def)
qed (simp add: restrict_map_def)

lemma free_buckets_dseg:
  assumes "list_all2 (\<lambda>b as. dseg (cells h) None (head b) as None) bs ass"
    and "distinct (concat ass)" and "\<forall>as \<in> set ass. length as \<le> brk h"
  shows "free_buckets bs h = Inr (h\<lparr>cells := cells h |` (- set (concat ass))\<rparr>)"
  using assms
proof (induction ass arbitrary: bs h rule: list.induct)
  case (Cons as ass)
  then obtain b bs' where bs: "bs = b # bs'" "dseg (cells h) None (head b) as None"
    "list_all2 (\<lambda>b as. dseg (cells h) None (head b) as None) bs' ass"
    by (auto simp: list_all2_Cons2)
  let ?h = "h\<lparr>cells := cells h |` (- set as)\<rparr>"
  have f: "free_chain (Suc (brk h)) (head b) h = Inr ?h"
    using bs(2) Cons.prems by (intro free_chain_dseg) auto
  have "list_all2 (\<lambda>b as. dseg (cells ?h) None (head b) as None) bs' ass"
  proof (rule list.rel_mono_strong [OF bs(3)])
    fix b' as' assume "as' \<in> set ass" and d: "dseg (cells h) None (head b') as' None"
    then have "set as \<inter> set as' = {}" using Cons.prems(2) by auto
    then have "cells ?h c = cells h c" if "c \<in> set as'" for c
      using that by (auto simp: restrict_map_def)
    then show "dseg (cells ?h) None (head b') as' None" using d dseg_frame [of as' "cells ?h" "cells h"] by simp
  qed
  then have "free_buckets bs' ?h = Inr (?h\<lparr>cells := cells ?h |` (- set (concat ass))\<rparr>)"
    using Cons.prems by (intro Cons.IH) simp_all
  then show ?case using f by (simp add: bs(1) Int_commute)
qed (simp add: restrict_map_def)

lemma free_buckets_all:
  assumes "htable_rep XXH64 ht ass"
  shows "free_buckets (buckets ht) (items ht) = Inr ((items ht)\<lparr>cells := Map.empty\<rparr>)"
proof -
  have all: "set (concat ass) = dom (cells (items ht))" "distinct (concat ass)" "heap_ok (items ht)"
    using assms by (auto simp: htable_rep_def)
  have seg: "dseg (cells (items ht)) None (head (buckets ht ! i)) (ass ! i) None \<and> distinct (ass ! i)"
    if "i < length ass" for i
    using assms that by (auto simp: htable_rep_def bucket_rep_def)
  have "list_all2 (\<lambda>b as. dseg (cells (items ht)) None (head b) as None) (buckets ht) ass"
    using seg assms by (auto simp: list_all2_conv_all_nth htable_rep_def)
  moreover have "length as \<le> brk (items ht)" if "as \<in> set ass" for as
  proof -
    from that obtain i where "i < length ass" "as = ass ! i" by (auto simp: in_set_conv_nth)
    with seg show ?thesis using all(3) dseg_dom by (blast intro: heap_ok_length_le)
  qed
  ultimately have "free_buckets (buckets ht) (items ht) =
      Inr ((items ht)\<lparr>cells := cells (items ht) |` (- set (concat ass))\<rparr>)"
    using all(2) by (intro free_buckets_dseg) auto
  moreover have "cells (items ht) |` (- dom (cells (items ht))) = Map.empty"
    by (auto simp: restrict_map_def fun_eq_iff)
  ultimately show ?thesis by (simp only: all(1))
qed

subsection \<open>The queue of the FIFO policy\<close>

lemma fifo_of_snoc: "fifo_of (ks @ [k]) = fifo_add_file (fifo_of ks) k"
  by (simp add: fifo_of_def)

text \<open>The queue as the code builds it: item \<open>i\<close> holds the \<open>i\<close>-th path and points to item \<open>i - 1\<close>.\<close>

lemma fifo_of_layout:
  "brk (fifo_items (fifo_of ks)) = length ks \<and>
   fifo_head (fifo_of ks) = (if ks = [] then None else Some (length ks - 1)) \<and>
   fifo_last (fifo_of ks) = (if ks = [] then None else Some 0) \<and>
   cells (fifo_items (fifo_of ks)) =
     (\<lambda>i. if i < length ks then Some \<lparr>fifo_key = ks ! i, fifo_prev = (if i = 0 then None else Some (i - 1))\<rparr> else None)"
proof (induction ks rule: rev_induct)
  case Nil
  then show ?case by (simp add: fifo_of_def fifo_create_def heap_empty_def)
next
  case (snoc k ks)
  then show ?case
    unfolding fifo_of_snoc by (auto simp: fifo_add_file_def heap_alloc_def fun_eq_iff nth_append)
qed

definition fifo_chain :: "FifoItem heap \<Rightarrow> nat \<Rightarrow> bool" where
  "fifo_chain h i \<longleftrightarrow> map_option fifo_prev (cells h i) = Some (if i = 0 then None else Some (i - 1))"

lemma fifo_free_loop_chain:
  assumes "\<And>i. i < n \<Longrightarrow> fifo_chain h i" and "n \<le> fuel"
  shows "\<exists>h'. fifo_free_loop fuel (if n = 0 then None else Some (n - 1)) h = Inr h' \<and>
    dom (cells h') = dom (cells h) - {..<n}"
  using assms
proof (induction n arbitrary: h fuel)
  case (Suc n)
  then obtain fuel' where fuel: "fuel = Suc fuel'" by (cases fuel) auto
  obtain it where it: "cells h n = Some it" "fifo_prev it = (if n = 0 then None else Some (n - 1))"
    using Suc.prems(1) [of n] by (auto simp: fifo_chain_def)
  have "fifo_chain (heap_free n h) i" if "i < n" for i
    using Suc.prems(1) [of i] that by (simp add: fifo_chain_def)
  then obtain h' where "fifo_free_loop fuel' (if n = 0 then None else Some (n - 1)) (heap_free n h) = Inr h'"
    "dom (cells h') = dom (cells (heap_free n h)) - {..<n}"
    using Suc.IH [of "heap_free n h" fuel'] Suc.prems(2) fuel by (auto simp del: cells_heap_free)
  then show ?case using it fuel by (auto simp: less_Suc_eq)
qed simp

lemma fifo_free_loop_dangling:
  assumes "cells h 0 = None" and "\<And>i. 0 < i \<Longrightarrow> i < n \<Longrightarrow> fifo_chain h i" and "0 < n" and "n \<le> fuel"
  shows "fifo_free_loop fuel (Some (n - 1)) h = Inl Use_After_Free"
  using assms
proof (induction n arbitrary: h fuel)
  case (Suc n)
  then obtain fuel' where fuel: "fuel = Suc fuel'" by (cases fuel) auto
  show ?case
  proof (cases "n = 0")
    case True
    with Suc.prems fuel show ?thesis by (simp add: heap_load_def)
  next
    case False
    then obtain it where it: "cells h n = Some it" "fifo_prev it = Some (n - 1)"
      using Suc.prems(2) [of n] by (auto simp: fifo_chain_def)
    have "fifo_free_loop fuel' (Some (n - 1)) (heap_free n h) = Inl Use_After_Free"
      using False Suc.prems fuel by (intro Suc.IH) (auto simp: fifo_chain_def)
    then show ?thesis using it fuel by simp
  qed
qed simp

subsection \<open>Properties\<close>

text \<open>
  C20: Freeing a table frees every item of every bucket, none of them twice and none of them through
  a dangling pointer, and so does freeing the queue of a FIFO table nothing was evicted from.
\<close>

theorem htable_free_releases_all:
  assumes inv: "htable_inv XXH64 ht" and ff: "fifo ht = None \<or> fifo ht = Some (fifo_of ks)"
  shows "\<exists>h hf. htable_free (Some ht) = Inr (h, hf) \<and> cells h = Map.empty \<and> cells hf = Map.empty"
proof -
  obtain ass where "htable_rep XXH64 ht ass" using core_rep [OF inv_core [OF inv]] by blast
  note f = free_buckets_all [OF this]
  have "\<exists>hf. fifo_free (fifo ht) = Inr hf \<and> cells hf = Map.empty"
  proof (cases "fifo ht")
    case None
    then show ?thesis by (simp add: fifo_free_def heap_empty_def)
  next
    case (Some q)
    with ff have q: "q = fifo_of ks" by simp
    note lay = fifo_of_layout [of ks]
    have "\<And>i. i < length ks \<Longrightarrow> fifo_chain (fifo_items q) i" using lay by (simp add: fifo_chain_def q)
    then obtain hf where hf: "fifo_free_loop (Suc (length ks)) (if length ks = 0 then None else Some (length ks - 1)) (fifo_items q) = Inr hf"
      "dom (cells hf) = dom (cells (fifo_items q)) - {..<length ks}"
      using fifo_free_loop_chain [of "length ks" "fifo_items q" "Suc (length ks)"] by auto
    have "dom (cells (fifo_items q)) = {..<length ks}" using lay by (auto simp: q split: if_splits)
    then have "cells hf = Map.empty" using hf(2) by auto
    with hf(1) Some show ?thesis using lay by (auto simp: fifo_free_def q)
  qed
  with f show ?thesis by (auto simp: htable_free_def)
qed

theorem htable_free_releases_all_witness:
  "\<exists>rs ht h hf.
     sample_table CACHE_EVICTION_POLICY_FIFO [Create [97] 3 True, Create [98] 3 True, Create [99] 3 True] = Inr (rs, ht) \<and>
     htable_free (Some ht) = Inr (h, hf) \<and> cells h = Map.empty \<and> cells hf = Map.empty"
proof -
  obtain rs ht where ht: "sample_table CACHE_EVICTION_POLICY_FIFO sample_three = Inr (rs, ht)" "htable_inv (\<lambda>_. 0) ht"
    by (rule sample_three_run)
  from htable_free_releases_all [OF ht(2)] sample_three_fifo [OF ht(1)] ht(1) show ?thesis
    unfolding sample_three_def by blast
qed

text \<open>
  Once a file was evicted under the FIFO policy, freeing the queue reads freed memory: eviction
  frees the oldest item, and the walk from the newest item ends up in it.
\<close>

lemma fifo_free_after_eviction:
  assumes "fifo_evict (fifo_of (k0 # ks)) = Inr (e, ff)"
  shows "fifo_free (Some ff) = Inl Use_After_Free"
proof -
  note lay = fifo_of_layout [of "k0 # ks"]
  have ff: "ff = (fifo_of (k0 # ks))\<lparr>fifo_last := None, fifo_items := heap_free 0 (fifo_items (fifo_of (k0 # ks)))\<rparr>"
    using assms lay by (simp add: fifo_evict_def heap_load_def)
  have "fifo_free_loop (Suc (length (k0 # ks))) (Some (length (k0 # ks) - 1)) (fifo_items ff) = Inl Use_After_Free"
    using lay by (intro fifo_free_loop_dangling) (auto simp: ff fifo_chain_def)
  then show ?thesis using lay by (simp add: fifo_free_def ff)
qed

end
