(* ===== verification/Server_Main.thy ===== *)
theory Server_Main
  imports Config Receiver Worker HTable_Free
begin

text \<open>
  The model of \<open>src/server/main.c\<close>, of the flags and the counter in \<open>src/server/global_state.c\<close>
  and of the threads in \<open>src/server/worker.c\<close>: start, the polling loop, the loop of every worker,
  signals and shutdown. The threads are a step relation on one state: an iteration of the polling
  loop and the handling of one message by a worker are one step each, in any order. With several
  workers, handling is interrupted between the critical sections of \<open>htable.c\<close>: \<open>HTable_Threads\<close> has the
  sections, and \<open>Server_Sections\<close> the server with interrupted workers; what is proved of the step relation
  here is about the threads, the receiver and the shutdown, not about the files.

  What is outside of the program is an argument: the answers of the system calls at start,
  the events of a poll (\<open>Poll_Event\<close>) and the signals, which may come before any step.
\<close>

subsection \<open>State\<close>

datatype main_phase = Polling | Joining | Down

datatype worker_thread = Starting | Looping u32 | Exited u32

record System =
  polling :: Poll_State
  server :: Server
  phase :: main_phase
  soft :: bool
  hard :: bool
  thread_id_counter :: u32
  workers :: "worker_thread list"

datatype main_result = Exit_Code int | Running System

subsection \<open>Flags and thread identifiers\<close>

definition shutdown_soft :: "System \<Rightarrow> System" where
  "shutdown_soft s = s\<lparr>soft := True\<rparr>"

definition shutdown_hard :: "System \<Rightarrow> System" where
  "shutdown_hard s = s\<lparr>hard := True\<rparr>"

definition detect_shutdown_soft :: "System \<Rightarrow> bool" where
  "detect_shutdown_soft s = soft s"

definition detect_shutdown_hard :: "System \<Rightarrow> bool" where
  "detect_shutdown_hard s = hard s"

definition ts_counter :: "System \<Rightarrow> u32 \<times> System" where
  "ts_counter s = (thread_id_counter s, s\<lparr>thread_id_counter := thread_id_counter s + 1\<rparr>)"

subsection \<open>Workers\<close>

text \<open>\<open>errs\<close> holds the results of \<open>pthread_create\<close> and of \<open>pthread_join\<close>.\<close>

definition workers_spawn :: "u32 \<Rightarrow> (nat \<Rightarrow> int) \<Rightarrow> worker_thread list result" where
  "workers_spawn num errs =
     (if \<exists>i \<in> set [0..<unat num]. errs i \<noteq> 0 then Inl Exit_Failure else Inr (replicate (unat num) Starting))"

definition set_worker :: "nat \<Rightarrow> worker_thread \<Rightarrow> System \<Rightarrow> System" where
  "set_worker t x s = s\<lparr>workers := (workers s)[t := x]\<rparr>"

definition worker_start :: "nat \<Rightarrow> System \<Rightarrow> System" where
  "worker_start t s = (case ts_counter s of (i, s) \<Rightarrow> set_worker t (Looping i) s)"

datatype turn = Waits | Exits | Serves

text \<open>One iteration of the loop of \<open>worker_entry_point\<close>.\<close>

definition worker_turn :: "hash_fn \<Rightarrow> nat \<Rightarrow> bool \<Rightarrow> Workload \<Rightarrow> Server \<Rightarrow> (turn \<times> Workload \<times> Server) result" where
  "worker_turn XXH64 i stop w s =
     bind_result (workload_queue_pull stop i w) (\<lambda>(p, w).
     case p of
       Pull_Waits \<Rightarrow> Inr (Waits, w, s)
     | Pull_Returns None \<Rightarrow> Inr (Exits, w, s)
     | Pull_Returns (Some a) \<Rightarrow>
         bind_result (heap_load a (messages w)) (\<lambda>msg.
         bind_result
           (worker_handle_message XXH64 (msg_fd msg) (raw (msg_buffer msg)) (buf_size_in_bytes (msg_buffer msg)) s)
           (\<lambda>s. Inr (Serves, free_message a w, s))))"

text \<open>\<open>workers_join\<close> returns when every thread has ended; a thread that waits has been woken up before.\<close>

definition workers_joined :: "System \<Rightarrow> bool" where
  "workers_joined s \<longleftrightarrow> (\<forall>x \<in> set (workers s). case x of Exited _ \<Rightarrow> True | _ \<Rightarrow> False)"

subsection \<open>Start\<close>

text \<open>The size of \<open>sun_path\<close> in a \<open>struct sockaddr_un\<close>.\<close>

definition SUN_PATH_SIZE :: nat where
  "SUN_PATH_SIZE = 108"

definition listen_for_connections :: "string \<Rightarrow> int \<Rightarrow> int \<Rightarrow> int \<Rightarrow> (int \<times> int option) result" where
  "listen_for_connections path socket_ret bind_ret listen_ret =
     (if socket_ret < 0 then Inr (- 1, None)
      else if SUN_PATH_SIZE \<le> length path then Inl Out_Of_Bounds
      else if bind_ret < 0 then Inr (- 1, None)
      else if listen_ret < 0 then Inr (- 1, None)
      else Inr (0, Some socket_ret))"

definition inner_main_start ::
    "Config \<Rightarrow> HTable \<Rightarrow> Workload \<Rightarrow> int \<times> int \<times> int \<Rightarrow> (nat \<Rightarrow> int) \<Rightarrow> main_result result" where
  "inner_main_start config ht w calls errs =
     (case calls of (socket_ret, bind_ret, listen_ret) \<Rightarrow>
      bind_result (listen_for_connections (socket_filepath config) socket_ret bind_ret listen_ret) (\<lambda>(e, p).
      case p of
        None \<Rightarrow> Inr (Exit_Code (- 1))
      | Some socket_fd \<Rightarrow>
          bind_result (workers_spawn (num_workers config) errs) (\<lambda>ths.
          Inr (Running
            \<lparr>polling = \<lparr>receiver = receiver_create socket_fd (num_workers config), workload = w, closed_fds = []\<rparr>,
             server = \<lparr>table = ht, out = [], script = [], draws = []\<rparr>, phase = Polling, soft = False, hard = False,
             thread_id_counter = 0, workers = ths\<rparr>))))"

definition server_main ::
    "string list \<Rightarrow> Config option \<Rightarrow> int \<times> int \<times> int \<Rightarrow> (nat \<Rightarrow> int) \<Rightarrow> main_result result" where
  "server_main argv parsed calls errs =
     (if length argv \<noteq> 2 then Inr (Exit_Code 1)
      else if argv ! 1 = ''-h'' then Inr (Exit_Code 0)
      else
        case parsed of
          None \<Rightarrow> Inr (Exit_Code 1)
        | Some config \<Rightarrow>
            if err config \<noteq> 0 then Inr (Exit_Code 1)
            else
              let w = workload_queues_init (num_workers config) heap_empty in
              bind_result (htable_create (ucast (max_files config)) config) (\<lambda>ht.
                inner_main_start config ht w calls errs))"

text \<open>The lines that \<open>main\<close> writes to the standard output.\<close>

definition print_command_line_usage_info :: "string list" where
  "print_command_line_usage_info = [''Usage: $ server <config-filepath>'']"

definition server_output :: "string list \<Rightarrow> Config option \<Rightarrow> string list" where
  "server_output argv parsed =
     (if length argv \<noteq> 2 \<or> argv ! 1 = ''-h'' then print_command_line_usage_info
      else
        case parsed of
          None \<Rightarrow> [''Couldn't read the given configuration file. Abort.'']
        | Some config \<Rightarrow>
            if err config \<noteq> 0 then [''Couldn't read the given configuration file. Abort.''] else [])"

text \<open>A line is written exactly when the server ends before it starts to listen.\<close>

lemma server_output_exits:
  "(\<exists>e. server_main argv parsed calls errs = Inr (Exit_Code e) \<and> 0 \<le> e) \<longleftrightarrow> server_output argv parsed \<noteq> []"
  by (auto simp: server_main_def server_output_def print_command_line_usage_info_def inner_main_start_def Let_def
      bind_result_eq_Inr split: option.splits prod.splits)

subsection \<open>The polling loop and shutdown\<close>

definition loop_exit :: "System \<Rightarrow> System" where
  "loop_exit s = shutdown_hard (s\<lparr>phase := Joining\<rparr>)"

text \<open>What the loop does with the result of \<open>receiver_poll\<close>.\<close>

definition after_poll :: "int \<Rightarrow> System \<Rightarrow> System" where
  "after_poll ret s =
     (if detect_shutdown_hard s then loop_exit s
      else if detect_shutdown_soft s then
        s\<lparr>polling := (polling s)\<lparr>receiver := receiver_disable_new_connections (receiver (polling s))\<rparr>\<rparr>
      else if ret < 0 then loop_exit s
      else s)"

text \<open>What the server prints and closes at the end.\<close>

definition inner_main_end :: "System \<Rightarrow> ((HTableStats \<times> File list) \<times> int list) result" where
  "inner_main_end s =
     bind_result (print_summary (table (server s))) (\<lambda>(sts, fs, ht).
     let closed = receiver_free (receiver (polling s)) in
     bind_result (htable_free (Some ht)) (\<lambda>_.
     bind_result (workload_queues_free (workload_queues (workload (polling s))) (messages (workload (polling s)))) (\<lambda>_.
       Inr ((sts, fs), closed))))"

inductive server_step :: "hash_fn \<Rightarrow> System \<Rightarrow> System \<Rightarrow> bool" for XXH64 where
  start: "t < length (workers s) \<Longrightarrow> workers s ! t = Starting \<Longrightarrow> server_step XXH64 s (worker_start t s)"
| serve: "t < length (workers s) \<Longrightarrow> workers s ! t = Looping i \<Longrightarrow>
    worker_turn XXH64 (unat i) (hard s) (workload (polling s)) (server s) = Inr (Serves, w', srv') \<Longrightarrow>
    server_step XXH64 s (s\<lparr>polling := (polling s)\<lparr>workload := w'\<rparr>, server := srv'\<rparr>)"
| exit: "t < length (workers s) \<Longrightarrow> workers s ! t = Looping i \<Longrightarrow>
    worker_turn XXH64 (unat i) (hard s) (workload (polling s)) (server s) = Inr (Exits, w', srv') \<Longrightarrow>
    server_step XXH64 s (set_worker t (Exited i) s)"
| dead: "phase s = Polling \<Longrightarrow> receiver_is_dead (receiver (polling s)) \<Longrightarrow> server_step XXH64 s (loop_exit s)"
| poll: "phase s = Polling \<Longrightarrow> \<not> receiver_is_dead (receiver (polling s)) \<Longrightarrow>
    receiver_poll ev (polling s) = Inr (ret, st') \<Longrightarrow> server_step XXH64 s (after_poll ret (s\<lparr>polling := st'\<rparr>))"
| join: "phase s = Joining \<Longrightarrow> workers_joined s \<Longrightarrow> inner_main_end s = Inr res \<Longrightarrow>
    server_step XXH64 s (s\<lparr>phase := Down\<rparr>)"
| soft_signal: "server_step XXH64 s (shutdown_soft s)"
| hard_signal: "server_step XXH64 s (shutdown_hard s)"

inductive_cases server_stepE: "server_step XXH64 s s'"


subsection \<open>Invariants of the receiver\<close>

definition poll_ok :: "Poll_State \<Rightarrow> bool" where
  "poll_ok st \<longleftrightarrow> receiver_ok (receiver st) \<and> length (workload_queues (workload st)) = unat (rx_num_workers (receiver st))"

text \<open>What no part of an iteration changes, and the number of connections when none are accepted.\<close>

definition receiver_keeps :: "Receiver \<Rightarrow> Receiver \<Rightarrow> bool" where
  "receiver_keeps r r' \<longleftrightarrow>
     receiver_ok r' \<and> rx_num_workers r' = rx_num_workers r \<and> accept_new_connections r' = accept_new_connections r \<and>
     (\<not> accept_new_connections r \<longrightarrow> active_sockets_count r' \<le> active_sockets_count r)"

definition poll_keeps :: "Poll_State \<Rightarrow> Poll_State \<Rightarrow> bool" where
  "poll_keeps st st' \<longleftrightarrow>
     receiver_keeps (receiver st) (receiver st') \<and>
     length (workload_queues (workload st')) = length (workload_queues (workload st))"

lemma receiver_keeps_refl [simp]: "receiver_ok r \<Longrightarrow> receiver_keeps r r"
  by (simp add: receiver_keeps_def)

lemma receiver_keeps_trans: "receiver_keeps r1 r2 \<Longrightarrow> receiver_keeps r2 r3 \<Longrightarrow> receiver_keeps r1 r3"
  by (auto simp: receiver_keeps_def)

lemma poll_keeps_refl: "receiver_ok (receiver st) \<Longrightarrow> poll_keeps st st"
  by (simp add: poll_keeps_def)

lemma poll_keeps_trans: "poll_keeps s1 s2 \<Longrightarrow> poll_keeps s2 s3 \<Longrightarrow> poll_keeps s1 s3"
  by (auto simp: poll_keeps_def intro: receiver_keeps_trans)

lemma array_set_length: "array_set xs i x = Inr ys \<Longrightarrow> length ys = length xs"
  by (auto simp: array_set_def split: if_splits)

lemma set_fd_keeps: "receiver_ok r \<Longrightarrow> set_fd i fd r = Inr r' \<Longrightarrow> receiver_keeps r r'"
  by (auto simp: set_fd_def bind_result_eq_Inr receiver_keeps_def receiver_ok_def dest: array_set_length)

lemma clear_events_keeps: "receiver_ok r \<Longrightarrow> clear_events i r = Inr r' \<Longrightarrow> receiver_keeps r r'"
  by (auto simp: clear_events_def bind_result_eq_Inr receiver_keeps_def receiver_ok_def dest: array_set_length)

lemma array_realloc_length: "length (array_realloc n x xs) = n"
  by (simp add: array_realloc_def)

lemma add_connection_ok:
  assumes ok: "receiver_ok r" and add: "receiver_add_new_connection fd r = Inr r'"
  shows "receiver_ok r' \<and> rx_num_workers r' = rx_num_workers r \<and> accept_new_connections r' = accept_new_connections r"
proof (cases "fd < 0")
  case True
  with add clear_events_keeps [OF ok] show ?thesis by (auto simp: receiver_add_new_connection_def receiver_keeps_def)
next
  case False
  with add obtain ps des where
    ps: "array_set (array_realloc (Suc (active_sockets_count r)) (pollfd_in 0) (active_sockets r)) (active_sockets_count r) (pollfd_in fd) = Inr ps"
    and des: "array_set (array_realloc (Suc (active_sockets_count r)) deserializer_create (deserializers r)) (active_sockets_count r) deserializer_create = Inr des"
    and c: "clear_events 0 (r\<lparr>active_sockets_count := Suc (active_sockets_count r), active_sockets := ps, deserializers := des\<rparr>) = Inr r'"
    by (auto simp: receiver_add_new_connection_def Let_def bind_result_eq_Inr)
  have "receiver_ok (r\<lparr>active_sockets_count := Suc (active_sockets_count r), active_sockets := ps, deserializers := des\<rparr>)"
    using array_set_length [OF ps] array_set_length [OF des] by (simp add: receiver_ok_def array_realloc_length)
  from clear_events_keeps [OF this c] show ?thesis by (simp add: receiver_keeps_def)
qed

lemma new_connection_keeps:
  assumes ok: "receiver_ok r" and h: "handle_new_connection ev r = Inr r'"
  shows "receiver_keeps r r'"
proof (cases "accept_new_connections r")
  case True
  then show ?thesis
    using ok h add_connection_ok [OF ok]
    by (auto simp: handle_new_connection_def bind_result_eq_Inr receiver_keeps_def split: if_splits)
next
  case False
  then show ?thesis
    using ok h clear_events_keeps [OF ok]
    by (auto simp: handle_new_connection_def bind_result_eq_Inr split: if_splits)
qed

lemma validate_loop_keeps:
  assumes "validate_loop js r = Inr (b, r')" and "receiver_ok r"
  shows "receiver_keeps r r'"
  using assms
proof (induction js)
  case (Cons j js)
  then show ?case by (auto simp: bind_result_eq_Inr split: if_splits intro: set_fd_keeps)
qed simp

lemma hand_over_queues:
  assumes "hand_over_buf_to_worker n r b fd w = Inr w'"
  shows "length (workload_queues w') = length (workload_queues w)"
  using assms
  by (auto simp: hand_over_buf_to_worker_def heap_alloc_def workload_queue_add_def workload_queue_get_def set_queue_def
      set_next_def Let_def bind_result_eq_Inr split: if_splits option.splits)

lemma set_deserializer_keeps:
  "receiver_ok (receiver st) \<Longrightarrow> poll_keeps st (set_deserializer i de st)"
  by (simp add: set_deserializer_def poll_keeps_def receiver_keeps_def receiver_ok_def)

lemma drop_connection_keeps:
  "receiver_ok (receiver st) \<Longrightarrow> drop_connection i st = Inr st' \<Longrightarrow> poll_keeps st st'"
  by (auto simp: drop_connection_def poll_keeps_def bind_result_eq_Inr intro: set_fd_keeps)

lemma poll_keeps_ok: "poll_keeps st st' \<Longrightarrow> receiver_ok (receiver st')"
  by (simp add: poll_keeps_def receiver_keeps_def)

lemma receive_on_keeps:
  assumes ok: "receiver_ok (receiver st)" and r: "receive_on i ev st = Inr st'"
  shows "poll_keeps st st'"
proof -
  obtain p de de1 off m where de: "array_get (active_sockets (receiver st)) i = Inr p" "array_get (deserializers (receiver st)) i = Inr de"
    "deserializer_buffer de = Inr (off, de1)" "deserializer_missing de1 = Inr m"
    using r by (auto simp: receive_on_def bind_result_eq_Inr)
  note k = set_deserializer_keeps [OF ok]
  have drop: "poll_keeps st st'" if "drop_connection i (set_deserializer i de1 st) = Inr st'"
    using poll_keeps_trans [OF k drop_connection_keeps [OF poll_keeps_ok [OF k] that]] .
  show ?thesis
  proof (cases "read_ret ev i")
    case Recv_Error
    with r de drop show ?thesis by (auto simp: receive_on_def bind_result_eq_Inr)
  next
    case (Recv bs)
    show ?thesis
    proof (cases "bs = []")
      case True
      with r de Recv drop show ?thesis by (auto simp: receive_on_def bind_result_eq_Inr)
    next
      case False
      with r de Recv obtain out1 de2 where o: "deserializer_receive de (take (unat m) bs) = Inr (out1, de2)"
        and c: "(case out1 of None \<Rightarrow> Inr (set_deserializer i de2 st)
          | Some b \<Rightarrow> bind_result (hand_over_buf_to_worker (rx_num_workers (receiver (set_deserializer i de2 st))) (rand_ret ev i) b
               (poll_fd p) (workload (set_deserializer i de2 st))) (\<lambda>w. Inr ((set_deserializer i de2 st)\<lparr>workload := w\<rparr>))) = Inr st'"
        by (auto simp: receive_on_def bind_result_eq_Inr Let_def)
      from c k [of i de2] show ?thesis
        by (auto simp: bind_result_eq_Inr poll_keeps_def split: option.splits dest: hand_over_queues)
    qed
  qed
qed

lemma poll_connection_keeps:
  assumes ok: "receiver_ok (receiver st)" and r: "poll_connection i ev st = Inr (b, st')"
  shows "poll_keeps st st'"
proof -
  have upd: "poll_keeps s s'" if "receiver_keeps (receiver s) r'" "s' = s\<lparr>receiver := r'\<rparr>" for s s' r'
    using that by (simp add: poll_keeps_def)
  obtain p where p: "array_get (active_sockets (receiver st)) i = Inr p"
    using r by (auto simp: poll_connection_def bind_result_eq_Inr)
  show ?thesis
  proof (cases "0 < revents p \<and> revents p \<noteq> POLLIN")
    case True
    with r p upd [of st] set_fd_keeps [OF ok] show ?thesis by (auto simp: poll_connection_def bind_result_eq_Inr)
  next
    case False
    with r p obtain st1 r2 where st1: "(if 0 < revents p AND POLLIN then receive_on i ev st else Inr st) = Inr st1"
      "clear_events i (receiver st1) = Inr r2" "st' = st1\<lparr>receiver := r2\<rparr>"
      by (auto simp: poll_connection_def bind_result_eq_Inr)
    have k: "poll_keeps st st1"
      using st1(1) receive_on_keeps [OF ok] poll_keeps_refl [OF ok] by (auto split: if_splits)
    from poll_keeps_trans [OF k upd] st1(2,3) clear_events_keeps [OF poll_keeps_ok [OF k]] show ?thesis by blast
  qed
qed

lemma poll_loop_keeps:
  assumes "poll_loop js ev st = Inr st'" and "receiver_ok (receiver st)"
  shows "poll_keeps st st'"
  using assms
proof (induction js arbitrary: st)
  case (Cons j js)
  then obtain b st1 where st1: "poll_connection j ev st = Inr (b, st1)" "(if b then Inr st1 else poll_loop js ev st1) = Inr st'"
    by (auto simp: bind_result_eq_Inr)
  have k: "poll_keeps st st1" using poll_connection_keeps [OF Cons.prems(2) st1(1)] .
  with st1(2) Cons.IH [OF _ poll_keeps_ok [OF k]] show ?case by (auto split: if_splits intro: poll_keeps_trans)
qed (simp add: poll_keeps_refl)

lemma cleanup_keeps:
  assumes "receiver_ok r" and "receiver_cleanup r = Inr (r', closed)"
  shows "receiver_keeps r r'"
proof -
  obtain r'' removed where r: "receiver_cleanup r = Inr (r'', map (\<lambda>c. - poll_fd (fst c)) removed)"
    "receiver_ok r''" "mset (conns r) = mset (conns r'') + mset removed"
    "rx_num_workers r'' = rx_num_workers r" "accept_new_connections r'' = accept_new_connections r"
    using receiver_cleanup_removes [OF assms(1)] by metis
  have "length (conns r) = length (conns r'') + length removed"
    using arg_cong [OF r(3), of size] by simp
  then have "active_sockets_count r'' \<le> active_sockets_count r"
    using assms(1) r(2) by (simp add: conns_def receiver_ok_def)
  with r assms(2) show ?thesis by (simp add: receiver_keeps_def)
qed

lemma receiver_poll_keeps:
  assumes ok: "receiver_ok (receiver st)" and p: "receiver_poll ev st = Inr (ret, st')"
  shows "poll_keeps st st'"
proof -
  obtain r closed where c: "receiver_cleanup (receiver st) = Inr (r, closed)"
    using p by (auto simp: receiver_poll_def bind_result_eq_Inr)
  have k: "receiver_keeps (receiver st) r" using cleanup_keeps [OF ok c] .
  define st1 where "st1 = st\<lparr>receiver := r, closed_fds := closed_fds st @ closed\<rparr>"
  have k1: "poll_keeps st st1" using k by (simp add: poll_keeps_def st1_def)
  show ?thesis
  proof (cases "poll_ret ev \<le> 0")
    case True
    with p c k1 show ?thesis by (auto simp: receiver_poll_def st1_def Let_def split: if_splits)
  next
    case False
    define ra where "ra = set_revents (poll_revents ev) r"
    have ka: "receiver_keeps r ra" using k by (simp add: ra_def receiver_keeps_def receiver_ok_def)
    obtain r1 b r2 where r1: "handle_new_connection ev ra = Inr r1"
      "validate_loop [1..<active_sockets_count r1] r1 = Inr (b, r2)"
      and fin: "if b then st' = st1\<lparr>receiver := r2\<rparr>
        else poll_loop [1..<active_sockets_count r1] ev (st1\<lparr>receiver := r2\<rparr>) = Inr st'"
      using False p c
      by (auto simp: receiver_poll_def st1_def ra_def Let_def bind_result_eq_Inr split: if_splits)
    have kr: "receiver_keeps ra r1"
      using new_connection_keeps [OF _ r1(1)] ka by (simp add: receiver_keeps_def)
    have "receiver_keeps r1 r2"
      using validate_loop_keeps [OF r1(2)] kr by (simp add: receiver_keeps_def)
    with k ka kr have "receiver_keeps (receiver st) r2" by (blast intro: receiver_keeps_trans)
    then have k2: "poll_keeps st (st1\<lparr>receiver := r2\<rparr>)" by (simp add: poll_keeps_def st1_def)
    from fin k2 poll_keeps_trans [OF k2 poll_loop_keeps [OF _ poll_keeps_ok [OF k2]]] show ?thesis
      by (auto split: if_splits)
  qed
qed


subsection \<open>Invariants of the threads\<close>

fun started :: "worker_thread \<Rightarrow> u32 list" where
  "started Starting = []"
| "started (Looping i) = [i]"
| "started (Exited i) = [i]"

definition worker_ids :: "worker_thread list \<Rightarrow> u32 list" where
  "worker_ids ws = concat (map started ws)"

definition sys_inv :: "System \<Rightarrow> bool" where
  "sys_inv s \<longleftrightarrow>
     poll_ok (polling s) \<and> length (workers s) = unat (rx_num_workers (receiver (polling s))) \<and>
     distinct (worker_ids (workers s)) \<and> (\<forall>i \<in> set (worker_ids (workers s)). i < thread_id_counter s) \<and>
     unat (thread_id_counter s) = length (worker_ids (workers s)) \<and>
     ((\<exists>i. Exited i \<in> set (workers s)) \<longrightarrow> hard s) \<and> (phase s \<noteq> Polling \<longrightarrow> hard s) \<and>
     (phase s = Down \<longrightarrow> workers_joined s)"

lemma worker_ids_length:
  "length (worker_ids ws) + length (filter (\<lambda>x. x = Starting) ws) = length ws"
proof (induction ws)
  case (Cons x ws)
  then show ?case by (cases x) (simp_all add: worker_ids_def)
qed (simp add: worker_ids_def)

lemma worker_ids_start:
  assumes "t < length ws" and "ws ! t = Starting"
  shows "\<exists>as bs. worker_ids ws = as @ bs \<and> worker_ids (ws[t := Looping i]) = as @ i # bs"
  using assms concat_update [of t "map started ws" "[i]"] concat_nth_split [of t "map started ws"]
  by (auto simp: worker_ids_def map_update)

lemma worker_ids_exit:
  assumes "t < length ws" and "ws ! t = Looping i"
  shows "worker_ids (ws[t := Exited i]) = worker_ids ws"
proof -
  have "map started (ws[t := Exited i]) = (map started ws)[t := map started ws ! t]"
    using assms by (simp add: map_update)
  then show ?thesis unfolding worker_ids_def by (simp only: list_update_id)
qed

lemma pull_queues:
  assumes "workload_queue_pull stop i w = Inr (p, w')"
  shows "length (workload_queues w') = length (workload_queues w) \<and> (p = Pull_Returns None \<longrightarrow> stop)"
  using assms
  by (auto simp: workload_queue_pull_def workload_queue_get_def set_next_def set_queue_def bind_result_eq_Inr
      split: if_splits option.splits)

lemma worker_turn_queues:
  assumes "worker_turn XXH64 i stop w s = Inr (t, w', s')"
  shows "length (workload_queues w') = length (workload_queues w)" and "t = Exits \<Longrightarrow> stop"
proof -
  obtain p w1 where p: "workload_queue_pull stop i w = Inr (p, w1)"
    using assms by (auto simp: worker_turn_def bind_result_eq_Inr)
  from assms p pull_queues [OF p] show "length (workload_queues w') = length (workload_queues w)"
    by (auto simp: worker_turn_def free_message_def bind_result_eq_Inr split: option.splits pull_result.splits)
  assume "t = Exits"
  with assms p pull_queues [OF p] show stop
    by (auto simp: worker_turn_def bind_result_eq_Inr split: option.splits pull_result.splits)
qed

lemma not_joined:
  assumes "t < length (workers s)" and "workers s ! t = Starting \<or> workers s ! t = Looping i"
  shows "\<not> workers_joined s"
proof
  assume "workers_joined s"
  then have "case workers s ! t of Exited _ \<Rightarrow> True | _ \<Rightarrow> False" using assms(1) by (simp add: workers_joined_def)
  with assms(2) show False by auto
qed

lemma sys_inv_worker_start:
  assumes "t < length (workers s)" and "workers s ! t = Starting" and inv: "sys_inv s"
  shows "sys_inv (worker_start t s)"
proof -
  obtain as bs where ids: "worker_ids (workers s) = as @ bs"
    "worker_ids ((workers s)[t := Looping (thread_id_counter s)]) = as @ thread_id_counter s # bs"
    using worker_ids_start [OF assms(1,2)] by blast
  have "Starting \<in> set (workers s)" using assms(1,2) by (metis nth_mem)
  then have "0 < length (filter (\<lambda>x. x = Starting) (workers s))" by (simp add: filter_empty_conv)
  then have lt: "length (worker_ids (workers s)) < length (workers s)" using worker_ids_length [of "workers s"] by linarith
  have "unat (thread_id_counter s) < unat (rx_num_workers (receiver (polling s)))" using lt inv by (simp add: sys_inv_def)
  then have ov: "Suc (unat (thread_id_counter s)) < 2 ^ 32"
    using unsigned_less [of "rx_num_workers (receiver (polling s))", where ?'a = nat] by simp
  then have u: "unat (thread_id_counter s + 1) = Suc (unat (thread_id_counter s))"
    by (simp add: unat_word_ariths)
  then have "thread_id_counter s < thread_id_counter s + 1" by (simp add: word_less_nat_alt)
  moreover have "i < thread_id_counter s + 1" if "i < thread_id_counter s" for i
    using that u by (simp add: word_less_nat_alt)
  moreover have "\<not> workers_joined s" using not_joined [OF assms(1)] assms(2) by blast
  moreover have "(\<exists>i. Exited i \<in> set ((workers s)[t := Looping (thread_id_counter s)])) \<longrightarrow> hard s"
    using inv set_update_subset_insert [of "workers s" t "Looping (thread_id_counter s)"] by (auto simp: sys_inv_def)
  ultimately show ?thesis
    using inv ids u
    by (auto simp: sys_inv_def worker_start_def ts_counter_def set_worker_def)
qed

lemma sys_inv_poll:
  assumes "receiver_poll ev (polling s) = Inr (ret, st')" and "phase s = Polling" and inv: "sys_inv s"
  shows "sys_inv (after_poll ret (s\<lparr>polling := st'\<rparr>))"
proof -
  have "poll_keeps (polling s) st'" using receiver_poll_keeps [OF _ assms(1)] inv by (simp add: sys_inv_def poll_ok_def)
  then have "sys_inv (s\<lparr>polling := st'\<rparr>)"
    using inv by (auto simp: sys_inv_def poll_ok_def poll_keeps_def receiver_keeps_def workers_joined_def)
  with assms(2) show ?thesis
    by (auto simp: sys_inv_def after_poll_def detect_shutdown_hard_def detect_shutdown_soft_def loop_exit_def shutdown_hard_def
        receiver_disable_new_connections_def poll_ok_def receiver_ok_def workers_joined_def)
qed

lemma sys_inv_step:
  assumes "server_step XXH64 s s'" and inv: "sys_inv s"
  shows "sys_inv s'"
  using assms(1)
proof cases
  case (start t)
  from sys_inv_worker_start [OF start(2,3) inv] show ?thesis unfolding start(1) .
next
  case (serve t i w' srv')
  with inv worker_turn_queues [OF serve(4)] show ?thesis
    unfolding serve(1) by (auto simp: sys_inv_def poll_ok_def workers_joined_def)
next
  case (exit t i w' srv')
  have h: "hard s" using worker_turn_queues(2) [OF exit(4)] by simp
  have "\<not> workers_joined s" using not_joined [OF exit(2)] exit(3) by blast
  with inv h show ?thesis
    unfolding exit(1) by (auto simp: sys_inv_def set_worker_def worker_ids_exit [OF exit(2,3)])
next
  case dead
  with inv show ?thesis by (auto simp: sys_inv_def loop_exit_def shutdown_hard_def)
next
  case (poll ev ret st')
  from sys_inv_poll [OF poll(4,2) inv] show ?thesis unfolding poll(1) .
next
  case join
  with inv show ?thesis by (auto simp: sys_inv_def workers_joined_def)
qed (use inv in \<open>auto simp: sys_inv_def shutdown_soft_def shutdown_hard_def workers_joined_def\<close>)

lemma sys_inv_start:
  assumes "server_main argv parsed calls errs = Inr (Running s)"
  shows "sys_inv s"
proof -
  obtain c ht w where i: "inner_main_start c ht w calls errs = Inr (Running s)" "w = workload_queues_init (num_workers c) heap_empty"
    using assms by (auto simp: server_main_def Let_def bind_result_eq_Inr split: if_splits option.splits)
  then obtain fd where
    "s = \<lparr>polling = \<lparr>receiver = receiver_create fd (num_workers c), workload = w, closed_fds = []\<rparr>,
      server = \<lparr>table = ht, out = [], script = [], draws = []\<rparr>, phase = Polling, soft = False, hard = False,
      thread_id_counter = 0, workers = replicate (unat (num_workers c)) Starting\<rparr>"
    by (auto simp: inner_main_start_def workers_spawn_def bind_result_eq_Inr split: prod.splits option.splits if_splits)
  moreover have "worker_ids (replicate n Starting) = []" for n by (induction n) (simp_all add: worker_ids_def)
  ultimately show ?thesis
    using i(2) by (auto simp: sys_inv_def poll_ok_def receiver_ok_def receiver_create_def workload_queues_init_def)
qed

interpretation server: step_invariant
    "\<lambda>s. \<exists>argv parsed calls errs. server_main argv parsed calls errs = Inr (Running s)"
    "server_step XXH64" sys_inv
  for XXH64
  by unfold_locales (blast intro: sys_inv_start sys_inv_step)+

subsection \<open>A worker and a pending message\<close>

lemma worker_turn_pending:
  assumes ok: "queue_ok i w" and p: "pending i w = Some (fd, b)"
  shows "\<exists>w'. worker_turn XXH64 i stop w s =
    bind_result (worker_handle_message XXH64 fd (raw b) (buf_size_in_bytes b) s) (\<lambda>s'. Inr (Serves, w', s'))"
proof -
  obtain a m where a: "next_incoming (workload_queues w ! i) = Some a" "cells (messages w) a = Some m"
    "msg_fd m = fd" "msg_buffer m = b"
    using p by (auto simp: pending_def split: option.splits)
  moreover have "i < length (workload_queues w)" using ok by (simp add: queue_ok_def)
  ultimately show ?thesis
    by (simp add: worker_turn_def workload_queue_pull_def workload_queue_get_def set_next_def set_queue_def)
      (rule exI, rule refl)
qed

subsection \<open>Properties\<close>

text \<open>
  C36: The threads of the server stay consistent. In every state that can be reached from the start, by
  any interleaving of polls, workers and signals: every started worker has its own number, which is the
  index of an existing queue; there are as many queues as threads; the arrays of the receiver have the
  length it believes; a worker has ended only if a hard shutdown was requested; and the main thread has
  finished only after all workers have.
\<close>

theorem server_threads_invariant:
  assumes "server_main argv parsed calls errs = Inr (Running s0)" and "(server_step XXH64)\<^sup>*\<^sup>* s0 s"
  shows "distinct (worker_ids (workers s)) \<and>
    (\<forall>i \<in> set (worker_ids (workers s)). unat i < length (workload_queues (workload (polling s)))) \<and>
    length (workers s) = length (workload_queues (workload (polling s))) \<and>
    receiver_ok (receiver (polling s)) \<and>
    ((\<exists>i. Exited i \<in> set (workers s)) \<longrightarrow> hard s) \<and> (phase s = Down \<longrightarrow> workers_joined s \<and> hard s)"
proof -
  have inv: "sys_inv s" using server.reachable_inv [OF _ assms(2)] assms(1) by blast
  have "unat i < length (workload_queues (workload (polling s)))" if "i \<in> set (worker_ids (workers s))" for i
  proof -
    have "unat i < length (worker_ids (workers s))" using inv that by (auto simp: sys_inv_def word_less_nat_alt)
    with worker_ids_length [of "workers s"] inv show ?thesis by (simp add: sys_inv_def poll_ok_def)
  qed
  with inv show ?thesis by (auto simp: sys_inv_def poll_ok_def)
qed

theorem server_threads_invariant_witness:
  "\<exists>s0. server_main [''server'', ''c.toml''] (Some (sample_config CACHE_EVICTION_POLICY_FIFO)) (3, 0, 0) (\<lambda>_. 0) = Inr (Running s0) \<and>
     (let s = shutdown_hard (worker_start 0 s0) in
      distinct (worker_ids (workers s)) \<and> length (workers s) = length (workload_queues (workload (polling s))))"
proof -
  have "server_main [''server'', ''c.toml''] (Some (sample_config CACHE_EVICTION_POLICY_FIFO)) (3, 0, 0) (\<lambda>_. 0) \<noteq> Inl e \<and>
    server_main [''server'', ''c.toml''] (Some (sample_config CACHE_EVICTION_POLICY_FIFO)) (3, 0, 0) (\<lambda>_. 0) \<noteq> Inr (Exit_Code k)" for e k
    by (simp add: server_main_def sample_config_def htable_create_def inner_main_start_def listen_for_connections_def
        SUN_PATH_SIZE_def workers_spawn_def Let_def)
  then obtain s0 where s0: "server_main [''server'', ''c.toml''] (Some (sample_config CACHE_EVICTION_POLICY_FIFO)) (3, 0, 0) (\<lambda>_. 0) = Inr (Running s0)"
    by (metis main_result.exhaust sum.exhaust)
  then have "workers s0 = [Starting]"
    by (auto simp: server_main_def sample_config_def htable_create_def inner_main_start_def listen_for_connections_def
        SUN_PATH_SIZE_def workers_spawn_def Let_def)
  then have "server_step (\<lambda>_. 0) s0 (worker_start 0 s0)" by (intro server_step.start) simp_all
  then have "(server_step (\<lambda>_. 0))\<^sup>*\<^sup>* s0 (shutdown_hard (worker_start 0 s0))"
    using server_step.hard_signal by (metis (no_types, lifting) r_into_rtranclp rtranclp.rtrancl_into_rtrancl)
  from server_threads_invariant [OF s0 this] s0 show ?thesis by (auto simp: Let_def)
qed

text \<open>
  C37: A soft shutdown does not end when the last client leaves. When new connections are disabled and
  the only client closes its connection, the iteration that reads the end of file leaves a dead entry
  in the array, so the loop does not see that no client is left; the only way out of the loop is
  another return of \<open>poll\<close>, before which the cleanup has reduced the array to the listening socket.
\<close>

theorem soft_shutdown_waits:
  assumes "calm (receiver (polling s))" and "active_sockets_count (receiver (polling s)) = 2"
    and "phase s = Polling" and "soft s" and "\<not> hard s" and "\<not> accept_new_connections (receiver (polling s))"
  shows "\<exists>s1 r2. server_step XXH64 s s1 \<and> phase s1 = Polling \<and> \<not> receiver_is_dead (receiver (polling s1)) \<and>
    (\<forall>s2. server_step XXH64 s1 s2 \<and> phase s2 \<noteq> Polling \<longrightarrow> (\<exists>ev ret st2. receiver_poll ev (polling s1) = Inr (ret, st2))) \<and>
    receiver_cleanup (receiver (polling s1)) = Inr (r2, [1]) \<and> receiver_is_dead r2"
proof -
  let ?r = "receiver (polling s)"
  obtain st1 where st1: "receiver_poll (readable_event 2 1 [] 0) (polling s) = Inr (0, st1)"
    "receiver_ok (receiver st1)" "active_sockets_count (receiver st1) = 2"
    "map poll_fd (active_sockets (receiver st1)) = (map poll_fd (active_sockets ?r))[1 := - 1]"
    using receiver_poll_eof [OF assms(1), of 1 0] assms(2) by auto
  let ?r1 = "receiver_disable_new_connections (receiver st1)"
  define s1 where "s1 = s\<lparr>polling := st1\<lparr>receiver := ?r1\<rparr>\<rparr>"
  have alive: "\<not> receiver_is_dead ?r" using assms(2) by (simp add: receiver_is_dead_def)
  have "after_poll 0 (s\<lparr>polling := st1\<rparr>) = s1"
    using assms(4,5) by (simp add: after_poll_def detect_shutdown_hard_def detect_shutdown_soft_def s1_def)
  then have step: "server_step XXH64 s s1" using server_step.poll [OF assms(3) alive st1(1)] by metis
  have ok1: "receiver_ok ?r1" using st1(2) by (simp add: receiver_ok_def receiver_disable_new_connections_def)
  have n: "active_sockets_count ?r1 = 2" "length (active_sockets ?r) = 2" "length (active_sockets ?r1) = 2"
    using st1(2,3) assms(1,2) by (simp_all add: receiver_disable_new_connections_def calm_def receiver_ok_def)
  have "map poll_fd (active_sockets ?r1) ! 1 = - 1"
    using st1(4) n by (simp add: receiver_disable_new_connections_def del: nth_map)
  then have fd: "poll_fd (active_sockets ?r1 ! 1) = - 1" using n by simp
  obtain r2 where r2: "receiver_cleanup ?r1 = Inr (r2, [1])" "active_sockets_count r2 = 1"
    using receiver_cleanup_one [OF ok1, of 1] n fd by auto
  have "accept_new_connections r2 = accept_new_connections ?r1"
    using cleanup_keeps [OF ok1 r2(1)] by (simp add: receiver_keeps_def)
  then have dead2: "receiver_is_dead r2" using r2(2) by (simp add: receiver_is_dead_def receiver_disable_new_connections_def)
  have alive1: "\<not> receiver_is_dead (receiver (polling s1))" using n by (simp add: s1_def receiver_is_dead_def)
  have "phase s1 = Polling" using assms(3) by (simp add: s1_def)
  moreover have "\<exists>ev ret st2. receiver_poll ev (polling s1) = Inr (ret, st2)"
    if "server_step XXH64 s1 s2" "phase s2 \<noteq> Polling" for s2
    using that(1)
  proof cases
    case dead
    with alive1 show ?thesis by simp
  qed (use that(2) \<open>phase s1 = Polling\<close> in \<open>auto simp: worker_start_def ts_counter_def set_worker_def shutdown_soft_def shutdown_hard_def\<close>)
  moreover have "receiver_cleanup (receiver (polling s1)) = Inr (r2, [1])" using r2(1) by (simp add: s1_def)
  ultimately show ?thesis using step alive1 dead2 by blast
qed

theorem soft_shutdown_waits_witness:
  "\<exists>s s1 r2. server_step (\<lambda>_. 0) s s1 \<and> phase s1 = Polling \<and> \<not> receiver_is_dead (receiver (polling s1)) \<and>
    receiver_cleanup (receiver (polling s1)) = Inr (r2, [1]) \<and> receiver_is_dead r2"
proof -
  define r where "r = receiver_disable_new_connections
    ((receiver_create 3 1)\<lparr>active_sockets_count := 2, active_sockets := [pollfd_in 3, pollfd_in 4],
      deserializers := [deserializer_create, deserializer_create]\<rparr>)"
  define s where "s = \<lparr>polling = \<lparr>receiver = r, workload = workload_queues_init 1 heap_empty, closed_fds = []\<rparr>,
    server = undefined, phase = Polling, soft = True, hard = False, thread_id_counter = 0, workers = []\<rparr>"
  have "calm r"
    by (auto simp: r_def calm_def receiver_ok_def receiver_disable_new_connections_def pollfd_in_def less_Suc_eq numeral_2_eq_2 in_frame_create)
  then have "calm (receiver (polling s))" by (simp add: s_def)
  moreover have "active_sockets_count (receiver (polling s)) = 2" "phase s = Polling" "soft s" "\<not> hard s"
    "\<not> accept_new_connections (receiver (polling s))"
    by (simp_all add: s_def r_def receiver_disable_new_connections_def)
  ultimately show ?thesis using soft_shutdown_waits by blast
qed

text \<open>
  The server cannot start with a configuration that its own checks accept: when the number of files in
  the configuration is a multiple of \<open>2 ^ 32\<close>, it is stored as 0 and the process aborts.
\<close>

lemma config_truncation_aborts:
  assumes "config_parse_file (Some (Some (Some t))) can_open = Some c" and "toml_int_in t ''max-files'' = Some (2 ^ 32 * n)"
  shows "htable_create (ucast (max_files c)) c = Inl Assert_Fail"
proof -
  obtain files storage workers where "toml_int_in t ''max-files'' = Some files" "max_files c = word_of_int files"
    using config_accepts [OF assms(1)] by blast
  then have m: "max_files c = word_of_int (2 ^ 32 * n)" using assms(2) by simp
  have "(word_of_int (2 ^ 32 * n) :: u32) = word_of_int 0"
    unfolding word_of_int_eq_iff by (simp add: take_bit_eq_mod)
  then have "max_files c = 0" using m by simp
  then show ?thesis by (simp add: htable_create_def c_assert_def)
qed

end
