(* ===== verification/Server_Runs.thy ===== *)
theory Server_Runs
  imports Server_Main
begin

text \<open>
  Runs of the server in which a worker handles its message in one step: the receiver, the workers and
  signals in any order, with the history of the messages that workers have handled. \<open>Server_Sections\<close> cuts
  the handling into its critical sections.
\<close>

text \<open>The steps in which a worker serves, with the message it has pulled.\<close>

definition serves :: "hash_fn \<Rightarrow> System \<Rightarrow> int \<times> Buffer \<Rightarrow> System \<Rightarrow> bool" where
  "serves XXH64 s msg s' \<longleftrightarrow> (\<exists>t i w' srv'.
     t < length (workers s) \<and> workers s ! t = Looping i \<and>
     worker_turn XXH64 (unat i) (hard s) (workload (polling s)) (server s) = Inr (Serves, w', srv') \<and>
     pending (unat i) (workload (polling s)) = Some msg \<and>
     s' = s\<lparr>polling := (polling s)\<lparr>workload := w'\<rparr>, server := srv'\<rparr>)"

inductive server_run :: "hash_fn \<Rightarrow> System \<Rightarrow> (int \<times> Buffer) list \<Rightarrow> System \<Rightarrow> bool" for XXH64 s0 where
  started: "server_run XXH64 s0 [] s0"
| served: "server_run XXH64 s0 h s \<Longrightarrow> serves XXH64 s msg s' \<Longrightarrow> server_run XXH64 s0 (h @ [msg]) s'"
| other: "server_run XXH64 s0 h s \<Longrightarrow> server_step XXH64 s s' \<Longrightarrow> (\<nexists>msg. serves XXH64 s msg s') \<Longrightarrow> server_run XXH64 s0 h s'"

subsection \<open>The history is the history of the server\<close>

lemma worker_turn_pulls:
  assumes "worker_turn XXH64 i stop w s = Inr (Serves, w', s')"
  obtains a w1 m where "workload_queue_pull stop i w = Inr (Pull_Returns (Some a), w1)" and "heap_load a (messages w1) = Inr m"
    and "pending i w = Some (msg_fd m, msg_buffer m)" and "w' = free_message a w1"
    and "worker_handle_message XXH64 (msg_fd m) (raw (msg_buffer m)) (buf_size_in_bytes (msg_buffer m)) s = Inr s'"
proof -
  obtain r w1 where r: "workload_queue_pull stop i w = Inr (r, w1)" using assms by (auto simp: worker_turn_def bind_result_eq_Inr)
  then obtain a where p: "workload_queue_pull stop i w = Inr (Pull_Returns (Some a), w1)"
    using assms by (cases r) (auto simp: worker_turn_def split: option.splits)
  obtain x where x: "next_incoming (workload_queues w ! i) = Some x"
    using p by (cases "next_incoming (workload_queues w ! i)")
      (auto simp: workload_queue_pull_def workload_queue_get_def bind_result_eq_Inr split: if_splits)
  obtain m where m: "cells (messages w) x = Some m"
    using p x by (cases "cells (messages w) x")
      (auto simp: workload_queue_pull_def workload_queue_get_def bind_result_eq_Inr heap_load_def split: if_splits)
  have a: "x = a" "cells (messages w1) a = Some (m\<lparr>msg_next := None\<rparr>)"
    using p x m by (auto simp: workload_queue_pull_def workload_queue_get_def bind_result_eq_Inr set_next_def set_queue_def split: if_splits)
  show thesis
  proof (rule that [OF p, of "m\<lparr>msg_next := None\<rparr>"])
    show "heap_load a (messages w1) = Inr (m\<lparr>msg_next := None\<rparr>)" using a(2) by (simp add: heap_load_def)
    show "pending i w = Some (msg_fd (m\<lparr>msg_next := None\<rparr>), msg_buffer (m\<lparr>msg_next := None\<rparr>))"
      using x m by (simp add: pending_def)
    show "w' = free_message a w1" "worker_handle_message XXH64 (msg_fd (m\<lparr>msg_next := None\<rparr>))
        (raw (msg_buffer (m\<lparr>msg_next := None\<rparr>))) (buf_size_in_bytes (msg_buffer (m\<lparr>msg_next := None\<rparr>))) s = Inr s'"
      using assms p a(2) by (auto simp: worker_turn_def bind_result_eq_Inr)
  qed
qed

lemma worker_turn_serves:
  assumes "worker_turn XXH64 i stop w s = Inr (Serves, w', s')"
  obtains fd b where "pending i w = Some (fd, b)" and "worker_handle_message XXH64 fd (raw b) (buf_size_in_bytes b) s = Inr s'"
  using worker_turn_pulls [OF assms] that by metis

lemma serves_handles:
  assumes "serves XXH64 s msg s'"
  obtains fd b where "msg = (fd, b)"
    and "worker_handle_message XXH64 fd (raw b) (buf_size_in_bytes b) (server s) = Inr (server s')"
proof -
  obtain i :: u32 and w' srv' where t: "worker_turn XXH64 (unat i) (hard s) (workload (polling s)) (server s) = Inr (Serves, w', srv')"
    "pending (unat i) (workload (polling s)) = Some msg"
    "s' = s\<lparr>polling := (polling s)\<lparr>workload := w'\<rparr>, server := srv'\<rparr>"
    using assms unfolding serves_def by blast
  obtain fd b where "pending (unat i) (workload (polling s)) = Some (fd, b)"
    "worker_handle_message XXH64 fd (raw b) (buf_size_in_bytes b) (server s) = Inr srv'"
    using worker_turn_serves [OF t(1)] .
  with t(2,3) show thesis by (intro that [of fd b]) simp_all
qed

lemma server_run_steps: "server_run XXH64 s h s' \<Longrightarrow> (server_step XXH64)\<^sup>*\<^sup>* s s'"
  by (induction rule: server_run.induct)
    (auto simp: serves_def intro: server_step.serve rtranclp.rtrancl_into_rtrancl)

lemma after_poll_server [simp]: "server (after_poll ret s) = server s"
  by (simp add: after_poll_def loop_exit_def shutdown_hard_def)

lemma server_step_cases:
  assumes "server_step XXH64 s s'"
  obtains "server s' = server s" | msg where "serves XXH64 s msg s'"
  using assms
proof cases
  case (serve t i w' srv')
  obtain fd b where "pending (unat i) (workload (polling s)) = Some (fd, b)" using worker_turn_serves [OF serve(4)] .
  with serve have "serves XXH64 s (fd, b) s'" unfolding serves_def by blast
  then show thesis by (rule that(2))
qed (use that(1) in \<open>auto simp: worker_start_def ts_counter_def set_worker_def loop_exit_def shutdown_hard_def shutdown_soft_def\<close>)

lemma steps_server_run: "(server_step XXH64)\<^sup>*\<^sup>* s s' \<Longrightarrow> \<exists>h. server_run XXH64 s h s'"
proof (induction rule: rtranclp_induct)
  case base
  then show ?case by (blast intro: server_run.started)
next
  case (step s1 s2)
  then show ?case by (blast intro: server_run.served server_run.other)
qed

text \<open>A message of the history that is a complete request on metadata.\<close>

definition carries :: "int \<times> Buffer \<Rightarrow> request \<Rightarrow> bool" where
  "carries msg q \<longleftrightarrow> (case q of (fd, aop, k) \<Rightarrow> wf_request q \<and> msg = (fd, complete_msg (frame (api_op_code aop # k))))"

lemma handle_carried:
  assumes "carries (fd, b) q" and "worker_handle_message XXH64 fd (raw b) (buf_size_in_bytes b) s = Inr s'" and "server_ok XXH64 s"
  shows "server_ok XXH64 s' \<and> spec_request q (server_view XXH64 s) = Inr ((), server_view XXH64 s')"
proof -
  have "wf_request q" "handle_request XXH64 q s = Inr ((), s')"
    using assms(1,2) by (cases q; auto simp: carries_def complete_msg_def Let_def)+
  then show ?thesis using handle_request_refines [OF assms(3), of q] by (auto simp: refines_def split: sum.splits)
qed

lemma run_snoc: "run exec (xs @ [x]) s =
    bind_result (run exec xs s) (\<lambda>(rs, s). bind_result (exec x s) (\<lambda>(r, s). Inr (rs @ [r], s)))"
  by (simp add: run_append bind_result_assoc case_prod_unfold)

lemma run_refines_store:
  assumes "server_run XXH64 s h s'" and "server_ok XXH64 (server s)" and "list_all2 carries h qs"
  shows "server_ok XXH64 (server s') \<and>
    (\<exists>rs. run spec_request qs (server_view XXH64 (server s)) = Inr (rs, server_view XXH64 (server s')))"
  using assms(1,3)
proof (induction arbitrary: qs rule: server_run.induct)
  case started
  with assms(2) show ?case by simp
next
  case (served h s1 msg s2)
  then obtain qs' q where qs: "qs = qs' @ [q]" "list_all2 carries h qs'" "carries msg q"
    by (auto simp: list_all2_append1 list_all2_Cons1)
  obtain fd b where "msg = (fd, b)" "worker_handle_message XXH64 fd (raw b) (buf_size_in_bytes b) (server s1) = Inr (server s2)"
    using serves_handles [OF served.hyps(2)] .
  with handle_carried [of fd b q] qs(3) served.IH [OF qs(2)] show ?case by (auto simp: qs(1) run_snoc)
next
  case (other h s1 s2)
  from other.hyps(2) have "server s2 = server s1"
  proof (cases rule: server_step_cases)
    case (2 msg)
    with other.hyps(3) show ?thesis by blast
  qed simp
  with other.IH [OF other.prems] show ?case by simp
qed

subsection \<open>Properties\<close>

text \<open>
  Runs in which messages are handled one at a time, as with a single worker: when all of the handled
  messages are complete requests on metadata, then the table of the server and all that it has written to
  its clients are what the plain map of files gives for the requests of the history, and the table is
  well-formed. (With several workers, handling is interrupted: \<open>Server_Sections\<close>.)
\<close>

lemma every_run_refines_store:
  assumes "server_ok XXH64 (server s)" and "(server_step XXH64)\<^sup>*\<^sup>* s s'"
  shows "(\<exists>h. server_run XXH64 s h s') \<and>
    (\<forall>h qs. server_run XXH64 s h s' \<and> list_all2 carries h qs \<longrightarrow>
      server_ok XXH64 (server s') \<and>
      (\<exists>rs. run spec_request qs (htable_lookup XXH64 (table (server s)), out (server s)) =
         Inr (rs, htable_lookup XXH64 (table (server s')), out (server s'))))"
proof (intro conjI allI impI)
  show "\<exists>h. server_run XXH64 s h s'" using steps_server_run [OF assms(2)] .
  fix h qs assume "server_run XXH64 s h s' \<and> list_all2 carries h qs"
  then have "server_ok XXH64 (server s') \<and>
      (\<exists>rs. run spec_request qs (server_view XXH64 (server s)) = Inr (rs, server_view XXH64 (server s')))"
    using run_refines_store [OF _ assms(1)] by blast
  then show "server_ok XXH64 (server s')"
    and "\<exists>rs. run spec_request qs (htable_lookup XXH64 (table (server s)), out (server s)) =
      Inr (rs, htable_lookup XXH64 (table (server s')), out (server s'))"
    by (simp_all add: server_view_def)
qed

text \<open>A server whose only worker has one message to handle, a request to close the file \<open>a\<close>.\<close>

definition sample_close :: request where
  "sample_close = (3, API_OP_CLOSE_FILE, [97])"

definition sample_system :: "Workload \<Rightarrow> Server \<Rightarrow> System" where
  "sample_system w s = \<lparr>polling = sample_poll_state\<lparr>workload := w\<rparr>, server = s, phase = Polling, soft = False, hard = False,
     thread_id_counter = 1, workers = [Looping 0]\<rparr>"

text \<open>This server handles the request.\<close>

lemma sample_serves:
  obtains w s s' where "sample_server CACHE_EVICTION_POLICY_FIFO [Create [97] 3 False] = Inr s" and "server_ok (\<lambda>_. 0) s"
    and "htable_lookup (\<lambda>_. 0) (table s) = [[97] \<mapsto> new_file [97] 3 False]" and "out s = []"
    and "serves (\<lambda>_. 0) (sample_system w s) (3, complete_msg (frame (api_op_code API_OP_CLOSE_FILE # [97]))) s'"
    and "carries (3, complete_msg (frame (api_op_code API_OP_CLOSE_FILE # [97]))) sample_close"
proof -
  obtain s where s: "sample_server CACHE_EVICTION_POLICY_FIFO [Create [97] 3 False] = Inr s" "server_ok (\<lambda>_. 0) s"
    "htable_lookup (\<lambda>_. 0) (table s) = [[97] \<mapsto> new_file [97] 3 False]" "out s = []"
    by (rule sample_server_created)
  let ?b = "complete_msg (frame (api_op_code API_OP_CLOSE_FILE # [97]))"
  have wf: "wf_request sample_close" by (simp add: sample_close_def)
  have carries: "carries (3, ?b) sample_close" using wf by (simp add: carries_def sample_close_def)
  have t: "thread_of 1 0 = 0" by (simp add: thread_of_def)
  obtain w where w: "queue_ok 0 w" "pending 0 w = Some (3, ?b)"
    using hand_over_queue [OF init_queue_ok [of "thread_of 1 0" 1 heap_empty], of ?b 3] by (auto simp: t heap_ok_empty)
  have "spec_exec (Close [97] 3) [[97] \<mapsto> new_file [97] 3 False] \<noteq> Inl e" for e
    by (simp add: as_reply_def spec_close_def new_file_def)
  then have "spec_request sample_close (server_view (\<lambda>_. 0) s) \<noteq> Inl e" for e
    by (simp add: sample_close_def server_view_def s(3) bind_result_def split: sum.splits)
  then obtain srv' where h: "worker_handle_message (\<lambda>_. 0) 3 (raw ?b) (buf_size_in_bytes ?b) s = Inr srv'"
    using handle_request_refines [OF s(2) wf]
    by (auto simp: refines_def sample_close_def complete_msg_def Let_def bind_result_def split: sum.splits)
  let ?s = "sample_system w s"
  obtain w' where "worker_turn (\<lambda>_. 0) 0 False w s = Inr (Serves, w', srv')"
    using worker_turn_pending [OF w, of "\<lambda>_. 0" False s] h by auto
  then have "serves (\<lambda>_. 0) ?s (3, ?b) (?s\<lparr>polling := (polling ?s)\<lparr>workload := w'\<rparr>, server := srv'\<rparr>)"
    using w(2) unfolding serves_def by (intro exI [of _ 0] exI [of _ w'] exI [of _ srv']) (simp add: sample_system_def)
  with s carries that show thesis by blast
qed

end
