(* ===== verification/HTable_Threads.thy ===== *)
theory HTable_Threads
  imports HTable_Locks HTable_Visitor
begin

text \<open>
  The hash table under concurrent requests: the operations of \<open>src/server/htable.c\<close> cut into
  the steps that other worker threads can come between.

  \<^item> A step is a critical section, from taking a mutex to releasing it. What a section reads and
    writes is reached by other threads only under the same mutex, so it is one step. An access
    outside of every critical section is a step of its own: \<open>htable_create_file\<close> reads
    \<open>bucket->head\<close> after it has released the bucket and before it takes it again.
  \<^item> \<open>htable_evict_files\<close> holds the mutex of the statistics over several steps, one for every
    bucket it looks at. A visitor holds the mutex of a bucket over several calls of
    \<open>htable_visitor_next\<close>, and reads the head of bucket 0 before it takes the mutex of that bucket.
  \<^item> A thread that would take a mutex held by another one waits: scheduling it changes nothing.

  Run without interruption the steps are the operations of \<open>HTable\<close>. With interruptions,
  requests on metadata other than creation are linearizable; no schedule of requests other than
  visits ends in a deadlock, while a visit locks the clients of a bucket out for ever;
  and creation is not safe, neither for other creations nor for evictions.
\<close>

subsection \<open>Steps\<close>

datatype table_op =
    Meta meta_op
  | Read cstring
  | Visit u32
  | Replace cstring "byte list"
  | Append cstring "byte list"

datatype stats_change =
    Count_Open
  | Count_Close
  | Count_Remove u64
  | Count_Create cstring
  | Count_Write u64 u64

datatype answer =
    Answer reply
  | Found "File option"
  | Visited "File list"
  | Evicted HTableError "File list"

text \<open>
  Where a thread is between two steps: waiting for a request; in \<open>htable_create_file\<close> before
  the new item is filled in and before it is linked; before the statistics are updated; in
  \<open>htable_evict_files\<close> before its mutex is taken, in its loop, and in the loop of
  \<open>htable_evict_single_file_segmented_fifo\<close>; with a visitor, before \<open>htable_visit\<close> takes its first
  mutex, before \<open>htable_visitor_next\<close> takes the next one, and between two calls of it, while the
  mutex of the bucket is held; the list has the files that the visit has returned.
\<close>

datatype activity =
    Idle
  | Preparing cstring int bool
  | Pushing cstring nat
  | Counting stats_change reply
  | Writing u64 u64
  | Starts_Evicting
  | Evicting "File list"
  | Drawing "File list"
  | Visit_Starts u32 ptr
  | Visit_Skips HTableVisitor "File list"
  | Visiting HTableVisitor "File list"

datatype progress = Done answer | Goes_On activity

fun count_stats :: "stats_change \<Rightarrow> HTableStats \<Rightarrow> HTableStats" where
  "count_stats Count_Open s = s\<lparr>open_count := open_count s + 1\<rparr>"
| "count_stats Count_Close s = s\<lparr>open_count := open_count s - 1\<rparr>"
| "count_stats (Count_Remove sz) s =
     s\<lparr>open_count := open_count s - 1, items_count := items_count s - 1,
       total_space_in_bytes := total_space_in_bytes s - sz\<rparr>"
| "count_stats (Count_Create k) s = stats_on_create s"
| "count_stats (Count_Write new_size old_size) s = stats_on_write new_size old_size s"

definition count_section :: "stats_change \<Rightarrow> HTable \<Rightarrow> HTable result" where
  "count_section c ht =
     bind_result (htable_stats_lock ht) (\<lambda>ht.
     let ht = ht\<lparr>stats := count_stats c (stats ht)\<rparr> in
     bind_result (case c of Count_Create k \<Rightarrow> htable_fifo_add ht k | _ \<Rightarrow> Inr ht) (\<lambda>ht.
       Inr (htable_stats_unlock ht)))"

text \<open>The sections at the beginning of the operations.\<close>

definition replied :: "HTableError \<Rightarrow> HTable \<Rightarrow> (progress \<times> HTable) result" where
  "replied e ht = Inr (Done (Answer (Reply e (-1))), ht)"

definition counting :: "stats_change \<Rightarrow> HTable \<Rightarrow> (progress \<times> HTable) result" where
  "counting c ht = Inr (Goes_On (Counting c (Reply HTABLE_ERR_OK (-1))), ht)"

definition open_section :: "hash_fn \<Rightarrow> cstring \<Rightarrow> int \<Rightarrow> bool \<Rightarrow> HTable \<Rightarrow> (progress \<times> HTable) result" where
  "open_section XXH64 k fd lock ht =
     bind_result (htable_fetch_file XXH64 ht k) (\<lambda>(p, ht).
     case p of
       None \<Rightarrow> replied HTABLE_ERR_FILE_NOT_FOUND ht
     | Some a \<Rightarrow>
         bind_result (load_item a ht) (\<lambda>it.
         let f = file it in
         if is_open f then replied HTABLE_ERR_ALREADY_OPEN (htable_release_file XXH64 ht k)
         else if is_locked f \<and> fd_owner f \<noteq> fd then replied HTABLE_ERR_CANT_OPEN (htable_release_file XXH64 ht k)
         else
           bind_result (store_file a (f\<lparr>is_open := True, is_locked := lock, fd_owner := fd\<rparr>) ht) (\<lambda>ht.
             counting Count_Open (htable_release_file XXH64 ht k))))"

definition close_section :: "hash_fn \<Rightarrow> cstring \<Rightarrow> int \<Rightarrow> HTable \<Rightarrow> (progress \<times> HTable) result" where
  "close_section XXH64 k fd ht =
     bind_result (htable_fetch_file XXH64 ht k) (\<lambda>(p, ht).
     case p of
       None \<Rightarrow> replied HTABLE_ERR_FILE_NOT_FOUND ht
     | Some a \<Rightarrow>
         bind_result (load_item a ht) (\<lambda>it.
         let f = file it in
         if \<not> is_open f then replied HTABLE_ERR_ALREADY_CLOSED (htable_release_file XXH64 ht k)
         else if is_locked f \<and> fd_owner f \<noteq> fd then replied HTABLE_ERR_CANT_CLOSE (htable_release_file XXH64 ht k)
         else
           bind_result (store_file a (f\<lparr>is_open := False\<rparr>) ht) (\<lambda>ht.
             counting Count_Close (htable_release_file XXH64 ht k))))"

definition remove_section :: "hash_fn \<Rightarrow> cstring \<Rightarrow> int \<Rightarrow> HTable \<Rightarrow> (progress \<times> HTable) result" where
  "remove_section XXH64 k fd ht =
     bind_result (htable_fetch_item XXH64 ht k) (\<lambda>(p, ht).
     case p of
       None \<Rightarrow> replied HTABLE_ERR_FILE_NOT_FOUND ht
     | Some a \<Rightarrow>
         bind_result (load_item a ht) (\<lambda>it.
         let f = file it in
         if is_locked f \<and> fd_owner f \<noteq> fd \<and> fd \<noteq> -1 then replied HTABLE_ERR_OK (htable_release_file XXH64 ht k)
         else
           bind_result (unlink_item (htable_bucket_ptr XXH64 ht k) a ht) (\<lambda>ht.
             counting (Count_Remove (length_in_bytes f)) (htable_release_file XXH64 (free_item a ht) k))))"

definition create_section :: "hash_fn \<Rightarrow> cstring \<Rightarrow> int \<Rightarrow> bool \<Rightarrow> HTable \<Rightarrow> (progress \<times> HTable) result" where
  "create_section XXH64 k fd lock ht =
     bind_result (htable_fetch_item XXH64 ht k) (\<lambda>(p, ht).
     case p of
       Some _ \<Rightarrow> replied HTABLE_ERR_ALREADY_CREATED (htable_release_file XXH64 ht k)
     | None \<Rightarrow> Inr (Goes_On (Preparing k fd lock), ht))"

definition replace_section :: "hash_fn \<Rightarrow> cstring \<Rightarrow> byte list \<Rightarrow> HTable \<Rightarrow> (progress \<times> HTable) result" where
  "replace_section XXH64 k data ht =
     bind_result (htable_fetch_file XXH64 ht k) (\<lambda>(p, ht).
     case p of
       None \<Rightarrow> Inr (Done (Evicted HTABLE_ERR_FILE_NOT_FOUND []), ht)
     | Some a \<Rightarrow>
         bind_result (load_item a ht) (\<lambda>it.
         let f = file it; sz = of_nat (length data) in
         bind_result (xrealloc (contents f) sz) (\<lambda>blk.
         bind_result
           (store_file a (f\<lparr>length_in_bytes := sz, contents := Some (data @ drop (length data) blk)\<rparr>) ht) (\<lambda>ht.
             Inr (Goes_On (Writing sz (length_in_bytes f)), htable_release_file XXH64 ht k)))))"

definition append_section :: "hash_fn \<Rightarrow> cstring \<Rightarrow> byte list \<Rightarrow> HTable \<Rightarrow> (progress \<times> HTable) result" where
  "append_section XXH64 k data ht =
     bind_result (htable_fetch_file XXH64 ht k) (\<lambda>(p, ht).
     case p of
       None \<Rightarrow> Inr (Done (Evicted HTABLE_ERR_FILE_NOT_FOUND []), ht)
     | Some a \<Rightarrow>
         bind_result (load_item a ht) (\<lambda>it.
         let f = file it; sz = of_nat (length data); new_len = length_in_bytes f + sz in
         bind_result (xrealloc (contents f) new_len) (\<lambda>blk.
         let off = unat (new_len - sz) in
         if length blk < off + length data then Inl Out_Of_Bounds
         else
           bind_result
             (store_file a (f\<lparr>length_in_bytes := new_len,
                contents := Some (take off blk @ data @ drop (off + length data) blk)\<rparr>) ht) (\<lambda>ht.
               Inr (Goes_On (Writing sz 0), htable_release_file XXH64 ht k)))))"

text \<open>
  \<open>worker_handle_read_file\<close> sends the file while it holds the mutex of the bucket.
\<close>

definition read_section :: "hash_fn \<Rightarrow> cstring \<Rightarrow> HTable \<Rightarrow> (progress \<times> HTable) result" where
  "read_section XXH64 k ht =
     bind_result (htable_fetch_file XXH64 ht k) (\<lambda>(p, ht).
     case p of
       None \<Rightarrow> Inr (Done (Found None), ht)
     | Some a \<Rightarrow>
         bind_result (load_item a ht) (\<lambda>it.
           Inr (Done (Found (Some (file it))), htable_release_file XXH64 ht k)))"

text \<open>\<open>htable_visit\<close> up to the mutex: it reads the head of bucket 0.\<close>

definition visit_section :: "u32 \<Rightarrow> HTable \<Rightarrow> (progress \<times> HTable) result" where
  "visit_section n ht =
     (if buckets ht = [] then Inl Out_Of_Bounds
      else Inr (Goes_On (Visit_Starts n (head (buckets ht ! 0))), ht))"

fun start_section :: "hash_fn \<Rightarrow> table_op \<Rightarrow> HTable \<Rightarrow> (progress \<times> HTable) result" where
  "start_section XXH64 (Meta (Lock k fd)) ht =
     bind_result (htable_lock_file XXH64 ht k fd) (\<lambda>(e, ht). Inr (Done (Answer (Reply e (-1))), ht))"
| "start_section XXH64 (Meta (Unlock k fd)) ht =
     bind_result (htable_unlock_file XXH64 ht k fd) (\<lambda>(e, new_fd, ht). Inr (Done (Answer (Reply e new_fd)), ht))"
| "start_section XXH64 (Meta (Open k fd l)) ht = open_section XXH64 k fd l ht"
| "start_section XXH64 (Meta (Create k fd l)) ht = create_section XXH64 k fd l ht"
| "start_section XXH64 (Meta (Close k fd)) ht = close_section XXH64 k fd ht"
| "start_section XXH64 (Meta (Remove k fd)) ht = remove_section XXH64 k fd ht"
| "start_section XXH64 (Read k) ht = read_section XXH64 k ht"
| "start_section XXH64 (Visit n) ht = visit_section n ht"
| "start_section XXH64 (Replace k data) ht = replace_section XXH64 k data ht"
| "start_section XXH64 (Append k data) ht = append_section XXH64 k data ht"

text \<open>The second critical section of \<open>htable_create_file\<close>, which links the item that was filled in before.\<close>

definition push_section :: "nat \<Rightarrow> nat \<Rightarrow> HTable \<Rightarrow> HTable result" where
  "push_section i item ht =
     bind_result (lock_bucket i ht) (\<lambda>ht.
     bind_result
       (case head (buckets ht ! i) of
          None \<Rightarrow> Inr ht
        | Some a \<Rightarrow> bind_result (load_item a ht) (\<lambda>it.
                      Inr (store_item a (it\<lparr>prev_item := Some item\<rparr>) ht))) (\<lambda>ht.
       let b = buckets ht ! i;
           b = (if last_item b = None then b\<lparr>last_item := Some item\<rparr> else b);
           b = b\<lparr>head := Some item\<rparr>
       in Inr (unlock_bucket i (ht\<lparr>buckets := (buckets ht)[i := b]\<rparr>))))"

text \<open>What the eviction loop does with an item it has unlinked.\<close>

definition evicted_section :: "File list \<Rightarrow> nat list \<Rightarrow> ptr \<Rightarrow> HTable \<Rightarrow> (progress \<times> nat list \<times> HTable) result" where
  "evicted_section ev draws p ht =
     bind_result (deref p) (\<lambda>a.
     bind_result (load_item a ht) (\<lambda>it.
       Inr (Goes_On (Evicting (ev @ [file it])), draws,
            free_item a (ht\<lparr>stats := stats_on_evict (file it) (stats ht)\<rparr>))))"

definition draw_section :: "File list \<Rightarrow> nat list \<Rightarrow> HTable \<Rightarrow> (progress \<times> nat list \<times> HTable) result" where
  "draw_section ev draws ht =
     (if \<not> 0 < items_count (stats ht) then Inl Exit_Failure
      else (case draws of
              [] \<Rightarrow> Inl Stuck
            | r # draws' \<Rightarrow>
                let i = unat ((of_nat r :: u64) mod buckets_count ht) in
                bind_result (lock_bucket i ht) (\<lambda>ht1.
                case last_item (buckets ht1 ! i) of
                  None \<Rightarrow>
                    bind_result (c_assert (head (buckets ht1 ! i) = None)) (\<lambda>_.
                      Inr (Goes_On (Drawing ev), draws', unlock_bucket i ht1))
                | Some a \<Rightarrow>
                    bind_result (take_last i a ht1) (\<lambda>ht2.
                      evicted_section ev draws' (Some a) (unlock_bucket i ht2)))))"

text \<open>
  The pieces of \<open>htable_visitor_next\<close>: what it returns, which is NULL and the end of the visit
  when \<open>next\<close> is NULL; the end of a bucket; the call itself, up to the next mutex; and the body of
  its loop from that mutex on.
\<close>

definition visit_returns :: "HTableVisitor \<Rightarrow> File list \<Rightarrow> HTable \<Rightarrow> (progress \<times> HTable) result" where
  "visit_returns v fs ht =
     (case next_visit v of
        None \<Rightarrow> Inr (Done (Visited fs), ht)
      | Some a \<Rightarrow> bind_result (load_item a ht) (\<lambda>it. Inr (Goes_On (Visiting v (fs @ [file it])), ht)))"

definition visit_leaves :: "HTableVisitor \<Rightarrow> File list \<Rightarrow> HTable \<Rightarrow> (progress \<times> HTable) result" where
  "visit_leaves v fs ht =
     (let ht = unlock_bucket (bucket_i v) ht; v = v\<lparr>bucket_i := Suc (bucket_i v)\<rparr> in
      if bucket_i v = unat (buckets_count ht) then Inr (Done (Visited fs), ht)
      else Inr (Goes_On (Visit_Skips v fs), ht))"

definition next_section :: "HTableVisitor \<Rightarrow> File list \<Rightarrow> HTable \<Rightarrow> (progress \<times> HTable) result" where
  "next_section v fs ht =
     (if visits v \<ge> max_visits v \<and> max_visits v \<noteq> 0 then Inr (Done (Visited fs), unlock_bucket (bucket_i v) ht)
      else (case next_visit v of
              Some a \<Rightarrow>
                bind_result (load_item a ht) (\<lambda>it.
                  visit_returns (v\<lparr>visits := visits v + 1, next_visit := next_item it\<rparr>) fs ht)
            | None \<Rightarrow> visit_leaves v fs ht))"

definition skip_section :: "HTableVisitor \<Rightarrow> File list \<Rightarrow> HTable \<Rightarrow> (progress \<times> HTable) result" where
  "skip_section v fs ht =
     bind_result (lock_bucket (bucket_i v) ht) (\<lambda>ht.
     let v = v\<lparr>next_visit := head (buckets ht ! bucket_i v)\<rparr> in
     if next_visit v = None then visit_leaves v fs ht
     else visit_returns (v\<lparr>visits := visits v + 1\<rparr>) fs ht)"

fun activity_step :: "hash_fn \<Rightarrow> activity \<Rightarrow> nat list \<Rightarrow> HTable \<Rightarrow> (progress \<times> nat list \<times> HTable) result" where
  "activity_step XXH64 Idle draws ht = Inr (Goes_On Idle, draws, ht)"
| "activity_step XXH64 (Preparing k fd lock) draws ht =
     (case heap_alloc \<lparr>file = new_file k fd lock,
          next_item = head (buckets ht ! htable_bucket_ptr XXH64 ht k), prev_item = None\<rparr> (items ht) of
        (item, h) \<Rightarrow> Inr (Goes_On (Pushing k item), draws, ht\<lparr>items := h\<rparr>))"
| "activity_step XXH64 (Pushing k item) draws ht =
     bind_result (push_section (htable_bucket_ptr XXH64 ht k) item ht) (\<lambda>ht.
       Inr (Goes_On (Counting (Count_Create k) (Reply HTABLE_ERR_OK (-1))), draws, ht))"
| "activity_step XXH64 (Counting c r) draws ht =
     bind_result (count_section c ht) (\<lambda>ht. Inr (Done (Answer r), draws, ht))"
| "activity_step XXH64 (Writing new_size old_size) draws ht =
     bind_result (count_section (Count_Write new_size old_size) ht) (\<lambda>ht. Inr (Goes_On Starts_Evicting, draws, ht))"
| "activity_step XXH64 Starts_Evicting draws ht =
     bind_result (htable_stats_lock ht) (\<lambda>ht. Inr (Goes_On (Evicting []), draws, ht))"
| "activity_step XXH64 (Evicting ev) draws ht =
     (if \<not> htable_over_limit ht then Inr (Done (Evicted HTABLE_ERR_OK ev), draws, htable_stats_unlock ht)
      else if policy ht = CACHE_EVICTION_POLICY_SEGMENTED_FIFO then
        bind_result (c_assert (items_count (stats ht) \<noteq> 0)) (\<lambda>_. Inr (Goes_On (Drawing ev), draws, ht))
      else
        bind_result (htable_evict_single_file_fifo XXH64 ht) (\<lambda>(p, ht). evicted_section ev draws p ht))"
| "activity_step XXH64 (Drawing ev) draws ht = draw_section ev draws ht"
| "activity_step XXH64 (Visit_Starts n p) draws ht =
     bind_result (lock_bucket 0 ht) (\<lambda>ht.
       Inr (Goes_On (Visiting \<lparr>max_visits = n, visits = 0, bucket_i = 0, next_visit = p\<rparr> []), draws, ht))"
| "activity_step XXH64 (Visit_Skips v fs) draws ht =
     bind_result (skip_section v fs ht) (\<lambda>(p, ht). Inr (p, draws, ht))"
| "activity_step XXH64 (Visiting v fs) draws ht =
     bind_result (next_section v fs ht) (\<lambda>(p, ht). Inr (p, draws, ht))"

subsection \<open>One thread alone\<close>

fun run_alone :: "nat \<Rightarrow> hash_fn \<Rightarrow> progress \<Rightarrow> nat list \<Rightarrow> HTable \<Rightarrow> (answer \<times> nat list \<times> HTable) result" where
  "run_alone fuel XXH64 (Done a) draws ht = Inr (a, draws, ht)"
| "run_alone 0 XXH64 (Goes_On c) draws ht = Inl Stuck"
| "run_alone (Suc fuel) XXH64 (Goes_On c) draws ht =
     bind_result (activity_step XXH64 c draws ht) (\<lambda>(p, draws, ht). run_alone fuel XXH64 p draws ht)"

definition run_op :: "nat \<Rightarrow> hash_fn \<Rightarrow> table_op \<Rightarrow> nat list \<Rightarrow> HTable \<Rightarrow> (answer \<times> nat list \<times> HTable) result" where
  "run_op fuel XXH64 x draws ht =
     bind_result (start_section XXH64 x ht) (\<lambda>(p, ht). run_alone fuel XXH64 p draws ht)"

subsection \<open>Many threads\<close>

record Thread =
  todo :: "table_op list"
  act :: activity
  answers :: "answer list"

record Threads =
  threads :: "Thread list"
  shared :: HTable
  rand_draws :: "nat list"

definition settle :: "progress \<Rightarrow> Thread \<Rightarrow> Thread" where
  "settle p th =
     (case p of
        Done a \<Rightarrow> th\<lparr>act := Idle, answers := answers th @ [a]\<rparr>
      | Goes_On c \<Rightarrow> th\<lparr>act := c\<rparr>)"

definition thread_step :: "hash_fn \<Rightarrow> nat \<Rightarrow> Threads \<Rightarrow> Threads result" where
  "thread_step XXH64 t s =
     (let th = threads s ! t in
      case (act th, todo th) of
        (Idle, []) \<Rightarrow> Inr s
      | (Idle, x # rest) \<Rightarrow>
          bind_result (start_section XXH64 x (shared s)) (\<lambda>(p, ht).
            Inr (s\<lparr>threads := (threads s)[t := settle p (th\<lparr>todo := rest\<rparr>)], shared := ht\<rparr>))
      | (c, _) \<Rightarrow>
          bind_result (activity_step XXH64 c (rand_draws s) (shared s)) (\<lambda>(p, draws, ht).
            Inr \<lparr>threads = (threads s)[t := settle p th], shared = ht, rand_draws = draws\<rparr>))"

text \<open>A schedule is the list of the threads that get to run. A thread that has to wait makes no step.\<close>

fun run_schedule :: "hash_fn \<Rightarrow> nat list \<Rightarrow> Threads \<Rightarrow> Threads result" where
  "run_schedule XXH64 [] s = Inr s"
| "run_schedule XXH64 (t # ts) s =
     (if length (threads s) \<le> t then run_schedule XXH64 ts s
      else case thread_step XXH64 t s of
        Inl e \<Rightarrow> if e = Deadlock then run_schedule XXH64 ts s else Inl e
      | Inr s' \<Rightarrow> run_schedule XXH64 ts s')"

definition start_threads :: "table_op list list \<Rightarrow> nat list \<Rightarrow> HTable \<Rightarrow> Threads" where
  "start_threads progs draws ht =
     \<lparr>threads = map (\<lambda>xs. \<lparr>todo = xs, act = Idle, answers = []\<rparr>) progs, shared = ht, rand_draws = draws\<rparr>"


subsection \<open>Without interruptions the steps are the operations\<close>

lemma count_section_update:
  "(\<forall>k. c \<noteq> Count_Create k) \<Longrightarrow> count_section c ht = update_stats (count_stats c) ht"
  by (cases c) (simp_all add: count_section_def update_stats_def)

lemma run_alone_Done [simp]: "run_alone fuel XXH64 (Done a) draws ht = Inr (a, draws, ht)"
  by (cases fuel) simp_all

lemma run_alone_steps:
  "run_alone (numeral n) XXH64 (Goes_On c) draws ht =
     bind_result (activity_step XXH64 c draws ht) (\<lambda>(p, draws, ht). run_alone (pred_numeral n) XXH64 p draws ht)"
  by (simp add: numeral_eq_Suc)

lemma insert_item_sections:
  "insert_item i f ht =
     (case heap_alloc \<lparr>file = f, next_item = head (buckets ht ! i), prev_item = None\<rparr> (items ht) of
        (item, h) \<Rightarrow> push_section i item (ht\<lparr>items := h\<rparr>))"
  by (simp add: insert_item_def push_section_def Let_def)

lemma bind_result_eqI: "(\<And>x. f x = g x) \<Longrightarrow> bind_result m f = bind_result m g"
  by (cases m) simp_all

lemma count_stats_fun:
  "count_stats Count_Open = (\<lambda>s. s\<lparr>open_count := open_count s + 1\<rparr>)"
  "count_stats Count_Close = (\<lambda>s. s\<lparr>open_count := open_count s - 1\<rparr>)"
  "count_stats (Count_Remove sz) = (\<lambda>s. s\<lparr>open_count := open_count s - 1, items_count := items_count s - 1,
     total_space_in_bytes := total_space_in_bytes s - sz\<rparr>)"
  "count_stats (Count_Create k) = stats_on_create"
  "count_stats (Count_Write n m) = stats_on_write n m"
  by (rule ext, simp)+

lemmas meta_op_defs = htable_open_or_create_file_def htable_open_file_def htable_close_file_def
  htable_remove_file_def htable_create_file_def open_section_def close_section_def remove_section_def create_section_def

lemma run_op_meta:
  "run_op 3 XXH64 (Meta x) draws ht =
     bind_result (htable_exec XXH64 x ht) (\<lambda>(r, ht). Inr (Answer r, draws, ht))"
proof (cases x)
  case (Lock k fd)
  then show ?thesis by (simp add: run_op_def as_reply_def bind_result_assoc case_prod_unfold)
next
  case (Unlock k fd)
  then show ?thesis by (simp add: run_op_def bind_result_assoc case_prod_unfold)
next
  case (Create k fd l)
  then show ?thesis
    by (auto simp: run_op_def as_reply_def meta_op_defs bind_result_assoc run_alone_steps
        replied_def counting_def Let_def insert_item_sections heap_alloc_def count_section_def count_stats_fun
        intro!: bind_result_eqI split: option.splits)
qed (auto simp: run_op_def as_reply_def meta_op_defs bind_result_assoc run_alone_steps count_section_update count_stats_fun
    replied_def counting_def Let_def intro!: bind_result_eqI split: option.splits)


lemma draw_alone:
  assumes "segmented_fifo_loop draws ht = Inr (q, draws', ht1)"
  shows "\<exists>m. \<forall>n. run_alone (m + n) XXH64 (Goes_On (Drawing ev)) draws ht =
    bind_result (evicted_section ev draws' q ht1) (\<lambda>(p, draws, ht). run_alone n XXH64 p draws ht)"
  using assms
proof (induction draws arbitrary: ht)
  case Nil
  then show ?case by (subst (asm) segmented_fifo_loop.simps) (simp split: if_splits)
next
  case (Cons r draws)
  let ?i = "unat ((of_nat r :: u64) mod buckets_count ht)"
  from Cons.prems have items: "0 < items_count (stats ht)"
    by (subst (asm) segmented_fifo_loop.simps) (simp split: if_splits)
  with Cons.prems obtain ht0 where lock: "lock_bucket ?i ht = Inr ht0"
    by (subst (asm) segmented_fifo_loop.simps) (auto simp: Let_def bind_result_eq_Inr)
  show ?case
  proof (cases "last_item (buckets ht0 ! ?i)")
    case None
    with Cons.prems items lock have e: "c_assert (head (buckets ht0 ! ?i) = None) = Inr ()"
      and "segmented_fifo_loop draws (unlock_bucket ?i ht0) = Inr (q, draws', ht1)"
      by (subst (asm) segmented_fifo_loop.simps; simp add: Let_def bind_result_eq_Inr)+
    with Cons.IH obtain m where m: "\<And>n. run_alone (m + n) XXH64 (Goes_On (Drawing ev)) draws (unlock_bucket ?i ht0) =
      bind_result (evicted_section ev draws' q ht1) (\<lambda>(p, draws, ht). run_alone n XXH64 p draws ht)" by blast
    show ?thesis
      by (rule exI [of _ "Suc m"]) (simp add: m draw_section_def items lock None e Let_def)
  next
    case (Some a)
    with Cons.prems items lock obtain ht2 where "take_last ?i a ht0 = Inr ht2" "q = Some a" "draws' = draws" "ht1 = unlock_bucket ?i ht2"
      by (subst (asm) segmented_fifo_loop.simps) (auto simp: Let_def bind_result_eq_Inr)
    with items lock Some show ?thesis
      by (intro exI [of _ "Suc 0"]) (simp add: draw_section_def Let_def)
  qed
qed

lemma evict_alone:
  assumes "evict_loop fuel XXH64 draws ht = Inr (ev, draws', ht')"
  shows "\<exists>n. run_alone n XXH64 (Goes_On (Evicting acc)) draws ht =
    Inr (Evicted HTABLE_ERR_OK (acc @ ev), draws', htable_stats_unlock ht')"
  using assms
proof (induction fuel arbitrary: acc draws ht ev)
  case 0
  then show ?case
    by (intro exI [of _ "Suc 0"]) (simp add: evict_loop.simps split: if_splits)
next
  case (Suc fuel)
  show ?case
  proof (cases "htable_over_limit ht")
    case False
    with Suc.prems show ?thesis
      by (intro exI [of _ "Suc 0"]) (simp add: evict_loop.simps)
  next
    case True
    with Suc.prems obtain q draws1 ht1 a it ev1 where one: "htable_evict_one XXH64 draws ht = Inr (q, draws1, ht1)"
      and a: "q = Some a" "load_item a ht1 = Inr it"
      and loop: "evict_loop fuel XXH64 draws1 (free_item a (ht1\<lparr>stats := stats_on_evict (file it) (stats ht1)\<rparr>)) = Inr (ev1, draws', ht')"
      and ev: "ev = file it # ev1"
      by (subst (asm) evict_loop.simps) (auto simp: bind_result_eq_Inr deref_def split: option.splits)
    from Suc.IH [OF loop, of "acc @ [file it]"] obtain n where n:
      "run_alone n XXH64 (Goes_On (Evicting (acc @ [file it]))) draws1 (free_item a (ht1\<lparr>stats := stats_on_evict (file it) (stats ht1)\<rparr>)) =
        Inr (Evicted HTABLE_ERR_OK (acc @ ev), draws', htable_stats_unlock ht')" by (auto simp: ev)
    have evicted: "evicted_section acc draws1 q ht1 = Inr (Goes_On (Evicting (acc @ [file it])), draws1,
      free_item a (ht1\<lparr>stats := stats_on_evict (file it) (stats ht1)\<rparr>))"
      by (simp add: evicted_section_def a)
    show ?thesis
    proof (cases "policy ht = CACHE_EVICTION_POLICY_SEGMENTED_FIFO")
      case pol: True
      with one have nz: "c_assert (items_count (stats ht) \<noteq> 0) = Inr ()" and "segmented_fifo_loop draws ht = Inr (q, draws1, ht1)"
        by (simp_all add: htable_evict_one_def htable_evict_single_file_segmented_fifo_def bind_result_eq_Inr)
      with draw_alone obtain m where m: "\<And>n. run_alone (m + n) XXH64 (Goes_On (Drawing acc)) draws ht =
        bind_result (evicted_section acc draws1 q ht1) (\<lambda>(p, draws, ht). run_alone n XXH64 p draws ht)" by blast
      with True pol nz n evicted show ?thesis by (intro exI [of _ "Suc (m + n)"]) simp
    next
      case False
      with one have "htable_evict_single_file_fifo XXH64 ht = Inr (q, ht1)" "draws1 = draws"
        by (auto simp: htable_evict_one_def bind_result_eq_Inr)
      with True False n evicted show ?thesis by (intro exI [of _ "Suc n"]) simp
    qed
  qed
qed

lemma write_alone:
  assumes "bind_result (update_stats (stats_on_write n m) ht) (htable_evict_files XXH64 draws) = Inr (e, ev, draws', ht')"
  shows "\<exists>fuel. run_alone fuel XXH64 (Goes_On (Writing n m)) draws ht = Inr (Evicted e ev, draws', ht')"
proof -
  obtain ht1 ht2 ht3 where w: "update_stats (stats_on_write n m) ht = Inr ht1" "htable_stats_lock ht1 = Inr ht2"
    "evict_loop (Suc (brk (items ht2))) XXH64 draws ht2 = Inr (ev, draws', ht3)" "ht' = htable_stats_unlock ht3" "e = HTABLE_ERR_OK"
    using assms by (auto simp: htable_evict_files_def bind_result_eq_Inr)
  with evict_alone [OF w(3), of "[]"] obtain k where
    "run_alone k XXH64 (Goes_On (Evicting [])) draws ht2 = Inr (Evicted e ev, draws', ht')" by auto
  with w show ?thesis
    by (intro exI [of _ "Suc (Suc k)"]) (simp add: count_section_update count_stats_fun)
qed

lemma run_op_replace:
  assumes "htable_replace_file_contents XXH64 draws ht k data = Inr (e, ev, draws', ht')"
  shows "\<exists>fuel. run_op fuel XXH64 (Replace k data) draws ht = Inr (Evicted e ev, draws', ht')"
proof -
  obtain q ht0 where f: "htable_fetch_file XXH64 ht k = Inr (q, ht0)"
    using assms by (auto simp: htable_replace_file_contents_def bind_result_eq_Inr)
  show ?thesis
  proof (cases q)
    case None
    with assms f show ?thesis by (simp add: htable_replace_file_contents_def run_op_def replace_section_def)
  next
    case (Some a)
    with assms f obtain n m ht1 where "start_section XXH64 (Replace k data) ht = Inr (Goes_On (Writing n m), ht1)"
      and "bind_result (update_stats (stats_on_write n m) ht1) (htable_evict_files XXH64 draws) = Inr (e, ev, draws', ht')"
      by (auto simp: htable_replace_file_contents_def replace_section_def Let_def bind_result_eq_Inr split: if_splits)
    with write_alone show ?thesis by (auto simp: run_op_def)
  qed
qed
  
lemma run_op_append:
  assumes "htable_append_to_file_contents XXH64 draws ht k data = Inr (e, ev, draws', ht')"
  shows "\<exists>fuel. run_op fuel XXH64 (Append k data) draws ht = Inr (Evicted e ev, draws', ht')"
proof -
  obtain q ht0 where f: "htable_fetch_file XXH64 ht k = Inr (q, ht0)"
    using assms by (auto simp: htable_append_to_file_contents_def bind_result_eq_Inr)
  show ?thesis
  proof (cases q)
    case None
    with assms f show ?thesis by (simp add: htable_append_to_file_contents_def run_op_def append_section_def)
  next
    case (Some a)
    with assms f obtain n m ht1 where "start_section XXH64 (Append k data) ht = Inr (Goes_On (Writing n m), ht1)"
      and "bind_result (update_stats (stats_on_write n m) ht1) (htable_evict_files XXH64 draws) = Inr (e, ev, draws', ht')"
      by (auto simp: htable_append_to_file_contents_def append_section_def Let_def bind_result_eq_Inr split: if_splits)
    with write_alone show ?thesis by (auto simp: run_op_def)
  qed
qed

lemma read_alone:
  "run_op n XXH64 (Read k) draws ht =
     bind_result (htable_fetch_file XXH64 ht k) (\<lambda>(p, ht).
     case p of
       None \<Rightarrow> Inr (Found None, draws, ht)
     | Some a \<Rightarrow> bind_result (load_item a ht) (\<lambda>it. Inr (Found (Some (file it)), draws, htable_release_file XXH64 ht k)))"
  by (auto simp: run_op_def read_section_def bind_result_assoc intro!: bind_result_eqI split: option.splits)

text \<open>A visitor alone goes through \<open>visitor_skip\<close> and \<open>visit_loop\<close>.\<close>

lemma leaves_alone:
  assumes "visitor_skip fuel v ht = Inr (found, v', ht')" and "next_visit v = None"
  shows "\<exists>m. \<forall>n. bind_result (visit_leaves v fs ht) (\<lambda>(p, ht). run_alone (m + n) XXH64 p draws ht) =
    (if found then bind_result (visit_returns (v'\<lparr>visits := visits v' + 1\<rparr>) fs ht') (\<lambda>(p, ht). run_alone n XXH64 p draws ht)
     else Inr (Visited fs, draws, ht'))"
  using assms
proof (induction fuel arbitrary: v ht)
  case 0
  then show ?case by (simp add: visitor_skip.simps)
next
  case (Suc fuel)
  let ?ht = "unlock_bucket (bucket_i v) ht" and ?v = "v\<lparr>bucket_i := Suc (bucket_i v)\<rparr>"
  note skip = Suc.prems(1) [unfolded visitor_skip_None [OF Suc.prems(2)] Let_def]
  show ?case
  proof (cases "Suc (bucket_i v) = unat (buckets_count ?ht)")
    case True
    with skip show ?thesis by (intro exI [of _ 0]) (simp add: visit_leaves_def Let_def)
  next
    case False
    with skip obtain ht1 where ht1: "lock_bucket (Suc (bucket_i v)) ?ht = Inr ht1"
      "visitor_skip fuel (?v\<lparr>next_visit := head (buckets ht1 ! Suc (bucket_i v))\<rparr>) ht1 = Inr (found, v', ht')"
      by (auto simp: bind_result_eq_Inr)
    let ?w = "?v\<lparr>next_visit := head (buckets ht1 ! Suc (bucket_i v))\<rparr>"
    have leave: "bind_result (visit_leaves v fs ht) (\<lambda>(p, ht). run_alone (Suc m) XXH64 p draws ht) =
        bind_result (if next_visit ?w = None then visit_leaves ?w fs ht1 else visit_returns (?w\<lparr>visits := visits ?w + 1\<rparr>) fs ht1)
          (\<lambda>(p, ht). run_alone m XXH64 p draws ht)" for m
      using False ht1(1) by (simp add: visit_leaves_def Let_def skip_section_def bind_result_assoc case_prod_unfold)
    show ?thesis
    proof (cases "next_visit ?w")
      case None
      with Suc.IH [OF ht1(2) None] obtain m where m: "\<And>n. bind_result (visit_leaves ?w fs ht1) (\<lambda>(p, ht). run_alone (m + n) XXH64 p draws ht) =
        (if found then bind_result (visit_returns (v'\<lparr>visits := visits v' + 1\<rparr>) fs ht') (\<lambda>(p, ht). run_alone n XXH64 p draws ht)
         else Inr (Visited fs, draws, ht'))" by blast
      have "bind_result (visit_leaves v fs ht) (\<lambda>(p, ht). run_alone (Suc m + n) XXH64 p draws ht) =
        (if found then bind_result (visit_returns (v'\<lparr>visits := visits v' + 1\<rparr>) fs ht') (\<lambda>(p, ht). run_alone n XXH64 p draws ht)
         else Inr (Visited fs, draws, ht'))" for n
        using leave [of "m + n"] m [of n] by (simp only: add_Suc None simp_thms if_True)
      then show ?thesis by blast
    next
      case (Some a)
      with ht1(2) have "found" "v' = ?w" "ht' = ht1" by (auto simp: visitor_skip.simps)
      then have "bind_result (visit_leaves v fs ht) (\<lambda>(p, ht). run_alone (Suc 0 + n) XXH64 p draws ht) =
        (if found then bind_result (visit_returns (v'\<lparr>visits := visits v' + 1\<rparr>) fs ht') (\<lambda>(p, ht). run_alone n XXH64 p draws ht)
         else Inr (Visited fs, draws, ht'))" for n
        using leave [of n] by (simp only: add_Suc add_0 Some simp_thms option.distinct if_False if_True)
      then show ?thesis by blast
    qed
  qed
qed

lemma returns_alone:
  assumes "next_visit v = Some a" and "load_item a ht = Inr it"
  shows "visit_returns v fs ht = Inr (Goes_On (Visiting v (fs @ [file it])), ht)"
  using assms by (simp add: visit_returns_def)

lemma visit_alone:
  assumes "visit_loop fuel v ht = Inr (fs, ht')"
  shows "\<exists>n. run_alone n XXH64 (Goes_On (Visiting v acc)) draws ht = Inr (Visited (acc @ fs), draws, ht')"
  using assms
proof (induction fuel arbitrary: v ht fs acc)
  case (Suc fuel)
  obtain q v1 ht1 where q: "htable_visitor_next v ht = Inr (q, v1, ht1)" using Suc.prems by (auto simp: bind_result_eq_Inr)
  have step: "run_alone (Suc n) XXH64 (Goes_On (Visiting v acc)) draws ht =
      bind_result (next_section v acc ht) (\<lambda>(p, ht). run_alone n XXH64 p draws ht)" for n
    by (simp add: bind_result_assoc case_prod_unfold)
  have rest: "\<exists>n. run_alone n XXH64 (Goes_On (Visiting v1 (acc @ [file it]))) draws ht1 = Inr (Visited (acc @ fs), draws, ht')"
    if qa: "q = Some a" "load_item a ht1 = Inr it" for a it
  proof -
    obtain fs1 where "visit_loop fuel v1 ht1 = Inr (fs1, ht')" "fs = file it # fs1"
      using Suc.prems q qa by (auto simp: bind_result_eq_Inr)
    with Suc.IH [of v1 ht1 fs1 "acc @ [file it]"] show ?thesis by simp
  qed
  have end': "fs = [] \<and> ht' = ht1" if "q = None" using Suc.prems q that by simp
  have item: "\<exists>a it. q = Some a \<and> load_item a ht1 = Inr it" if "q \<noteq> None"
    using Suc.prems q that by (auto simp: bind_result_eq_Inr)
  consider (limit) "visits v \<ge> max_visits v \<and> max_visits v \<noteq> 0"
    | (more) b where "\<not> (visits v \<ge> max_visits v \<and> max_visits v \<noteq> 0)" "next_visit v = Some b"
    | (skip) "\<not> (visits v \<ge> max_visits v \<and> max_visits v \<noteq> 0)" "next_visit v = None" by fastforce
  then show ?case
  proof cases
    case limit
    with q end' show ?thesis
      by (intro exI [of _ "Suc 0"]) (auto simp: htable_visitor_next_def next_section_def)
  next
    case (more b)
    with q obtain jt where jt: "load_item b ht = Inr jt" "q = next_item jt" "ht1 = ht"
      "v1 = v\<lparr>visits := visits v + 1, next_visit := next_item jt\<rparr>"
      by (auto simp: htable_visitor_next_def bind_result_eq_Inr)
    have ns: "next_section v acc ht = visit_returns v1 acc ht" using more jt by (auto simp: next_section_def)
    show ?thesis
    proof (cases q)
      case None
      with end' jt ns show ?thesis by (intro exI [of _ "Suc 0"]) (simp only: step, simp add: visit_returns_def)
    next
      case (Some a)
      with item obtain it where it: "load_item a ht1 = Inr it" by blast
      from rest [OF Some it] obtain n where
        "run_alone n XXH64 (Goes_On (Visiting v1 (acc @ [file it]))) draws ht1 = Inr (Visited (acc @ fs), draws, ht')" by blast
      with returns_alone [of v1 a ht it acc] it jt Some ns show ?thesis
        by (intro exI [of _ "Suc n"]) (simp only: step, simp)
    qed
  next
    case skip
    with q obtain m v2 where m: "visitor_skip (Suc (length (buckets ht))) v ht = Inr (m, v2, ht1)"
      "if m then q = next_visit v2 \<and> v1 = v2\<lparr>visits := visits v2 + 1\<rparr> else q = None"
      by (auto simp: htable_visitor_next_def bind_result_eq_Inr split: if_splits)
    have ns: "next_section v acc ht = visit_leaves v acc ht" using skip by (auto simp: next_section_def)
    obtain j where j: "\<And>n. bind_result (visit_leaves v acc ht) (\<lambda>(p, ht). run_alone (j + n) XXH64 p draws ht) =
      (if m then bind_result (visit_returns (v2\<lparr>visits := visits v2 + 1\<rparr>) acc ht1) (\<lambda>(p, ht). run_alone n XXH64 p draws ht)
       else Inr (Visited acc, draws, ht1))"
      using leaves_alone [OF m(1) skip(2), of acc XXH64 draws] by blast
    show ?thesis
    proof (cases "m \<and> q \<noteq> None")
      case False
      with m(2) end' have "(if m then bind_result (visit_returns (v2\<lparr>visits := visits v2 + 1\<rparr>) acc ht1) (\<lambda>(p, ht). run_alone 0 XXH64 p draws ht)
        else Inr (Visited acc, draws, ht1)) = Inr (Visited (acc @ fs), draws, ht')"
        by (auto simp: visit_returns_def)
      with j [of 0] show ?thesis by (intro exI [of _ "Suc (j + 0)"]) (simp only: step ns)
    next
      case True
      with item obtain a it where it: "q = Some a" "load_item a ht1 = Inr it" by blast
      from rest [OF it] obtain n where
        n: "run_alone n XXH64 (Goes_On (Visiting v1 (acc @ [file it]))) draws ht1 = Inr (Visited (acc @ fs), draws, ht')" by blast
      have "visit_returns (v2\<lparr>visits := visits v2 + 1\<rparr>) acc ht1 = Inr (Goes_On (Visiting v1 (acc @ [file it])), ht1)"
        using returns_alone [of v1 a ht1 it acc] it m(2) True by simp
      with j [of n] n True show ?thesis by (intro exI [of _ "Suc (j + n)"]) (simp only: step ns, simp)
    qed
  qed
qed simp

lemma run_op_visit:
  assumes "htable_visit ht n = Inr (v, ht1)" and "visit_loop fuel v ht1 = Inr (fs, ht')"
  shows "\<exists>m. run_op m XXH64 (Visit n) draws ht = Inr (Visited fs, draws, ht')"
proof -
  have v: "visit_section n ht = Inr (Goes_On (Visit_Starts n (head (buckets ht ! 0))), ht)" "lock_bucket 0 ht = Inr ht1"
    "v = \<lparr>max_visits = n, visits = 0, bucket_i = 0, next_visit = head (buckets ht ! 0)\<rparr>"
    using assms(1) by (auto simp: htable_visit_def visit_section_def Let_def bind_result_eq_Inr split: if_splits)
  from visit_alone [OF assms(2), of XXH64 "[]" draws] obtain m where
    "run_alone m XXH64 (Goes_On (Visiting v [])) draws ht1 = Inr (Visited fs, draws, ht')" by auto
  with v show ?thesis by (intro exI [of _ "Suc m"]) (simp add: run_op_def)
qed

lemma run_op_summary:
  assumes "print_summary ht = Inr (st, fs, ht')"
  shows "\<exists>n. run_op n XXH64 (Visit 0) draws ht = Inr (Visited fs, draws, ht')"
  using assms run_op_visit by (auto simp: print_summary_def bind_result_eq_Inr simp del: visit_loop.simps)

subsection \<open>Mutexes\<close>

text \<open>The state of all mutexes, and the number that selects a bucket.\<close>

definition mutexes :: "HTable \<Rightarrow> bool \<times> u64 \<times> bool list" where
  "mutexes ht = (stats_guard ht, buckets_count ht, map guard (buckets ht))"

definition hold_bucket :: "nat \<Rightarrow> bool \<times> u64 \<times> bool list \<Rightarrow> bool \<times> u64 \<times> bool list" where
  "hold_bucket i m = (case m of (g, n, gs) \<Rightarrow> (g, n, gs[i := True]))"

definition drop_bucket :: "nat \<Rightarrow> bool \<times> u64 \<times> bool list \<Rightarrow> bool \<times> u64 \<times> bool list" where
  "drop_bucket i m = (case m of (g, n, gs) \<Rightarrow> (g, n, gs[i := False]))"

definition bucket_free :: "nat \<Rightarrow> HTable \<Rightarrow> bool" where
  "bucket_free i ht \<longleftrightarrow> drop_bucket i (mutexes ht) = mutexes ht"

named_theorems mutex_simps \<open>the mutexes after an operation\<close>

lemma drop_hold [mutex_simps]: "drop_bucket i (hold_bucket i m) = drop_bucket i m"
  by (simp add: drop_bucket_def hold_bucket_def split: prod.splits)

lemma mutexes_upd [mutex_simps]:
  "mutexes (ht\<lparr>stats := s\<rparr>) = mutexes ht"
  "mutexes (ht\<lparr>items := h\<rparr>) = mutexes ht"
  "mutexes (ht\<lparr>fifo := ff\<rparr>) = mutexes ht"
  "mutexes (store_item a it ht) = mutexes ht"
  "mutexes (free_item a ht) = mutexes ht"
  "mutexes (unlock_bucket i ht) = drop_bucket i (mutexes ht)"
  by (simp_all add: mutexes_def store_item_def free_item_def unlock_bucket_def drop_bucket_def map_update)

lemma mutexes_links [mutex_simps]:
  "guard b = guard (buckets ht ! i) \<Longrightarrow> mutexes (ht\<lparr>buckets := (buckets ht)[i := b]\<rparr>) = mutexes ht"
  by (cases "i < length (buckets ht)") (simp_all add: mutexes_def map_update list_update_same_conv list_update_beyond)

lemma guard_links [mutex_simps]: "guard b = guard (bs ! i) \<Longrightarrow> guard (bs[i := b] ! i) = guard (bs ! i)"
  by (cases "i < length bs") (simp_all add: list_update_beyond)

definition bucket_of :: "hash_fn \<Rightarrow> bool \<times> u64 \<times> bool list \<Rightarrow> cstring \<Rightarrow> nat" where
  "bucket_of XXH64 m k = unat (XXH64 k mod fst (snd m))"

lemma bucket_ptr_mutexes: "htable_bucket_ptr XXH64 ht k = bucket_of XXH64 (mutexes ht) k"
  by (simp add: bucket_of_def mutexes_def htable_bucket_ptr_def)

lemma bucket_of_hold [mutex_simps]: "bucket_of XXH64 (hold_bucket i m) k = bucket_of XXH64 m k"
  by (simp add: bucket_of_def hold_bucket_def split: prod.splits)

lemma lock_bucket_mutexes:
  "lock_bucket i ht = Inr ht' \<Longrightarrow> mutexes ht' = hold_bucket i (mutexes ht) \<and> bucket_free i ht"
  by (auto simp: lock_bucket_def mutexes_def hold_bucket_def bucket_free_def drop_bucket_def map_update list_update_same_conv
      split: if_splits)

lemma fetch_item_mutexes:
  assumes "htable_fetch_item XXH64 ht k = Inr (p, ht')"
  shows "drop_bucket (bucket_of XXH64 (mutexes ht) k) (mutexes ht) = mutexes ht \<and>
    mutexes ht' = (case p of None \<Rightarrow> mutexes ht | Some a \<Rightarrow> hold_bucket (bucket_of XXH64 (mutexes ht) k) (mutexes ht))"
proof -
  let ?i = "htable_bucket_ptr XXH64 ht k"
  obtain ht0 where "lock_bucket ?i ht = Inr ht0" "ht' = (case p of None \<Rightarrow> unlock_bucket ?i ht0 | Some a \<Rightarrow> ht0)"
    using assms by (auto simp: htable_fetch_item_def Let_def bind_result_eq_Inr split: option.splits)
  with lock_bucket_mutexes [of ?i ht ht0] show ?thesis
    by (cases p) (simp_all add: bucket_free_def bucket_ptr_mutexes mutexes_upd drop_hold)
qed

lemma store_file_mutexes: "store_file a f ht = Inr ht' \<Longrightarrow> mutexes ht' = mutexes ht"
  by (auto simp: store_file_def bind_result_eq_Inr mutex_simps)

lemma unlink_item_mutexes: "unlink_item i a ht = Inr ht' \<Longrightarrow> mutexes ht' = mutexes ht"
  by (auto simp: unlink_item_def bind_result_eq_Inr mutex_simps split: option.splits)

lemma take_last_mutexes:
  assumes "take_last i a ht = Inr ht'"
  shows "mutexes ht' = mutexes ht"
proof -
  obtain it where it: "load_item a ht = Inr it" using assms by (auto simp: take_last_def bind_result_eq_Inr)
  show ?thesis
  proof (cases "prev_item it")
    case None
    with assms it show ?thesis
      by (auto simp: take_last_def Let_def bind_result_eq_Inr mutexes_upd mutexes_links guard_links)
  next
    case (Some q)
    with assms it show ?thesis by (auto simp: take_last_def Let_def bind_result_eq_Inr mutexes_upd mutexes_links)
  qed
qed

lemma release_mutexes [mutex_simps]:
  "mutexes (htable_release_file XXH64 ht k) = drop_bucket (bucket_of XXH64 (mutexes ht) k) (mutexes ht)"
  by (simp add: htable_release_file_def mutex_simps bucket_ptr_mutexes)

lemma unlock_file_mutexes:
  assumes "htable_unlock_file XXH64 ht k fd = Inr (e, new_fd, ht')"
  shows "mutexes ht' = mutexes ht"
proof -
  obtain q ht0 where q: "htable_fetch_item XXH64 ht k = Inr (q, ht0)"
    using assms by (auto simp: htable_unlock_file_def htable_fetch_file_def bind_result_eq_Inr)
  show ?thesis
  proof (cases q)
    case None
    with assms q fetch_item_mutexes [OF q] show ?thesis by (simp add: htable_unlock_file_def htable_fetch_file_def)
  next
    case (Some a)
    with assms q obtain it where it: "load_item a ht0 = Inr it"
      by (auto simp: htable_unlock_file_def htable_fetch_file_def bind_result_eq_Inr)
    from assms q Some it fetch_item_mutexes [OF q] show ?thesis
      by (cases "subs (file it)")
        (auto simp: htable_unlock_file_def htable_fetch_file_def Let_def bind_result_eq_Inr mutex_simps
          split: if_splits dest!: store_file_mutexes)
  qed
qed

lemma start_section_mutexes:
  assumes "start_section XXH64 x ht = Inr (p, ht')"
  shows "mutexes ht' = mutexes ht"
proof -
  note defs = htable_fetch_file_def Let_def bind_result_eq_Inr replied_def counting_def mutex_simps
  note keep = fetch_item_mutexes store_file_mutexes unlink_item_mutexes
  show ?thesis
  proof (cases "(XXH64, x, ht)" rule: start_section.cases)
    case (1 h k fd ht0)
    with assms show ?thesis
      by (auto simp: htable_lock_file_def defs split: option.splits if_splits dest!: keep)
  next
    case (2 h k fd ht0)
    with assms show ?thesis
      by (auto simp: bind_result_eq_Inr dest!: unlock_file_mutexes)
  qed (use assms in \<open>auto simp: open_section_def close_section_def remove_section_def create_section_def replace_section_def
        append_section_def read_section_def visit_section_def defs split: option.splits if_splits dest!: keep\<close>)
qed


lemma push_section_mutexes: "push_section i item ht = Inr ht' \<Longrightarrow> mutexes ht' = mutexes ht"
  by (auto simp: push_section_def Let_def bind_result_eq_Inr mutex_simps bucket_free_def split: option.splits if_splits
      dest!: lock_bucket_mutexes)

lemma evict_fifo_mutexes:
  assumes "htable_evict_single_file_fifo XXH64 ht = Inr (p, ht')"
  shows "mutexes ht' = mutexes ht"
  using assms
  by (auto simp: htable_evict_single_file_fifo_def Let_def bind_result_eq_Inr mutex_simps bucket_ptr_mutexes
      split: option.splits dest!: fetch_item_mutexes unlink_item_mutexes)

lemma evicted_section_mutexes:
  "evicted_section ev draws q ht = Inr (p, draws', ht') \<Longrightarrow>
     mutexes ht' = mutexes ht \<and> (\<exists>ev'. p = Goes_On (Evicting ev'))"
  by (auto simp: evicted_section_def bind_result_eq_Inr mutex_simps)

lemma draw_section_mutexes:
  "draw_section ev draws ht = Inr (p, draws', ht') \<Longrightarrow>
     mutexes ht' = mutexes ht \<and> (\<exists>ev'. p = Goes_On (Evicting ev') \<or> p = Goes_On (Drawing ev'))"
  by (auto simp: draw_section_def Let_def bind_result_eq_Inr mutex_simps bucket_free_def
      split: list.splits option.splits if_splits dest!: lock_bucket_mutexes take_last_mutexes evicted_section_mutexes)

lemma stats_lock_mutexes: "htable_stats_lock ht = Inr ht' \<Longrightarrow> fst (mutexes ht) = False \<and> mutexes ht' = (True, snd (mutexes ht))"
  by (auto simp: htable_stats_lock_def mutexes_def split: if_splits)

lemma stats_unlock_mutexes: "mutexes (htable_stats_unlock ht) = (False, snd (mutexes ht))"
  by (simp add: htable_stats_unlock_def mutexes_def)

lemma fifo_add_mutexes: "htable_fifo_add ht k = Inr ht' \<Longrightarrow> mutexes ht' = mutexes ht"
  by (auto simp: htable_fifo_add_def mutex_simps split: if_splits option.splits)

lemma count_section_mutexes: "count_section c ht = Inr ht' \<Longrightarrow> fst (mutexes ht) = False \<and> mutexes ht' = mutexes ht"
  by (cases c)
    (auto simp: count_section_def Let_def bind_result_eq_Inr stats_unlock_mutexes mutex_simps
      dest!: stats_lock_mutexes fifo_add_mutexes intro: prod_eqI)

text \<open>The activities that hold the mutex of the statistics between two steps.\<close>

fun holds_stats :: "activity \<Rightarrow> bool" where
  "holds_stats (Evicting ev) = True"
| "holds_stats (Drawing ev) = True"
| "holds_stats _ = False"

text \<open>Visits.\<close>

fun visiting :: "activity \<Rightarrow> bool" where
  "visiting (Visit_Starts n p) = True"
| "visiting (Visit_Skips v fs) = True"
| "visiting (Visiting v fs) = True"
| "visiting _ = False"

fun is_visit :: "table_op \<Rightarrow> bool" where
  "is_visit (Visit n) = True"
| "is_visit _ = False"

definition visits_nothing :: "Thread \<Rightarrow> bool" where
  "visits_nothing th \<longleftrightarrow> \<not> visiting (act th) \<and> \<not> list_ex is_visit (todo th)"

fun next_activity :: "progress \<Rightarrow> activity" where
  "next_activity (Done a) = Idle"
| "next_activity (Goes_On c) = c"

lemma activity_step_mutexes:
  assumes "activity_step XXH64 c draws ht = Inr (p, draws', ht')" and "\<not> visiting c"
  shows "snd (mutexes ht') = snd (mutexes ht) \<and>
    (if holds_stats (next_activity p) = holds_stats c then fst (mutexes ht') = fst (mutexes ht)
     else fst (mutexes ht') = holds_stats (next_activity p)) \<and>
    (holds_stats (next_activity p) \<and> \<not> holds_stats c \<longrightarrow> \<not> fst (mutexes ht))"
proof (cases c)
  case (Evicting ev)
  with assms show ?thesis
    by (auto simp: bind_result_eq_Inr stats_unlock_mutexes split: if_splits dest!: evict_fifo_mutexes evicted_section_mutexes)
next
  case (Drawing ev)
  with assms show ?thesis by (auto dest!: draw_section_mutexes)
qed (use assms in \<open>auto simp: heap_alloc_def bind_result_eq_Inr mutex_simps
      dest!: push_section_mutexes count_section_mutexes stats_lock_mutexes\<close>)

lemma start_section_visiting:
  assumes "start_section XXH64 x ht = Inr (p, ht')" and "\<not> is_visit x"
  shows "\<not> visiting (next_activity p)"
  using assms
  by (cases "(XXH64, x, ht)" rule: start_section.cases)
    (auto simp: open_section_def close_section_def remove_section_def create_section_def replace_section_def
      append_section_def read_section_def replied_def counting_def Let_def bind_result_eq_Inr split: option.splits if_splits)

lemma activity_step_visiting:
  assumes "activity_step XXH64 c draws ht = Inr (p, draws', ht')" and "\<not> visiting c"
  shows "\<not> visiting (next_activity p)"
proof (cases c)
  case (Evicting ev)
  with assms show ?thesis by (auto simp: bind_result_eq_Inr split: if_splits dest!: evicted_section_mutexes)
next
  case (Drawing ev)
  with assms show ?thesis by (auto dest!: draw_section_mutexes)
qed (use assms in \<open>auto simp: heap_alloc_def bind_result_eq_Inr\<close>)

subsection \<open>What a thread can wait for\<close>

lemma bind_result_eq_Inl: "bind_result m f = Inl e \<longleftrightarrow> m = Inl e \<or> (\<exists>x. m = Inr x \<and> f x = Inl e)"
  by (cases m) auto

definition buckets_free :: "HTable \<Rightarrow> bool" where
  "buckets_free ht \<longleftrightarrow> True \<notin> set (snd (snd (mutexes ht)))"

lemma lock_bucket_waits: "buckets_free ht \<Longrightarrow> lock_bucket i ht \<noteq> Inl Deadlock"
  by (auto simp: lock_bucket_def buckets_free_def mutexes_def)

lemma no_wait [simp]:
  "load_item a ht \<noteq> Inl Deadlock" "heap_load a h \<noteq> Inl Deadlock" "c_assert b \<noteq> Inl Deadlock"
  "deref q \<noteq> Inl Deadlock" "xrealloc blk sz \<noteq> Inl Deadlock" "find_item fuel hp q k \<noteq> Inl Deadlock"
  by (auto simp: load_item_def heap_load_def c_assert_def deref_def xrealloc_def split: option.splits)
    (induction fuel hp q k rule: find_item.induct; auto split: option.splits if_splits)

lemma fetch_item_waits: "buckets_free ht \<Longrightarrow> htable_fetch_item XXH64 ht k \<noteq> Inl Deadlock"
  by (auto simp: htable_fetch_item_def Let_def bind_result_eq_Inl lock_bucket_waits split: option.splits)

lemma updates_do_not_wait [simp]:
  "store_file a f ht \<noteq> Inl Deadlock" "unlink_item i a ht \<noteq> Inl Deadlock" "take_last i a ht \<noteq> Inl Deadlock"
  by (auto simp: store_file_def unlink_item_def take_last_def Let_def bind_result_eq_Inl split: option.splits)

lemma start_section_waits:
  assumes "buckets_free ht"
  shows "start_section XXH64 x ht \<noteq> Inl Deadlock"
  using fetch_item_waits [OF assms, of XXH64]
  by (cases "(XXH64, x, ht)" rule: start_section.cases)
    (auto simp: htable_lock_file_def htable_unlock_file_def open_section_def close_section_def remove_section_def
      create_section_def replace_section_def append_section_def read_section_def visit_section_def htable_fetch_file_def
      replied_def counting_def Let_def bind_result_eq_Inl split: option.splits if_splits list.splits)

lemma activity_step_waits:
  assumes "buckets_free ht" and "activity_step XXH64 c draws ht = Inl Deadlock" and "\<not> visiting c"
  shows "fst (mutexes ht) \<and> \<not> holds_stats c"
proof (cases c)
  case (Evicting ev)
  then show ?thesis
    using assms fetch_item_waits [of _ XXH64]
    by (auto simp: bind_result_eq_Inl htable_evict_single_file_fifo_def fifo_evict_def evicted_section_def Let_def
        buckets_free_def mutex_simps split: if_splits option.splits)
next
  case (Drawing ev)
  with assms show ?thesis
    by (auto simp: draw_section_def evicted_section_def bind_result_eq_Inl Let_def lock_bucket_waits split: if_splits list.splits option.splits)
qed (use assms in \<open>auto simp: heap_alloc_def bind_result_eq_Inl push_section_def count_section_def Let_def htable_stats_lock_def
      htable_fifo_add_def mutexes_def lock_bucket_waits split: if_splits option.splits stats_change.splits\<close>)


subsection \<open>Schedules\<close>

definition step_of_some_thread :: "hash_fn \<Rightarrow> Threads \<Rightarrow> Threads \<Rightarrow> bool" where
  "step_of_some_thread XXH64 s s' \<longleftrightarrow> (\<exists>t < length (threads s). thread_step XXH64 t s = Inr s')"

definition unfinished :: "Thread \<Rightarrow> bool" where
  "unfinished th \<longleftrightarrow> act th \<noteq> Idle \<or> todo th \<noteq> []"

lemma run_schedule_steps: "run_schedule XXH64 sched s = Inr s' \<Longrightarrow> (step_of_some_thread XXH64)\<^sup>*\<^sup>* s s'"
proof (induction sched arbitrary: s)
  case (Cons t sched)
  show ?case
  proof (cases "length (threads s) \<le> t \<or> thread_step XXH64 t s = Inl Deadlock")
    case True
    with Cons show ?thesis by (auto split: if_splits)
  next
    case False
    with Cons.prems obtain s1 where "thread_step XXH64 t s = Inr s1" "run_schedule XXH64 sched s1 = Inr s'"
      by (auto split: sum.splits if_splits)
    moreover from this False have "step_of_some_thread XXH64 s s1" by (auto simp: step_of_some_thread_def not_le)
    ultimately show ?thesis using Cons.IH by (meson converse_rtranclp_into_rtranclp)
  qed
qed simp

lemma act_settle: "act (settle p th) = next_activity p"
  by (cases p) (simp_all add: settle_def)

lemma todo_settle: "todo (settle p th) = todo th"
  by (cases p) (simp_all add: settle_def)

lemma thread_step_later:
  "act (threads s ! t) \<noteq> Idle \<Longrightarrow> thread_step XXH64 t s =
     bind_result (activity_step XXH64 (act (threads s ! t)) (rand_draws s) (shared s)) (\<lambda>(p, draws, ht).
       Inr \<lparr>threads = (threads s)[t := settle p (threads s ! t)], shared = ht, rand_draws = draws\<rparr>)"
  by (cases "act (threads s ! t)") (simp_all add: thread_step_def Let_def)

text \<open>What a step of a thread is: a first section or a later one.\<close>

lemma thread_step_cases:
  assumes "thread_step XXH64 t s = Inr s'"
  obtains (nothing) "s' = s" "act (threads s ! t) = Idle" "todo (threads s ! t) = []"
  | (first) x rest p ht where "act (threads s ! t) = Idle" "todo (threads s ! t) = x # rest"
      "start_section XXH64 x (shared s) = Inr (p, ht)"
      "s' = s\<lparr>threads := (threads s)[t := settle p ((threads s ! t)\<lparr>todo := rest\<rparr>)], shared := ht\<rparr>"
  | (later) p draws ht where "act (threads s ! t) \<noteq> Idle"
      "activity_step XXH64 (act (threads s ! t)) (rand_draws s) (shared s) = Inr (p, draws, ht)"
      "s' = \<lparr>threads = (threads s)[t := settle p (threads s ! t)], shared = ht, rand_draws = draws\<rparr>"
proof (cases "act (threads s ! t) = Idle")
  case True
  show thesis
  proof (cases "todo (threads s ! t)")
    case Nil
    with True assms have "s' = s" by (simp add: thread_step_def)
    then show thesis using True Nil by (rule nothing)
  next
    case (Cons x rest)
    with True assms obtain p ht where "start_section XXH64 x (shared s) = Inr (p, ht)"
      "s' = s\<lparr>threads := (threads s)[t := settle p ((threads s ! t)\<lparr>todo := rest\<rparr>)], shared := ht\<rparr>"
      by (auto simp: thread_step_def Let_def bind_result_eq_Inr)
    with True Cons show thesis by (rule first)
  qed
next
  case False
  with assms obtain p draws ht where
    "activity_step XXH64 (act (threads s ! t)) (rand_draws s) (shared s) = Inr (p, draws, ht)"
    "s' = \<lparr>threads = (threads s)[t := settle p (threads s ! t)], shared = ht, rand_draws = draws\<rparr>"
    by (auto simp: thread_step_later bind_result_eq_Inr)
  with False show thesis by (rule later)
qed

text \<open>
  Without visits, no bucket is locked between two steps, and the mutex of the statistics is held by
  exactly the one thread that is evicting.
\<close>

definition mutex_inv :: "Threads \<Rightarrow> bool" where
  "mutex_inv s \<longleftrightarrow>
     buckets_free (shared s) \<and> (\<forall>t < length (threads s). visits_nothing (threads s ! t)) \<and>
     (\<forall>t < length (threads s). holds_stats (act (threads s ! t)) \<longrightarrow> fst (mutexes (shared s))) \<and>
     (\<forall>t < length (threads s). \<forall>u < length (threads s).
        holds_stats (act (threads s ! t)) \<longrightarrow> holds_stats (act (threads s ! u)) \<longrightarrow> t = u) \<and>
     (fst (mutexes (shared s)) \<longrightarrow> (\<exists>t < length (threads s). holds_stats (act (threads s ! t))))"

lemma start_section_idle:
  assumes "start_section XXH64 x ht = Inr (p, ht')"
  shows "\<not> holds_stats (next_activity p)"
  using assms
  by (cases "(XXH64, x, ht)" rule: start_section.cases)
    (auto simp: open_section_def close_section_def remove_section_def create_section_def replace_section_def
      append_section_def read_section_def visit_section_def replied_def counting_def Let_def bind_result_eq_Inr
      split: option.splits if_splits)

lemma mutex_inv_update:
  assumes inv: "mutex_inv s" and t: "t < length (threads s)" and th: "threads s' = (threads s)[t := th]" "visits_nothing th"
    and "snd (mutexes (shared s')) = snd (mutexes (shared s))"
    and "if holds_stats (act th) = holds_stats (act (threads s ! t)) then fst (mutexes (shared s')) = fst (mutexes (shared s))
     else fst (mutexes (shared s')) = holds_stats (act th)"
    and "holds_stats (act th) \<and> \<not> holds_stats (act (threads s ! t)) \<longrightarrow> \<not> fst (mutexes (shared s))"
  shows "mutex_inv s'"
proof -
  have n: "length (threads s') = length (threads s)" by (simp add: th)
  have quiet: "visits_nothing (threads s' ! u)" if "u < length (threads s)" for u
    using that inv th t by (auto simp: nth_list_update mutex_inv_def)
  have "act (threads s' ! u) = (if u = t then act th else act (threads s ! u))" if "u < length (threads s)" for u
    using that t by (simp add: th(1) nth_list_update)
  then have acts: "holds_stats (act (threads s' ! u)) = (if u = t then holds_stats (act th) else holds_stats (act (threads s ! u)))"
    if "u < length (threads s)" for u using that by simp
  show ?thesis
  proof (cases "holds_stats (act th) = holds_stats (act (threads s ! t))")
    case True
    then have "holds_stats (act (threads s' ! u)) = holds_stats (act (threads s ! u))" if "u < length (threads s)" for u
      using acts [OF that] by simp
    with assms(1,5,6) True n quiet show ?thesis by (simp add: mutex_inv_def buckets_free_def cong: conj_cong)
  next
    case False
    then have others: "\<not> holds_stats (act (threads s ! u))" if "u < length (threads s)" "u \<noteq> t" for u
      using inv t that assms(7) unfolding mutex_inv_def by blast
    have "holds_stats (act (threads s' ! u)) = (u = t \<and> holds_stats (act th))" if "u < length (threads s)" for u
      using acts [OF that] others [OF that] by simp
    with assms(1,5,6) False n t quiet show ?thesis by (auto simp: mutex_inv_def buckets_free_def)
  qed
qed

lemma mutex_inv_step:
  assumes "step_of_some_thread XXH64 s s'" and inv: "mutex_inv s"
  shows "mutex_inv s'"
proof -
  obtain t where t: "t < length (threads s)" and step: "thread_step XXH64 t s = Inr s'"
    using assms(1) by (auto simp: step_of_some_thread_def)
  have quiet: "visits_nothing (threads s ! t)" using inv t by (simp add: mutex_inv_def)
  show ?thesis
    using step
  proof (cases rule: thread_step_cases)
    case nothing
    with inv show ?thesis by simp
  next
    case (first x rest p ht)
    then have "visits_nothing (settle p ((threads s ! t)\<lparr>todo := rest\<rparr>))"
      using quiet start_section_visiting [OF first(3)] by (simp add: visits_nothing_def act_settle todo_settle)
    with first start_section_mutexes [OF first(3)] start_section_idle [OF first(3)] show ?thesis
      by (intro mutex_inv_update [OF inv t]) (auto simp: act_settle)
  next
    case (later p draws ht)
    have v: "\<not> visiting (act (threads s ! t))" using quiet by (simp add: visits_nothing_def)
    then have "visits_nothing (settle p (threads s ! t))"
      using quiet activity_step_visiting [OF later(2)] by (simp add: visits_nothing_def act_settle todo_settle)
    with later activity_step_mutexes [OF later(2) v] show ?thesis
      by (intro mutex_inv_update [OF inv t]) (auto simp: act_settle)
  qed
qed

lemma mutex_inv_start:
  assumes "htable_inv XXH64 ht" and "\<forall>xs \<in> set progs. \<not> list_ex is_visit xs"
  shows "mutex_inv (start_threads progs draws ht)"
  using assms
  by (auto simp: mutex_inv_def visits_nothing_def start_threads_def buckets_free_def mutexes_def htable_inv_def htable_core_def htable_unlocked_def)

interpretation table_threads: step_invariant
    "\<lambda>s. \<exists>progs draws ht. htable_inv XXH64 ht \<and> (\<forall>xs \<in> set progs. \<not> list_ex is_visit xs) \<and> s = start_threads progs draws ht"
    "step_of_some_thread XXH64" mutex_inv
  for XXH64
  by unfold_locales (use mutex_inv_start mutex_inv_step in blast)+

lemma thread_step_waits:
  assumes "mutex_inv s" and t: "t < length (threads s)" and "thread_step XXH64 t s = Inl Deadlock"
  shows "fst (mutexes (shared s)) \<and> \<not> holds_stats (act (threads s ! t))"
proof (cases "act (threads s ! t) = Idle")
  case True
  with assms start_section_waits show ?thesis
    by (cases "todo (threads s ! t)") (auto simp: thread_step_def mutex_inv_def bind_result_eq_Inl)
next
  case False
  with assms have "activity_step XXH64 (act (threads s ! t)) (rand_draws s) (shared s) = Inl Deadlock"
    by (auto simp: thread_step_later bind_result_eq_Inl)
  moreover have "\<not> visiting (act (threads s ! t))" using assms(1) t by (simp add: mutex_inv_def visits_nothing_def)
  ultimately show ?thesis using assms(1) activity_step_waits by (auto simp: mutex_inv_def)
qed

subsection \<open>A bucket that stays locked\<close>

definition bucket_locked :: "nat \<Rightarrow> HTable \<Rightarrow> bool" where
  "bucket_locked i ht \<longleftrightarrow> i < length (buckets ht) \<and> guard (buckets ht ! i)"

text \<open>A visitor that holds bucket \<open>i\<close>, and the path that a request begins with.\<close>

fun visits_bucket :: "nat \<Rightarrow> activity \<Rightarrow> bool" where
  "visits_bucket i (Visiting v fs) \<longleftrightarrow> bucket_i v = i"
| "visits_bucket i _ \<longleftrightarrow> False"

fun op_path :: "table_op \<Rightarrow> cstring option" where
  "op_path (Meta (Lock k fd)) = Some k"
| "op_path (Meta (Unlock k fd)) = Some k"
| "op_path (Meta (Open k fd l)) = Some k"
| "op_path (Meta (Create k fd l)) = Some k"
| "op_path (Meta (Close k fd)) = Some k"
| "op_path (Meta (Remove k fd)) = Some k"
| "op_path (Read k) = Some k"
| "op_path (Replace k data) = Some k"
| "op_path (Append k data) = Some k"
| "op_path (Visit n) = None"

lemma bucket_locked_mutexes:
  "bucket_locked i ht \<longleftrightarrow> i < length (snd (snd (mutexes ht))) \<and> snd (snd (mutexes ht)) ! i"
  by (auto simp: bucket_locked_def mutexes_def)

lemma locked_bucket_fetch:
  "bucket_locked (htable_bucket_ptr XXH64 ht k) ht \<Longrightarrow> htable_fetch_item XXH64 ht k = Inl Deadlock"
  by (simp add: bucket_locked_def htable_fetch_item_def lock_bucket_def)

lemma locked_bucket_start:
  assumes "bucket_locked (htable_bucket_ptr XXH64 ht k) ht" and "op_path x = Some k"
  shows "start_section XXH64 x ht = Inl Deadlock"
  using locked_bucket_fetch [OF assms(1)] assms(2)
  by (cases "(XXH64, x, ht)" rule: start_section.cases)
    (auto simp: htable_lock_file_def htable_unlock_file_def open_section_def close_section_def remove_section_def
      create_section_def replace_section_def append_section_def read_section_def htable_fetch_file_def)

lemma locked_bucket_others:
  "bucket_locked i ht \<Longrightarrow> lock_bucket j ht = Inr ht' \<Longrightarrow> j \<noteq> i \<and> bucket_locked i ht' \<and> buckets_count ht' = buckets_count ht"
  by (auto simp: bucket_locked_def lock_bucket_def nth_list_update split: if_splits)

lemma unlock_other_bucket:
  "j \<noteq> i \<Longrightarrow> bucket_locked i (unlock_bucket j ht) = bucket_locked i ht"
  "buckets_count (unlock_bucket j ht) = buckets_count ht"
  by (simp_all add: bucket_locked_def unlock_bucket_def)

lemma visit_leaves_others:
  assumes "visit_leaves v fs ht = Inr (p, ht')" and "bucket_locked i ht" and "bucket_i v \<noteq> i"
  shows "bucket_locked i ht' \<and> buckets_count ht' = buckets_count ht \<and> \<not> visits_bucket i (next_activity p)"
  using assms by (auto simp: visit_leaves_def Let_def unlock_other_bucket split: if_splits)

lemma visit_returns_others:
  assumes "visit_returns v fs ht = Inr (p, ht')" and "bucket_locked i ht" and "bucket_i v \<noteq> i"
  shows "bucket_locked i ht' \<and> buckets_count ht' = buckets_count ht \<and> \<not> visits_bucket i (next_activity p)"
  using assms by (auto simp: visit_returns_def bind_result_eq_Inr split: option.splits)

lemma next_section_cases:
  assumes "next_section v fs ht = Inr (p, ht')"
  obtains (limit) "p = Done (Visited fs)" "ht' = unlock_bucket (bucket_i v) ht"
  | (leaves) "visit_leaves v fs ht = Inr (p, ht')"
  | (returns) it :: HTableItem where "visit_returns (v\<lparr>visits := visits v + 1, next_visit := next_item it\<rparr>) fs ht = Inr (p, ht')"
proof (cases "max_visits v \<le> visits v \<and> max_visits v \<noteq> 0")
  case True
  with assms limit show thesis by (simp add: next_section_def)
next
  case False
  show thesis
  proof (cases "next_visit v")
    case None
    with False assms show thesis by (intro leaves) (simp only: next_section_def if_False option.case)
  next
    case (Some a)
    with False assms obtain it :: HTableItem where "visit_returns (v\<lparr>visits := visits v + 1, next_visit := next_item it\<rparr>) fs ht = Inr (p, ht')"
      by (simp only: next_section_def if_False option.case bind_result_eq_Inr) blast
    then show thesis by (rule returns)
  qed
qed

text \<open>No section unlocks a bucket that its thread did not lock.\<close>

lemma same_mutexes:
  assumes "snd (mutexes ht') = snd (mutexes ht)"
  shows "bucket_locked i ht' = bucket_locked i ht" and "buckets_count ht' = buckets_count ht"
    and "htable_bucket_ptr XXH64 ht' k = htable_bucket_ptr XXH64 ht k"
  using assms by (simp_all add: bucket_locked_mutexes bucket_ptr_mutexes bucket_of_def) (simp add: mutexes_def)

lemma start_section_others:
  assumes "start_section XXH64 x ht = Inr (p, ht')"
  shows "bucket_locked i ht' = bucket_locked i ht \<and> buckets_count ht' = buckets_count ht \<and> \<not> visits_bucket i (next_activity p)"
proof -
  have "\<not> visits_bucket i (next_activity p)"
    using assms start_section_visiting [OF assms]
    by (cases x; cases "next_activity p") (auto simp: visit_section_def split: if_splits)
  with same_mutexes [of ht' ht] start_section_mutexes [OF assms] show ?thesis by simp
qed

lemma activity_step_others:
  assumes "activity_step XXH64 c draws ht = Inr (p, draws', ht')" and "bucket_locked i ht" and "\<not> visits_bucket i c"
  shows "bucket_locked i ht' \<and> buckets_count ht' = buckets_count ht \<and> \<not> visits_bucket i (next_activity p)"
proof (cases "visiting c")
  case False
  have "\<not> visits_bucket i (next_activity p)"
    using activity_step_visiting [OF assms(1) False] by (cases "next_activity p") simp_all
  with same_mutexes [of ht' ht] activity_step_mutexes [OF assms(1) False] assms(2) show ?thesis by simp
next
  case True
  then show ?thesis
  proof (cases c)
    case (Visit_Starts n q)
    with assms show ?thesis
      by (auto simp: bind_result_eq_Inr dest!: locked_bucket_others [OF assms(2)])
  next
    case (Visit_Skips v fs)
    with assms(1) obtain ht1 where "lock_bucket (bucket_i v) ht = Inr ht1"
      and "visit_leaves (v\<lparr>next_visit := head (buckets ht1 ! bucket_i v)\<rparr>) fs ht1 = Inr (p, ht') \<or>
        visit_returns (v\<lparr>next_visit := head (buckets ht1 ! bucket_i v), visits := visits v + 1\<rparr>) fs ht1 = Inr (p, ht')"
      by (auto simp: skip_section_def Let_def bind_result_eq_Inr split: if_splits)
    with locked_bucket_others [OF assms(2), of "bucket_i v" ht1]
      visit_leaves_others [of "v\<lparr>next_visit := head (buckets ht1 ! bucket_i v)\<rparr>" fs ht1 p ht' i]
      visit_returns_others [of "v\<lparr>next_visit := head (buckets ht1 ! bucket_i v), visits := visits v + 1\<rparr>" fs ht1 p ht' i]
    show ?thesis by auto
  next
    case (Visiting v fs)
    then have v: "bucket_i v \<noteq> i" using assms(3) by simp
    from Visiting assms(1) have "next_section v fs ht = Inr (p, ht')" by (simp add: bind_result_eq_Inr)
    then consider (limit) "p = Done (Visited fs)" "ht' = unlock_bucket (bucket_i v) ht"
      | (leaves) "visit_leaves v fs ht = Inr (p, ht')"
      | (returns) it :: HTableItem where "visit_returns (v\<lparr>visits := visits v + 1, next_visit := next_item it\<rparr>) fs ht = Inr (p, ht')"
      by (rule next_section_cases)
    then show ?thesis
    proof cases
      case limit
      with assms(2) v show ?thesis by (simp add: unlock_other_bucket)
    next
      case leaves
      from visit_leaves_others [OF this assms(2) v] show ?thesis .
    next
      case (returns it)
      from visit_returns_others [OF this assms(2)] v show ?thesis by simp
    qed
  qed simp_all
qed

text \<open>Bucket \<open>i\<close> is locked and no thread will unlock it.\<close>

definition locked_out :: "nat \<Rightarrow> Threads \<Rightarrow> bool" where
  "locked_out i s \<longleftrightarrow> bucket_locked i (shared s) \<and> (\<forall>th \<in> set (threads s). \<not> visits_bucket i (act th))"

lemma locked_out_step:
  assumes "locked_out i s" and "t < length (threads s)" and step: "thread_step XXH64 t s = Inr s'"
  shows "locked_out i s' \<and> buckets_count (shared s') = buckets_count (shared s) \<and>
    (\<exists>th. threads s' = (threads s)[t := th])"
proof -
  have upd: "\<forall>th' \<in> set ((threads s)[t := th]). \<not> visits_bucket i (act th')" if "\<not> visits_bucket i (act th)" for th
    using that assms(1) set_update_subset_insert [of "threads s" t th] by (auto simp: locked_out_def)
  show ?thesis
    using step
  proof (cases rule: thread_step_cases)
    case nothing
    with assms(1) show ?thesis by (metis list_update_id)
  next
    case (first x rest p ht)
    with start_section_others [OF first(3), of i] assms(1) upd [of "settle p ((threads s ! t)\<lparr>todo := rest\<rparr>)"] show ?thesis by (auto simp: locked_out_def act_settle)
  next
    case (later p draws ht)
    have "\<not> visits_bucket i (act (threads s ! t))" "bucket_locked i (shared s)"
      using assms(1,2) by (simp_all add: locked_out_def)
    with later activity_step_others [OF later(2), of i] upd [of "settle p (threads s ! t)"] show ?thesis by (auto simp: locked_out_def act_settle)
  qed
qed

lemma locked_out_thread:
  assumes "locked_out (htable_bucket_ptr XXH64 (shared s) k) s" and "act (threads s ! t) = Idle"
    and "todo (threads s ! t) = x # rest" and "op_path x = Some k"
  shows "thread_step XXH64 t s = Inl Deadlock"
  using assms locked_bucket_start [of XXH64 "shared s" k x] by (simp add: thread_step_def locked_out_def)

lemma locked_out_for_ever:
  assumes "run_schedule XXH64 sched s = Inr s'" and "locked_out i s" and "htable_bucket_ptr XXH64 (shared s) k = i"
    and "act (threads s ! t) = Idle" and "todo (threads s ! t) = x # rest" and "op_path x = Some k"
  shows "threads s' ! t = threads s ! t \<and> locked_out i s'"
  using assms(1-5)
proof (induction sched arbitrary: s)
  case (Cons u sched)
  show ?case
  proof (cases "length (threads s) \<le> u \<or> thread_step XXH64 u s = Inl Deadlock")
    case True
    with Cons show ?thesis by (auto split: if_splits)
  next
    case False
    then have u: "u < length (threads s)" by simp
    from False Cons.prems(1) obtain s1 where s1: "thread_step XXH64 u s = Inr s1" "run_schedule XXH64 sched s1 = Inr s'"
      by (auto split: sum.splits if_splits)
    note keep = locked_out_step [OF Cons.prems(2) u s1(1)]
    have "u \<noteq> t"
      using locked_out_thread [OF _ Cons.prems(4,5) assms(6)] Cons.prems(2,3) s1(1) by auto
    then have "threads s1 ! t = threads s ! t" using keep by auto
    moreover have "htable_bucket_ptr XXH64 (shared s1) k = i" using keep Cons.prems(3) by (simp add: htable_bucket_ptr_def)
    ultimately show ?thesis using Cons.IH [OF s1(2)] keep Cons.prems(4,5) by simp
  qed
qed simp

text \<open>A thread that runs alone, as a schedule.\<close>

lemma not_idle_alone: "run_alone n XXH64 (Goes_On Idle) draws ht \<noteq> Inr y"
  by (induction n) simp_all

lemma alone_schedule:
  assumes "run_alone n XXH64 (Goes_On (act (threads s ! t))) (rand_draws s) (shared s) = Inr (a, draws, ht)"
    and "t < length (threads s)"
  shows "\<exists>m. run_schedule XXH64 (replicate m t) s = Inr
    \<lparr>threads = (threads s)[t := (threads s ! t)\<lparr>act := Idle, answers := answers (threads s ! t) @ [a]\<rparr>], shared = ht, rand_draws = draws\<rparr>"
  using assms
proof (induction n arbitrary: s)
  case (Suc n)
  have busy: "act (threads s ! t) \<noteq> Idle" using Suc.prems(1) not_idle_alone by metis
  obtain p draws1 ht1 where one: "activity_step XXH64 (act (threads s ! t)) (rand_draws s) (shared s) = Inr (p, draws1, ht1)"
    "run_alone n XXH64 p draws1 ht1 = Inr (a, draws, ht)"
    using Suc.prems(1) by (auto simp: bind_result_eq_Inr)
  let ?s1 = "\<lparr>threads = (threads s)[t := settle p (threads s ! t)], shared = ht1, rand_draws = draws1\<rparr>"
  have step: "thread_step XXH64 t s = Inr ?s1" using busy one(1) by (simp add: thread_step_later)
  show ?case
  proof (cases p)
    case (Done b)
    with one(2) step Suc.prems(2) show ?thesis by (intro exI [of _ "Suc 0"]) (simp add: settle_def not_le)
  next
    case (Goes_On c)
    with one(2) Suc.prems(2) have "run_alone n XXH64 (Goes_On (act (threads ?s1 ! t))) (rand_draws ?s1) (shared ?s1) = Inr (a, draws, ht)"
      by (simp add: settle_def)
    from Suc.IH [OF this] Suc.prems(2) obtain m where "run_schedule XXH64 (replicate m t) ?s1 = Inr
        \<lparr>threads = (threads s)[t := (settle p (threads s ! t))\<lparr>act := Idle, answers := answers (settle p (threads s ! t)) @ [a]\<rparr>],
         shared = ht, rand_draws = draws\<rparr>" by auto
    with step Suc.prems(2) Goes_On show ?thesis by (intro exI [of _ "Suc m"]) (simp add: settle_def not_le)
  qed
qed simp

lemma op_schedule:
  assumes "run_op n XXH64 x (rand_draws s) (shared s) = Inr (a, draws, ht)" and "t < length (threads s)"
    and "act (threads s ! t) = Idle" and "todo (threads s ! t) = x # rest"
  shows "\<exists>m. run_schedule XXH64 (replicate m t) s = Inr
    \<lparr>threads = (threads s)[t := (threads s ! t)\<lparr>todo := rest, act := Idle, answers := answers (threads s ! t) @ [a]\<rparr>], shared = ht, rand_draws = draws\<rparr>"
proof -
  obtain p ht1 where p: "start_section XXH64 x (shared s) = Inr (p, ht1)" "run_alone n XXH64 p (rand_draws s) ht1 = Inr (a, draws, ht)"
    using assms(1) by (auto simp: run_op_def bind_result_eq_Inr)
  let ?th = "settle p ((threads s ! t)\<lparr>todo := rest\<rparr>)"
  let ?s1 = "s\<lparr>threads := (threads s)[t := ?th], shared := ht1\<rparr>"
  have step: "thread_step XXH64 t s = Inr ?s1" using assms(3,4) p(1) by (simp add: thread_step_def)
  show ?thesis
  proof (cases p)
    case (Done b)
    with p(2) step assms(2,3) show ?thesis by (intro exI [of _ "Suc 0"]) (simp add: settle_def not_le)
  next
    case (Goes_On c)
    with p(2) assms(2) have "run_alone n XXH64 (Goes_On (act (threads ?s1 ! t))) (rand_draws ?s1) (shared ?s1) = Inr (a, draws, ht)"
      by (simp add: settle_def)
    from alone_schedule [OF this] assms(2) obtain m where "run_schedule XXH64 (replicate m t) ?s1 = Inr
        \<lparr>threads = (threads s)[t := ?th\<lparr>act := Idle, answers := answers ?th @ [a]\<rparr>], shared = ht, rand_draws = draws\<rparr>" by auto
    with step assms(2) Goes_On show ?thesis by (intro exI [of _ "Suc m"]) (simp add: settle_def not_le)
  qed
qed

subsection \<open>Properties\<close>

text \<open>
  The steps of this theory are the code of the operations of \<open>HTable\<close>: a thread that is not interrupted
  replies and leaves the table as they do, for every request on metadata; for every write, whose
  eviction is a run of steps that holds the mutex of the statistics; and for a complete visit.
\<close>

lemma steps_are_operations:
  "run_op 3 XXH64 (Meta x) draws ht = bind_result (htable_exec XXH64 x ht) (\<lambda>(r, ht). Inr (Answer r, draws, ht)) \<and>
   (case htable_replace_file_contents XXH64 draws ht k data of
      Inl e \<Rightarrow> True
    | Inr (e, ev, draws', ht') \<Rightarrow> \<exists>n. run_op n XXH64 (Replace k data) draws ht = Inr (Evicted e ev, draws', ht')) \<and>
   (case htable_append_to_file_contents XXH64 draws ht k data of
      Inl e \<Rightarrow> True
    | Inr (e, ev, draws', ht') \<Rightarrow> \<exists>n. run_op n XXH64 (Append k data) draws ht = Inr (Evicted e ev, draws', ht')) \<and>
   (case print_summary ht of
      Inl e \<Rightarrow> True
    | Inr (st, fs, ht') \<Rightarrow> \<exists>n. run_op n XXH64 (Visit 0) draws ht = Inr (Visited fs, draws, ht'))"
  using run_op_meta run_op_replace run_op_append run_op_summary by (auto split: sum.split)

text \<open>
  C10: No schedule of requests other than visits ends in a deadlock. Whatever lock, unlock, open, create, close,
  remove, read, replace and append requests the threads make, evictions included, and however they are
  interleaved, as long as no step faults: between two steps no bucket is locked, at most
  one thread is evicting, it is the one that holds the mutex of the statistics, and when some thread
  is not finished there is one that does not wait for a mutex. Visits are left out because they break
  this (\<open>visit_locks_clients_out\<close>); a step that faults, in the assertions and NULL pointers of other
  theorems, or that has no more random draws, ends the run and is not excluded here.
\<close>

theorem no_schedule_deadlocks:
  assumes "htable_inv XXH64 ht" and "\<forall>xs \<in> set progs. \<not> list_ex is_visit xs"
    and "run_schedule XXH64 sched (start_threads progs draws ht) = Inr s"
  shows "True \<notin> set (map guard (buckets (shared s))) \<and>
    stats_guard (shared s) = (\<exists>t < length (threads s). holds_stats (act (threads s ! t))) \<and>
    (list_ex unfinished (threads s) \<longrightarrow>
      (\<exists>t < length (threads s). unfinished (threads s ! t) \<and> thread_step XXH64 t s \<noteq> Inl Deadlock))"
proof -
  have inv: "mutex_inv s"
    using table_threads.reachable_inv [OF _ run_schedule_steps [OF assms(3)]] assms(1,2) by blast
  then have f: "True \<notin> set (map guard (buckets (shared s)))"
    by (simp add: mutex_inv_def buckets_free_def mutexes_def)
  have g: "stats_guard (shared s) = (\<exists>t < length (threads s). holds_stats (act (threads s ! t)))"
    using inv by (auto simp: mutex_inv_def mutexes_def)
  have "\<exists>t < length (threads s). unfinished (threads s ! t) \<and> thread_step XXH64 t s \<noteq> Inl Deadlock"
    if t: "t < length (threads s)" "unfinished (threads s ! t)" for t
  proof (cases "stats_guard (shared s)")
    case True
    then obtain u where u: "u < length (threads s)" "holds_stats (act (threads s ! u))" using g by blast
    then have "unfinished (threads s ! u)" by (auto simp: unfinished_def)
    with u thread_step_waits [OF inv u(1), of XXH64] show ?thesis by blast
  next
    case False
    with t thread_step_waits [OF inv t(1), of XXH64] show ?thesis by (auto simp: mutexes_def)
  qed
  with f g show ?thesis by (auto simp: list_ex_length)
qed

theorem no_schedule_deadlocks_witness:
  "\<exists>ht s. sample_table CACHE_EVICTION_POLICY_FIFO [] = Inr ([], ht) \<and>
     run_schedule (\<lambda>_. 0) [0, 1, 0] (start_threads [[Meta (Create [97] 3 False), Read [97]], [Meta (Create [98] 4 False)]] [] ht) = Inr s \<and>
     True \<notin> set (map guard (buckets (shared s))) \<and> list_ex unfinished (threads s)"
proof -
  obtain ht where ht: "sample_table CACHE_EVICTION_POLICY_FIFO [] = Inr ([], ht)" "htable_inv (\<lambda>_. 0) ht"
    using sample_run [of "[]" "[]" Map.empty CACHE_EVICTION_POLICY_FIFO] by auto
  let ?start = "start_threads [[Meta (Create [97] 3 False), Read [97]], [Meta (Create [98] 4 False)]] []"
  have "case sample_table CACHE_EVICTION_POLICY_FIFO [] of Inl _ \<Rightarrow> False
    | Inr (rs, ht) \<Rightarrow>
      (case run_schedule (\<lambda>_. 0) [0, 1, 0] (?start ht) of Inl _ \<Rightarrow> False | Inr s \<Rightarrow> list_ex unfinished (threads s))"
    by code_simp
  then have "case run_schedule (\<lambda>_. 0) [0, 1, 0] (?start ht) of Inl _ \<Rightarrow> False | Inr s \<Rightarrow> list_ex unfinished (threads s)"
    by (simp only: ht(1) sum.case prod.case)
  then obtain s where s: "run_schedule (\<lambda>_. 0) [0, 1, 0] (?start ht) = Inr s" "list_ex unfinished (threads s)"
    by (cases "run_schedule (\<lambda>_. 0) [0, 1, 0] (?start ht)") (simp_all only: sum.case)
  with ht(1) conjunct1 [OF no_schedule_deadlocks [OF ht(2) _ s(1)]] show ?thesis by simp
qed

text \<open>
  C11: A visit locks the clients of a bucket out for ever. When a thread alone visits all files of a
  table that is not empty, as \<open>readNFiles\<close> with 0 does, it is answered, but there is a stored file such that
  from then on, under every schedule and whatever the other threads do, visits included, the bucket of the
  file stays locked, and a thread whose next request is for that file is never answered.
\<close>

theorem visit_locks_clients_out:
  assumes "htable_inv XXH64 ht" and "htable_lookup XXH64 ht k0 = Some f0"
  shows "\<exists>m s fs k f. run_schedule XXH64 (replicate m 0) (start_threads ([Visit 0] # progs) draws ht) = Inr s \<and>
    answers (threads s ! 0) = [Visited fs] \<and> htable_lookup XXH64 ht k = Some f \<and>
    (\<forall>sched s' t x rest. run_schedule XXH64 sched s = Inr s' \<and> t < length progs \<and> progs ! t = x # rest \<and> op_path x = Some k \<longrightarrow>
       guard (buckets (shared s') ! htable_bucket_ptr XXH64 ht k) \<and> answers (threads s' ! Suc t) = [] \<and> todo (threads s' ! Suc t) = progs ! t)"
proof -
  obtain ass where rep: "htable_rep XXH64 ht ass" using core_rep [OF inv_core [OF assms(1)]] by blast
  obtain i where i: "i < length ass" "ass ! i \<noteq> []" "print_summary ht =
      Inr (stats ht, seg_files ht (if i = 0 then tl (ass ! 0) else ass ! i), lockb i ht)"
    using nonempty_visit [OF rep core_unlocked [OF inv_core [OF assms(1)]] assms(2)] by blast
  let ?fs = "seg_files ht (if i = 0 then tl (ass ! 0) else ass ! i)"
  obtain k f where kf: "htable_lookup XXH64 ht k = Some f" "htable_bucket_ptr XXH64 ht k = i"
    using bucket_has_file [OF rep i(1,2)] by blast
  let ?start = "start_threads ([Visit 0] # progs) draws ht"
  obtain n where "run_op n XXH64 (Visit 0) draws ht = Inr (Visited ?fs, draws, lockb i ht)"
    using run_op_summary [OF i(3)] by blast
  then obtain m where m: "run_schedule XXH64 (replicate m 0) ?start = Inr
      \<lparr>threads = (threads ?start)[0 := (threads ?start ! 0)\<lparr>todo := [], act := Idle, answers := answers (threads ?start ! 0) @ [Visited ?fs]\<rparr>],
       shared = lockb i ht, rand_draws = draws\<rparr>"
    using op_schedule [of n XXH64 "Visit 0" ?start "Visited ?fs" draws "lockb i ht" 0 "[]"] by (auto simp: start_threads_def)
  define s where "s = \<lparr>threads = (threads ?start)[0 := (threads ?start ! 0)\<lparr>todo := [], act := Idle, answers := answers (threads ?start ! 0) @ [Visited ?fs]\<rparr>],
       shared = lockb i ht, rand_draws = draws\<rparr>"
  have out: "locked_out i s"
    using rep i(1) by (auto simp: locked_out_def s_def start_threads_def bucket_locked_def lockb_def htable_rep_def)
  have ptr: "htable_bucket_ptr XXH64 (shared s) k = i" using kf(2) by (simp add: s_def htable_bucket_ptr_def lockb_def)
  have "guard (buckets (shared s') ! i) \<and> threads s' ! Suc t = \<lparr>todo = progs ! t, act = Idle, answers = []\<rparr>"
    if r: "run_schedule XXH64 sched s = Inr s'" "t < length progs" "progs ! t = x # rest" "op_path x = Some k" for sched s' t x rest
    using locked_out_for_ever [OF r(1) out ptr, of "Suc t" x rest] r(2-4)
    by (simp add: s_def start_threads_def locked_out_def bucket_locked_def)
  with m kf show ?thesis
    by (intro exI [of _ m] exI [of _ s] exI [of _ ?fs] exI [of _ k] exI [of _ f]) (auto simp: s_def start_threads_def)
qed

theorem visit_locks_clients_out_witness:
  "\<exists>rs ht m s. sample_table CACHE_EVICTION_POLICY_FIFO [Create [97] 3 True] = Inr (rs, ht) \<and>
     run_schedule (\<lambda>_. 0) (replicate m 0) (start_threads [[Visit 0], [Read [97]]] [] ht) = Inr s \<and>
     (\<forall>sched s'. run_schedule (\<lambda>_. 0) sched s = Inr s' \<longrightarrow> answers (threads s' ! 1) = [])"
proof -
  obtain ht where ht: "sample_table CACHE_EVICTION_POLICY_FIFO [Create [97] 3 True] = Inr ([Reply HTABLE_ERR_OK (-1)], ht)"
    "htable_inv (\<lambda>_. 0) ht" "htable_lookup (\<lambda>_. 0) ht = [[97] \<mapsto> new_file [97] 3 True]"
    by (rule sample_created)
  have "htable_lookup (\<lambda>_. 0) ht [97] = Some (new_file [97] 3 True)" by (simp add: ht(3))
  from visit_locks_clients_out [OF ht(2) this, of "[[Read [97]]]" "[]"] ht(1,3) show ?thesis
    by (fastforce split: if_splits)
qed

end
