(* ===== verification/HTable_Linear.thy ===== *)
theory HTable_Linear
  imports HTable_Threads
begin

text \<open>
  Requests on metadata by many threads at once are linearizable: whatever the schedule, there
  is an order of the requests in which the plain map of \<open>Storage_Spec\<close> gives the same replies
  and ends in the same files.
\<close>

subsection \<open>Sections do not touch the statistics\<close>

abbreviation at_stats :: "HTableStats \<Rightarrow> HTable \<Rightarrow> HTable" where
  "at_stats s ht \<equiv> ht\<lparr>stats := s\<rparr>"

lemma lock_bucket_stats:
  "lock_bucket i (at_stats s ht) = bind_result (lock_bucket i ht) (\<lambda>ht. Inr (at_stats s ht))"
  by (simp add: lock_bucket_def)

lemma unlock_bucket_stats: "unlock_bucket i (at_stats s ht) = at_stats s (unlock_bucket i ht)"
  by (simp add: unlock_bucket_def)

lemma release_stats: "htable_release_file XXH64 (at_stats s ht) k = at_stats s (htable_release_file XXH64 ht k)"
  by (simp add: htable_release_file_def unlock_bucket_stats)

lemma load_item_stats: "load_item a (at_stats s ht) = load_item a ht"
  by (simp add: load_item_def)

lemma store_item_stats: "store_item a it (at_stats s ht) = at_stats s (store_item a it ht)"
  by (simp add: store_item_def)

lemma store_file_stats:
  "store_file a f (at_stats s ht) = bind_result (store_file a f ht) (\<lambda>ht. Inr (at_stats s ht))"
  by (simp add: store_file_def load_item_stats store_item_stats bind_result_assoc)

lemma free_item_at_stats: "free_item a (at_stats s ht) = at_stats s (free_item a ht)"
  by (simp add: free_item_def)

lemma fetch_item_stats:
  "htable_fetch_item XXH64 (at_stats s ht) k = bind_result (htable_fetch_item XXH64 ht k) (\<lambda>(p, ht). Inr (p, at_stats s ht))"
  by (auto simp: htable_fetch_item_def lock_bucket_stats unlock_bucket_stats bind_result_assoc Let_def
      intro!: bind_result_eqI split: option.splits)

lemma unlink_item_stats:
  "unlink_item i a (at_stats s ht) = bind_result (unlink_item i a ht) (\<lambda>ht. Inr (at_stats s ht))"
  by (auto simp: unlink_item_def load_item_def store_item_def bind_result_assoc
      intro!: bind_result_eqI split: option.splits)

lemmas section_stats = fetch_item_stats htable_fetch_file_def load_item_stats store_file_stats release_stats
  unlink_item_stats free_item_at_stats

lemma start_section_stats:
  "start_section XXH64 (Meta x) (at_stats s ht) =
     bind_result (start_section XXH64 (Meta x) ht) (\<lambda>(p, ht). Inr (p, at_stats s ht))"
  by (cases x)
    (auto simp: htable_lock_file_def htable_unlock_file_def open_section_def close_section_def remove_section_def
      create_section_def section_stats bind_result_assoc replied_def counting_def Let_def
      intro!: bind_result_eqI split: option.splits list.splits)


lemma start_section_stats_same:
  assumes "start_section XXH64 (Meta x) ht = Inr (p, ht')"
  shows "stats ht' = stats ht"
proof -
  have "Inr (p, ht') = (Inr (p, at_stats (stats ht) ht') :: (progress \<times> HTable) result)"
    using start_section_stats [of XXH64 x "stats ht" ht] assms by simp
  then have "ht' = at_stats (stats ht) ht'" by simp
  then have "stats ht' = stats (at_stats (stats ht) ht')" by (rule arg_cong)
  then show ?thesis by simp
qed

subsection \<open>Changes of the statistics commute\<close>

fun simple_change :: "stats_change \<Rightarrow> bool" where
  "simple_change Count_Open = True"
| "simple_change Count_Close = True"
| "simple_change (Count_Remove sz) = True"
| "simple_change _ = False"

lemma count_stats_commute:
  "simple_change c \<Longrightarrow> simple_change d \<Longrightarrow> count_stats c (count_stats d s) = count_stats d (count_stats c s)"
  by (cases c; cases d) (simp_all add: algebra_simps)

lemma fold_count_commute:
  assumes "simple_change c" and "\<forall>d \<in> set cs. simple_change d"
  shows "fold count_stats cs (count_stats c s) = count_stats c (fold count_stats cs s)"
  using assms(2) by (induction cs arbitrary: s) (simp_all add: count_stats_commute [OF _ assms(1)])

lemma fold_count_insert:
  assumes "simple_change c" and "\<forall>d \<in> set (cs @ ds). simple_change d"
  shows "fold count_stats (cs @ c # ds) s = fold count_stats (cs @ ds) (count_stats c s)"
    and "fold count_stats (cs @ c # ds) s = count_stats c (fold count_stats (cs @ ds) s)"
  using assms by (simp_all add: fold_count_commute)

subsection \<open>One section of a request on metadata\<close>

fun creates :: "meta_op \<Rightarrow> bool" where
  "creates (Create k fd l) = True"
| "creates _ = False"

lemma start_section_forms:
  assumes "start_section XXH64 (Meta x) ht = Inr (p, ht')" and "\<not> creates x"
  obtains (replies) r where "p = Done (Answer r)"
  | (counts) c r where "p = Goes_On (Counting c r)" "simple_change c"
proof -
  have "(\<exists>r. p = Done (Answer r)) \<or> (\<exists>c r. p = Goes_On (Counting c r) \<and> simple_change c)"
    using assms
    by (cases x)
      (auto simp: open_section_def close_section_def remove_section_def replied_def counting_def Let_def bind_result_eq_Inr
        split: option.splits if_splits)
  with replies counts show thesis by blast
qed

lemma refines_inverse:
  assumes "refines good view c a"
  shows "c = Inl e \<Longrightarrow> a = Inl e" and "c = Inr (r, s) \<Longrightarrow> good s \<and> a = Inr (r, view s)"
  using assms by (auto simp: refines_def split: sum.splits)

lemma count_section_idle:
  "simple_change c \<Longrightarrow> \<not> stats_guard ht \<Longrightarrow> count_section c ht = Inr (at_stats (count_stats c (stats ht)) ht)"
  by (cases c) (simp_all add: count_section_update update_stats_idle)

lemma section_linear:
  assumes inv: "htable_inv XXH64 (at_stats st ht)" and x: "\<not> creates x"
    and start: "start_section XXH64 (Meta x) ht = Inr (p, ht')"
  shows "\<exists>r. spec_exec x (htable_lookup XXH64 ht) = Inr (r, htable_lookup XXH64 ht') \<and>
    (p = Done (Answer r) \<and> htable_inv XXH64 (at_stats st ht') \<or>
     (\<exists>c. p = Goes_On (Counting c r) \<and> simple_change c \<and> htable_inv XXH64 (at_stats (count_stats c st) ht')))"
proof -
  have alone: "bind_result (htable_exec XXH64 x (at_stats st ht)) (\<lambda>(r, ht). Inr (Answer r, [], ht)) =
      run_alone 3 XXH64 p [] (at_stats st ht')"
    using run_op_meta [of XXH64 x "[]" "at_stats st ht"] start by (simp add: run_op_def start_section_stats)
  note ref = refines_inverse [OF htable_exec_refines [OF inv, of x], unfolded lookup_upd]
  have "\<not> stats_guard ht" using inv by (simp add: htable_inv_def)
  then have guard: "\<not> stats_guard ht'" using start_section_mutexes [OF start] by (simp add: mutexes_def)
  from start x show ?thesis
  proof (cases rule: start_section_forms)
    case (replies r)
    with alone have "htable_exec XXH64 x (at_stats st ht) = Inr (r, at_stats st ht')"
      by (auto simp: bind_result_eq_Inr)
    with ref(2) replies show ?thesis by auto
  next
    case (counts c r)
    with alone guard have "htable_exec XXH64 x (at_stats st ht) = Inr (r, at_stats (count_stats c st) ht')"
      by (auto simp: bind_result_eq_Inr run_alone_steps count_section_idle)
    with ref(2) counts show ?thesis by auto
  qed
qed

lemma section_fails:
  assumes inv: "htable_inv XXH64 (at_stats st ht)" and start: "start_section XXH64 (Meta x) ht = Inl e"
  shows "spec_exec x (htable_lookup XXH64 ht) = Inl e"
proof -
  have "bind_result (htable_exec XXH64 x (at_stats st ht)) (\<lambda>(r, ht). Inr (Answer r, [] :: nat list, ht)) = Inl e"
    using run_op_meta [of XXH64 x "[]" "at_stats st ht", symmetric] start by (simp add: run_op_def start_section_stats)
  then have "htable_exec XXH64 x (at_stats st ht) = Inl e" by (auto simp: bind_result_eq_Inl)
  then show ?thesis
    using refines_inverse(1) [OF htable_exec_refines [OF inv, of x], unfolded lookup_upd] by blast
qed


subsection \<open>Linearizable histories\<close>

text \<open>
  An event is a thread, its request and the reply. The change of the statistics that a thread
  has not made yet, and the reply it will give after that.
\<close>

type_synonym event = "nat \<times> meta_op \<times> reply"

fun pending_changes :: "activity \<Rightarrow> stats_change list" where
  "pending_changes (Counting c r) = [c]"
| "pending_changes _ = []"

fun pending_answers :: "activity \<Rightarrow> answer list" where
  "pending_answers (Counting c r) = [Answer r]"
| "pending_answers _ = []"

definition all_changes :: "Thread list \<Rightarrow> stats_change list" where
  "all_changes ths = concat (map (\<lambda>th. pending_changes (act th)) ths)"

definition settled :: "Threads \<Rightarrow> HTable" where
  "settled s = at_stats (fold count_stats (all_changes (threads s)) (stats (shared s))) (shared s)"

definition events_of :: "nat \<Rightarrow> event list \<Rightarrow> (meta_op \<times> reply) list" where
  "events_of t h = map snd (filter (\<lambda>e. fst e = t) h)"

definition spec_explains :: "event list \<Rightarrow> store \<Rightarrow> store \<Rightarrow> bool" where
  "spec_explains h m m' \<longleftrightarrow> run spec_exec (map (\<lambda>(t, x, r). x) h) m = Inr (map (\<lambda>(t, x, r). r) h, m')"

definition thread_explained :: "meta_op list \<Rightarrow> (meta_op \<times> reply) list \<Rightarrow> Thread \<Rightarrow> bool" where
  "thread_explained prog evs th \<longleftrightarrow>
     map Meta prog = map (\<lambda>(x, r). Meta x) evs @ todo th \<and>
     answers th @ pending_answers (act th) = map (\<lambda>(x, r). Answer r) evs"

definition linear :: "hash_fn \<Rightarrow> meta_op list list \<Rightarrow> store \<Rightarrow> event list \<Rightarrow> Threads \<Rightarrow> bool" where
  "linear XXH64 progs m h s \<longleftrightarrow>
     length (threads s) = length progs \<and> htable_inv XXH64 (settled s) \<and>
     (\<forall>d \<in> set (all_changes (threads s)). simple_change d) \<and>
     (\<forall>th \<in> set (threads s). act th = Idle \<or> (\<exists>c r. act th = Counting c r)) \<and>
     spec_explains h m (htable_lookup XXH64 (shared s)) \<and>
     (\<forall>t < length progs. thread_explained (progs ! t) (events_of t h) (threads s ! t))"

lemma all_changes_update:
  assumes "t < length ths"
  obtains cs ds where "all_changes ths = cs @ pending_changes (act (ths ! t)) @ ds"
    and "\<And>th. all_changes (ths[t := th]) = cs @ pending_changes (act th) @ ds"
proof -
  let ?f = "\<lambda>th. pending_changes (act th)"
  have "all_changes ths = concat (take t (map ?f ths)) @ ?f (ths ! t) @ concat (drop (Suc t) (map ?f ths))"
    using concat_nth_split [of t "map ?f ths"] assms by (simp add: all_changes_def)
  moreover have "all_changes (ths[t := th]) = concat (take t (map ?f ths)) @ ?f th @ concat (drop (Suc t) (map ?f ths))" for th
    using concat_update [of t "map ?f ths" "?f th"] assms by (simp add: all_changes_def map_update)
  ultimately show thesis by (rule that)
qed

lemma spec_explains_snoc:
  assumes "spec_explains h m m1" and "spec_exec x m1 = Inr (r, m2)"
  shows "spec_explains (h @ [(t, x, r)]) m m2"
  using assms by (simp add: spec_explains_def run_append)

lemma events_of_snoc: "events_of u (h @ [(t, x, r)]) = events_of u h @ (if u = t then [(x, r)] else [])"
  by (simp add: events_of_def)

lemma next_request:
  assumes "thread_explained prog evs th" and "todo th = y # rest" and "\<forall>x \<in> set prog. \<not> creates x"
  obtains x where "y = Meta x" and "\<not> creates x"
proof -
  have "y \<in> set (map Meta prog)" using assms(1,2) by (simp add: thread_explained_def)
  with assms(3) that show thesis by auto
qed

lemma linear_acts:
  assumes "linear XXH64 progs m h s" and "act th' = Idle \<or> (\<exists>c r. act th' = Counting c r)"
  shows "\<forall>th \<in> set ((threads s)[t := th']). act th = Idle \<or> (\<exists>c r. act th = Counting c r)"
  using assms set_update_subset_insert [of "threads s" t th'] by (auto simp: linear_def)

text \<open>The first section of a request is its place in the history.\<close>

lemma linear_first:
  assumes lin: "linear XXH64 progs m h s" and t: "t < length progs" and x: "\<not> creates x"
    and idle: "act (threads s ! t) = Idle" and todo: "todo (threads s ! t) = Meta x # rest"
    and start: "start_section XXH64 (Meta x) (shared s) = Inr (p, ht)"
    and s': "s' = s\<lparr>threads := (threads s)[t := settle p ((threads s ! t)\<lparr>todo := rest\<rparr>)], shared := ht\<rparr>"
  shows "\<exists>r. linear XXH64 progs m (h @ [(t, x, r)]) s'"
proof -
  let ?th' = "settle p ((threads s ! t)\<lparr>todo := rest\<rparr>)"
  have n: "t < length (threads s)" and inv: "htable_inv XXH64 (settled s)"
    and simp: "\<forall>d \<in> set (all_changes (threads s)). simple_change d"
    and thr: "thread_explained (progs ! t) (events_of t h) (threads s ! t)"
    using lin t by (auto simp: linear_def)
  obtain cs ds where old: "all_changes (threads s) = cs @ ds"
    and new: "\<And>th. all_changes ((threads s)[t := th]) = cs @ pending_changes (act th) @ ds"
    using all_changes_update [OF n] idle by auto
  let ?st = "fold count_stats (cs @ ds) (stats (shared s))"
  have "settled s = at_stats ?st (shared s)" using old by (simp add: settled_def)
  with section_linear [OF inv [unfolded this] x start] obtain r where
    r: "spec_exec x (htable_lookup XXH64 (shared s)) = Inr (r, htable_lookup XXH64 ht)" and
    p: "p = Done (Answer r) \<and> htable_inv XXH64 (at_stats ?st ht) \<or>
      (\<exists>c. p = Goes_On (Counting c r) \<and> simple_change c \<and> htable_inv XXH64 (at_stats (count_stats c ?st) ht))"
    by blast
  have "thread_explained (progs ! t) (events_of t h @ [(x, r)]) ?th'"
    using thr idle todo p by (auto simp: thread_explained_def settle_def)
  then have "\<forall>u < length progs. thread_explained (progs ! u) (events_of u (h @ [(t, x, r)])) (threads s' ! u)"
    using lin n by (auto simp: linear_def events_of_snoc nth_list_update s')
  moreover have "htable_inv XXH64 (settled s')" "\<forall>d \<in> set (all_changes (threads s')). simple_change d"
    using p simp old fold_count_insert(2) [of _ cs ds "stats (shared s)"] start_section_stats_same [OF start]
    by (auto simp: settled_def s' new settle_def)
  moreover have "act ?th' = Idle \<or> (\<exists>c r. act ?th' = Counting c r)" using p by (auto simp: settle_def)
  then have "\<forall>th \<in> set (threads s'). act th = Idle \<or> (\<exists>c r. act th = Counting c r)"
    using linear_acts [OF lin, of ?th'] by (simp add: s')
  moreover have "spec_explains (h @ [(t, x, r)]) m (htable_lookup XXH64 (shared s'))"
    using lin spec_explains_snoc [OF _ r] by (simp add: linear_def s')
  moreover have "length (threads s') = length progs" using lin by (simp add: s' linear_def)
  ultimately show ?thesis by (auto simp: linear_def)
qed

text \<open>The update of the statistics changes nothing that the history explains.\<close>

lemma linear_later:
  assumes lin: "linear XXH64 progs m h s" and t: "t < length progs" and busy: "act (threads s ! t) \<noteq> Idle"
  shows "\<exists>p ht. activity_step XXH64 (act (threads s ! t)) draws (shared s) = Inr (p, draws, ht) \<and>
    linear XXH64 progs m h \<lparr>threads = (threads s)[t := settle p (threads s ! t)], shared = ht, rand_draws = draws\<rparr>"
proof -
  have n: "t < length (threads s)" and inv: "htable_inv XXH64 (settled s)"
    and simp: "\<forall>d \<in> set (all_changes (threads s)). simple_change d"
    and thr: "thread_explained (progs ! t) (events_of t h) (threads s ! t)"
    using lin t by (auto simp: linear_def)
  have "threads s ! t \<in> set (threads s)" using n by simp
  with busy lin obtain c r where c: "act (threads s ! t) = Counting c r" by (auto simp: linear_def)
  obtain cs ds where old: "all_changes (threads s) = cs @ c # ds"
    and new: "\<And>th. all_changes ((threads s)[t := th]) = cs @ pending_changes (act th) @ ds"
    using all_changes_update [OF n] c by auto
  have sc: "simple_change c" using simp old by simp
  have "\<not> stats_guard (shared s)" using inv by (simp add: htable_inv_def settled_def)
  then have step: "activity_step XXH64 (act (threads s ! t)) draws (shared s) =
      Inr (Done (Answer r), draws, at_stats (count_stats c (stats (shared s))) (shared s))"
    using sc c by (simp add: count_section_idle)
  let ?th' = "settle (Done (Answer r)) (threads s ! t)"
  let ?s' = "\<lparr>threads = (threads s)[t := ?th'], shared = at_stats (count_stats c (stats (shared s))) (shared s), rand_draws = draws\<rparr>"
  have "thread_explained (progs ! t) (events_of t h) ?th'"
    using thr c by (simp add: thread_explained_def settle_def)
  then have "\<forall>u < length progs. thread_explained (progs ! u) (events_of u h) (threads ?s' ! u)"
    using lin n by (auto simp: linear_def nth_list_update)
  moreover have "settled ?s' = settled s"
    using fold_count_insert(1) [OF sc, of cs ds "stats (shared s)"] simp
    by (simp add: settled_def new old settle_def)
  moreover have "\<forall>d \<in> set (all_changes (threads ?s')). simple_change d"
    using simp by (auto simp: new old settle_def)
  moreover have "\<forall>th \<in> set (threads ?s'). act th = Idle \<or> (\<exists>c r. act th = Counting c r)"
    using linear_acts [OF lin, of ?th'] by (simp add: settle_def)
  ultimately have "linear XXH64 progs m h ?s'" using inv lin by (simp add: linear_def)
  with step show ?thesis by blast
qed

lemma linear_step:
  assumes lin: "linear XXH64 progs m h s" and t: "t < length progs" and safe: "\<forall>xs \<in> set progs. \<forall>x \<in> set xs. \<not> creates x"
  shows "case thread_step XXH64 t s of
      Inr s' \<Rightarrow> \<exists>h'. linear XXH64 progs m (h @ h') s'
    | Inl e \<Rightarrow> e = Assert_Fail \<and> (\<exists>x. spec_exec x (htable_lookup XXH64 (shared s)) = Inl Assert_Fail)"
proof (cases "act (threads s ! t) = Idle")
  case False
  from linear_later [OF lin t False, of "rand_draws s"] show ?thesis
    by (auto simp: thread_step_later [OF False] intro!: exI [of _ "[]"])
next
  case True
  show ?thesis
  proof (cases "todo (threads s ! t)")
    case Nil
    with True lin have "thread_step XXH64 t s = Inr s \<and> linear XXH64 progs m (h @ []) s" by (simp add: thread_step_def)
    then show ?thesis by (metis sum.case(2))
  next
    case (Cons y rest)
    have "thread_explained (progs ! t) (events_of t h) (threads s ! t)" using lin t by (simp add: linear_def)
    then obtain x where x: "y = Meta x" "\<not> creates x"
      using next_request [OF _ Cons] safe t by (metis nth_mem)
    show ?thesis
    proof (cases "start_section XXH64 (Meta x) (shared s)")
      case (Inl e)
      have "htable_inv XXH64 (at_stats (fold count_stats (all_changes (threads s)) (stats (shared s))) (shared s))"
        using lin by (simp add: linear_def settled_def)
      from section_fails [OF this Inl] have "spec_exec x (htable_lookup XXH64 (shared s)) = Inl e" .
      with Inl True Cons x(1) show ?thesis using spec_exec_fault by (auto simp: thread_step_def)
    next
      case (Inr q)
      then obtain p ht where q: "start_section XXH64 (Meta x) (shared s) = Inr (p, ht)" by (cases q) simp
      from linear_first [OF lin t x(2) True Cons [unfolded x(1)] q refl] True Cons x(1) q show ?thesis
        by (auto simp: thread_step_def)
    qed
  qed
qed

lemma linear_schedule:
  assumes "linear XXH64 progs m h s" and safe: "\<forall>xs \<in> set progs. \<forall>x \<in> set xs. \<not> creates x"
  shows "case run_schedule XXH64 sched s of
      Inr s' \<Rightarrow> \<exists>h'. linear XXH64 progs m (h @ h') s'
    | Inl e \<Rightarrow> e = Assert_Fail \<and>
        (\<exists>h' m' x. spec_explains (h @ h') m m' \<and> spec_exec x m' = Inl Assert_Fail)"
  using assms(1)
proof (induction sched arbitrary: s h)
  case Nil
  then show ?case by (auto intro: exI [of _ "[]"])
next
  case (Cons t sched)
  show ?case
  proof (cases "t < length (threads s)")
    case False
    with Cons.IH [OF Cons.prems] show ?thesis by simp
  next
    case True
    then have t: "t < length progs" using Cons.prems by (simp add: linear_def)
    show ?thesis
    proof (cases "thread_step XXH64 t s")
      case (Inl e)
      with linear_step [OF Cons.prems t safe] have e: "e = Assert_Fail" "\<exists>x. spec_exec x (htable_lookup XXH64 (shared s)) = Inl Assert_Fail"
        by simp_all
      moreover have "spec_explains (h @ []) m (htable_lookup XXH64 (shared s))" using Cons.prems by (simp add: linear_def)
      ultimately have "\<exists>h' m' x. spec_explains (h @ h') m m' \<and> spec_exec x m' = Inl Assert_Fail" by blast
      with Inl True e(1) show ?thesis by simp
    next
      case (Inr s1)
      with linear_step [OF Cons.prems t safe] obtain h1 where "linear XXH64 progs m (h @ h1) s1" by auto
      from Cons.IH [OF this] Inr True show ?thesis by (auto split: sum.splits)
    qed
  qed
qed


lemma linear_start:
  assumes "htable_inv XXH64 ht"
  shows "linear XXH64 progs (htable_lookup XXH64 ht) [] (start_threads (map (map Meta) progs) draws ht)"
proof -
  have none: "all_changes (threads (start_threads (map (map Meta) progs) draws ht)) = []"
    by (auto simp: all_changes_def start_threads_def)
  then show ?thesis
    using assms
    by (auto simp: linear_def settled_def none start_threads_def spec_explains_def thread_explained_def events_of_def)
qed

lemma linear_finished:
  assumes "linear XXH64 progs m h s" and "\<not> list_ex unfinished (threads s)"
  shows "htable_inv XXH64 (shared s)"
proof -
  have "all_changes (threads s) = []"
    using assms(2) by (auto simp: all_changes_def list_ex_iff unfinished_def)
  with assms(1) show ?thesis by (simp add: linear_def settled_def)
qed

subsection \<open>Enough turns\<close>

text \<open>The turns a thread needs at most to answer all of its requests.\<close>

definition work :: "Thread \<Rightarrow> nat" where
  "work th = 2 * length (todo th) + (if act th = Idle then 0 else 1)"

lemma work_step:
  assumes lin: "linear XXH64 progs m h s" and t: "t < length progs" and safe: "\<forall>xs \<in> set progs. \<forall>x \<in> set xs. \<not> creates x"
    and step: "thread_step XXH64 t s = Inr s'"
  shows "work (threads s' ! t) \<le> work (threads s ! t) - 1" and "u \<noteq> t \<Longrightarrow> threads s' ! u = threads s ! u"
proof -
  have n: "t < length (threads s)" and thr: "thread_explained (progs ! t) (events_of t h) (threads s ! t)"
    using lin t by (auto simp: linear_def)
  have "work (threads s' ! t) \<le> work (threads s ! t) - 1 \<and> (u \<noteq> t \<longrightarrow> threads s' ! u = threads s ! u)"
    using step
  proof (cases rule: thread_step_cases)
    case nothing
    then show ?thesis by (simp add: work_def)
  next
    case (first y rest p ht)
    with n show ?thesis by (simp add: work_def settle_def split: progress.split)
  next
    case (later p draws ht)
    with linear_later [OF lin t later(1), of "rand_draws s"] obtain c r where "act (threads s ! t) = Counting c r"
      using lin n by (auto simp: linear_def)
    with later n show ?thesis by (auto simp: work_def settle_def bind_result_eq_Inr)
  qed
  then show "work (threads s' ! t) \<le> work (threads s ! t) - 1" and "u \<noteq> t \<Longrightarrow> threads s' ! u = threads s ! u" by simp_all
qed

lemma work_schedule:
  assumes "linear XXH64 progs m h s" and safe: "\<forall>xs \<in> set progs. \<forall>x \<in> set xs. \<not> creates x"
    and "run_schedule XXH64 sched s = Inr s'" and t: "t < length progs"
  shows "work (threads s' ! t) \<le> work (threads s ! t) - count_list sched t"
  using assms(1,3)
proof (induction sched arbitrary: s h)
  case (Cons u sched)
  show ?case
  proof (cases "u < length progs")
    case False
    with Cons t show ?thesis by (auto simp: linear_def)
  next
    case True
    with linear_step [OF Cons.prems(1) True safe] Cons.prems obtain s1 h1 where
      s1: "thread_step XXH64 u s = Inr s1" "linear XXH64 progs m (h @ h1) s1" "run_schedule XXH64 sched s1 = Inr s'"
      by (auto simp: linear_def split: sum.splits if_splits)
    from Cons.IH [OF s1(2,3)] work_step [OF Cons.prems(1) True safe s1(1)] show ?thesis
      by (cases "u = t") fastforce+
  qed
qed simp

subsection \<open>Properties\<close>

text \<open>
  A history explains the state of the threads: the plain map gives the replies of the history and
  ends in the files of the table; every thread has made the requests that the history has of it, in
  the order of its program, and got (or is about to return) their replies; and the table satisfies
  its invariant again when no thread is in the middle of a request.
\<close>

definition explains :: "hash_fn \<Rightarrow> meta_op list list \<Rightarrow> store \<Rightarrow> event list \<Rightarrow> Threads \<Rightarrow> bool" where
  "explains XXH64 progs m h s \<longleftrightarrow>
     spec_explains h m (htable_lookup XXH64 (shared s)) \<and>
     (\<forall>t < length progs. thread_explained (progs ! t) (events_of t h) (threads s ! t)) \<and>
     (list_ex unfinished (threads s) \<or> htable_inv XXH64 (shared s))"

lemma linear_explains:
  assumes "linear XXH64 progs m h s"
  shows "explains XXH64 progs m h s"
  using linear_finished [OF assms] assms unfolding explains_def linear_def by blast

text \<open>
  C4: Requests on metadata are linearizable. Any number of threads that lock, unlock, open, close and
  remove files, under any schedule, get the replies and leave the files of some sequential order of
  their requests on a plain map of files; a request that is answered before another one begins comes
  before it in that order (the history at a later time extends the history at an earlier one); and
  the only fault is the failed assertion of \<open>htable_lock_file\<close>, where the map has it too.
\<close>

theorem concurrent_requests_linearize:
  assumes "htable_inv XXH64 ht" and "\<forall>xs \<in> set progs. \<forall>x \<in> set xs. \<not> creates x"
    and "run_schedule XXH64 earlier (start_threads (map (map Meta) progs) draws ht) = Inr s"
  shows "\<exists>h. explains XXH64 progs (htable_lookup XXH64 ht) h s \<and>
    (case run_schedule XXH64 afterwards s of
       Inr s' \<Rightarrow> \<exists>h'. explains XXH64 progs (htable_lookup XXH64 ht) (h @ h') s'
     | Inl e \<Rightarrow> e = Assert_Fail \<and>
         (\<exists>h' m x. spec_explains (h @ h') (htable_lookup XXH64 ht) m \<and> spec_exec x m = Inl Assert_Fail))"
proof -
  obtain h where h: "linear XXH64 progs (htable_lookup XXH64 ht) h s"
    using linear_schedule [OF linear_start [OF assms(1)] assms(2), of earlier draws] assms(3) by auto
  show ?thesis
  proof (intro exI [of _ h] conjI)
    show "explains XXH64 progs (htable_lookup XXH64 ht) h s" using linear_explains [OF h] .
    show "case run_schedule XXH64 afterwards s of
       Inr s' \<Rightarrow> \<exists>h'. explains XXH64 progs (htable_lookup XXH64 ht) (h @ h') s'
     | Inl e \<Rightarrow> e = Assert_Fail \<and>
         (\<exists>h' m x. spec_explains (h @ h') (htable_lookup XXH64 ht) m \<and> spec_exec x m = Inl Assert_Fail)"
      using linear_schedule [OF h assms(2), of afterwards] linear_explains
      by (cases "run_schedule XXH64 afterwards s") (simp_all, blast)
  qed
qed


definition sample_programs :: "meta_op list list" where
  "sample_programs = [[Lock [97] 3, Unlock [97] 3], [Close [97] 4, Remove [97] 4]]"

theorem concurrent_requests_linearize_witness:
  "\<exists>ht s. sample_table CACHE_EVICTION_POLICY_FIFO [Create [97] 3 False] = Inr ([Reply HTABLE_ERR_OK (-1)], ht) \<and>
     run_schedule (\<lambda>_. 0) [1, 0] (start_threads (map (map Meta) sample_programs) [] ht) = Inr s \<and>
     (\<exists>h. explains (\<lambda>_. 0) sample_programs (htable_lookup (\<lambda>_. 0) ht) h s \<and>
       (case run_schedule (\<lambda>_. 0) [1, 1, 0] s of
          Inr s' \<Rightarrow> \<exists>h'. explains (\<lambda>_. 0) sample_programs (htable_lookup (\<lambda>_. 0) ht) (h @ h') s'
        | Inl e \<Rightarrow> e = Assert_Fail \<and>
            (\<exists>h' m x. spec_explains (h @ h') (htable_lookup (\<lambda>_. 0) ht) m \<and> spec_exec x m = Inl Assert_Fail)))"
proof -
  obtain ht where ht: "sample_table CACHE_EVICTION_POLICY_FIFO [Create [97] 3 False] = Inr ([Reply HTABLE_ERR_OK (-1)], ht)"
    "htable_inv (\<lambda>_. 0) ht"
    by (rule sample_created)
  let ?start = "\<lambda>ht. start_threads (map (map Meta) sample_programs) [] ht"
  have "case sample_table CACHE_EVICTION_POLICY_FIFO [Create [97] 3 False] of Inl _ \<Rightarrow> False
    | Inr (rs, ht) \<Rightarrow> (case run_schedule (\<lambda>_. 0) [1, 0] (?start ht) of Inl _ \<Rightarrow> False | Inr s \<Rightarrow> True)"
    by code_simp
  then have "case run_schedule (\<lambda>_. 0) [1, 0] (?start ht) of Inl _ \<Rightarrow> False | Inr s \<Rightarrow> True"
    by (simp only: ht(1) sum.case prod.case)
  then obtain s where s: "run_schedule (\<lambda>_. 0) [1, 0] (?start ht) = Inr s"
    by (cases "run_schedule (\<lambda>_. 0) [1, 0] (?start ht)") (simp_all only: sum.case)
  have "\<forall>xs \<in> set sample_programs. \<forall>x \<in> set xs. \<not> creates x" by (simp add: sample_programs_def)
  from concurrent_requests_linearize [OF ht(2) this s, of "[1, 1, 0]"] ht(1) s show ?thesis by blast
qed

text \<open>
  No thread that locks, unlocks, opens, closes and removes files starves: in the model, where such a
  request has at most two sections, two turns for each request are enough. Creations, reads and writes
  are not among these requests.
\<close>

lemma enough_turns_answer_all:
  assumes "htable_inv XXH64 ht" and "\<forall>xs \<in> set progs. \<forall>x \<in> set xs. \<not> creates x"
    and "run_schedule XXH64 sched (start_threads (map (map Meta) progs) draws ht) = Inr s"
    and "\<forall>t < length progs. 2 * length (progs ! t) \<le> count_list sched t"
  shows "htable_inv XXH64 (shared s) \<and> (\<exists>h. spec_explains h (htable_lookup XXH64 ht) (htable_lookup XXH64 (shared s)) \<and>
    (\<forall>t < length progs. map fst (events_of t h) = progs ! t \<and>
       answers (threads s ! t) = map (\<lambda>(x, r). Answer r) (events_of t h)))"
proof -
  let ?start = "start_threads (map (map Meta) progs) draws ht"
  note start = linear_start [OF assms(1), of progs draws]
  from linear_schedule [OF start assms(2), of sched] assms(3) obtain h where
    h: "linear XXH64 progs (htable_lookup XXH64 ht) h s" by auto
  have finished: "todo (threads s ! t) = [] \<and> act (threads s ! t) = Idle" if t: "t < length progs" for t
  proof -
    have "work (threads ?start ! t) = 2 * length (progs ! t)" using t by (simp add: start_threads_def work_def)
    with work_schedule [OF start assms(2,3) t] assms(4) t have "work (threads s ! t) = 0" by fastforce
    then show ?thesis by (simp add: work_def split: if_splits)
  qed
  then have "\<not> list_ex unfinished (threads s)"
    using h by (auto simp: list_ex_length linear_def unfinished_def)
  with linear_finished [OF h] have "htable_inv XXH64 (shared s)" .
  moreover have "map fst (events_of t h) = progs ! t \<and> answers (threads s ! t) = map (\<lambda>(x, r). Answer r) (events_of t h)"
    if t: "t < length progs" for t
  proof -
    have "map Meta (progs ! t) = map Meta (map fst (events_of t h))"
      and "answers (threads s ! t) = map (\<lambda>(x, r). Answer r) (events_of t h)"
      using h t finished [OF t] by (auto simp: linear_def thread_explained_def case_prod_unfold)
    then show ?thesis by (metis inj_map_eq_map inj_def table_op.inject(1))
  qed
  ultimately show ?thesis using h by (auto simp: linear_def)
qed

end
