(* ===== verification/Server_Sections.thy ===== *)
theory Server_Sections
  imports Server_Runs HTable_Linear
begin

text \<open>
  The server with workers that are interrupted: the threads of \<open>Server_Main\<close>, but a worker that has a
  message handles it in the steps of \<open>HTable_Threads\<close>, one for each critical section of the
  operation on the table, then writes its response and frees the message. Between any two of these steps
  the other workers, the polling loop and signals take theirs. The messages are the requests
  on metadata; a worker with any other message takes no step here.
\<close>

subsection \<open>Steps of a worker\<close>

text \<open>
  What a worker is busy with: the address of the message, its request, and how far the operation on the
  table has come (None before its first section).
\<close>

type_synonym job = "nat \<times> request \<times> progress option"

record Sections =
  sys :: System
  jobs :: "job option list"

datatype label =
    Pulled nat request
  | Replied nat request reply
  | Internal

text \<open>What the handlers do with the result of the operation on the table.\<close>

fun worker_respond :: "int \<Rightarrow> ApiOp \<Rightarrow> reply \<Rightarrow> Server \<Rightarrow> Server" where
  "worker_respond fd aop (Reply e new_fd) s =
     (if aop = API_OP_LOCK_FILE then send_byte fd (if htable_err_code e < 0 then RESPONSE_ERR else RESPONSE_OK) s
      else
        let s = write_response_byte fd (htable_err_code e) s in
        if aop = API_OP_UNLOCK_FILE \<and> new_fd \<noteq> -1 then write_response_byte new_fd (htable_err_code HTABLE_ERR_OK) s
        else s)"

definition with_queue :: "Workload \<Rightarrow> System \<Rightarrow> System" where
  "with_queue w s = s\<lparr>polling := (polling s)\<lparr>workload := w\<rparr>\<rparr>"

definition with_table :: "HTable \<Rightarrow> nat list \<Rightarrow> System \<Rightarrow> System" where
  "with_table ht ds s = s\<lparr>server := (server s)\<lparr>table := ht, draws := ds\<rparr>\<rparr>"

text \<open>The request that a message carries, when it is a complete request on metadata.\<close>

fun op_of :: "request \<Rightarrow> meta_op" where
  "op_of (fd, aop, k) = the (meta_request fd aop k)"

inductive worker_does :: "hash_fn \<Rightarrow> nat \<Rightarrow> Sections \<Rightarrow> label \<Rightarrow> Sections \<Rightarrow> bool" for XXH64 where
  pull: "t < length (jobs f) \<Longrightarrow> workers (sys f) ! t = Looping i \<Longrightarrow> jobs f ! t = None \<Longrightarrow>
    workload_queue_pull (hard (sys f)) (unat i) (workload (polling (sys f))) = Inr (Pull_Returns (Some a), w) \<Longrightarrow>
    heap_load a (messages w) = Inr msg \<Longrightarrow> carries (msg_fd msg, msg_buffer msg) q \<Longrightarrow>
    worker_does XXH64 t f (Pulled t q) (f\<lparr>sys := with_queue w (sys f), jobs := (jobs f)[t := Some (a, q, None)]\<rparr>)"
| first: "t < length (jobs f) \<Longrightarrow> jobs f ! t = Some (a, q, None) \<Longrightarrow>
    start_section XXH64 (Meta (op_of q)) (table (server (sys f))) = Inr (p, ht) \<Longrightarrow>
    worker_does XXH64 t f Internal
      (f\<lparr>sys := with_table ht (draws (server (sys f))) (sys f), jobs := (jobs f)[t := Some (a, q, Some p)]\<rparr>)"
| later: "t < length (jobs f) \<Longrightarrow> jobs f ! t = Some (a, q, Some (Goes_On c)) \<Longrightarrow>
    activity_step XXH64 c (draws (server (sys f))) (table (server (sys f))) = Inr (p, ds, ht) \<Longrightarrow>
    worker_does XXH64 t f Internal (f\<lparr>sys := with_table ht ds (sys f), jobs := (jobs f)[t := Some (a, q, Some p)]\<rparr>)"
| reply: "t < length (jobs f) \<Longrightarrow> jobs f ! t = Some (a, (fd, aop, k), Some (Done (Answer r))) \<Longrightarrow>
    worker_does XXH64 t f (Replied t (fd, aop, k) r)
      (f\<lparr>sys := with_queue (free_message a (workload (polling (sys f))))
           ((sys f)\<lparr>server := worker_respond fd aop r (server (sys f))\<rparr>), jobs := (jobs f)[t := None]\<rparr>)"

text \<open>
  A run, with what its workers have pulled and replied. The steps of the rest of the server are those of
  \<open>Server_Main\<close> in which no worker handles a message, and in which the busy workers take no part.
\<close>

inductive sections_run :: "hash_fn \<Rightarrow> Sections \<Rightarrow> label list \<Rightarrow> Sections \<Rightarrow> bool" for XXH64 f0 where
  nothing: "sections_run XXH64 f0 [] f0"
| worker: "sections_run XXH64 f0 ls f \<Longrightarrow> worker_does XXH64 t f l f' \<Longrightarrow> sections_run XXH64 f0 (ls @ [l]) f'"
| others: "sections_run XXH64 f0 ls f \<Longrightarrow> server_step XXH64 (sys f) s' \<Longrightarrow> (\<nexists>msg. serves XXH64 (sys f) msg s') \<Longrightarrow>
    (\<forall>t < length (jobs f). jobs f ! t \<noteq> None \<longrightarrow> workers s' ! t = workers (sys f) ! t) \<Longrightarrow>
    sections_run XXH64 f0 ls (f\<lparr>sys := s'\<rparr>)"

definition start_sections :: "System \<Rightarrow> Sections" where
  "start_sections s = \<lparr>sys = s, jobs = replicate (length (workers s)) None\<rparr>"

subsection \<open>What a run has pulled, replied and written\<close>

fun pulled_in :: "nat \<Rightarrow> label \<Rightarrow> meta_op list" where
  "pulled_in t (Pulled u q) = (if u = t then [op_of q] else [])"
| "pulled_in t _ = []"

fun replied_in :: "nat \<Rightarrow> label \<Rightarrow> reply list" where
  "replied_in t (Replied u q r) = (if u = t then [r] else [])"
| "replied_in t _ = []"

fun written_in :: "label \<Rightarrow> (int \<times> byte list) list" where
  "written_in (Replied u (fd, aop, k) r) = meta_response fd aop r"
| "written_in _ = []"

definition pulled_by :: "nat \<Rightarrow> label list \<Rightarrow> meta_op list" where
  "pulled_by t ls = concat (map (pulled_in t) ls)"

definition replied_by :: "nat \<Rightarrow> label list \<Rightarrow> reply list" where
  "replied_by t ls = concat (map (replied_in t) ls)"

definition written :: "label list \<Rightarrow> (int \<times> byte list) list" where
  "written ls = concat (map written_in ls)"

lemma log_snoc [simp]:
  "pulled_by t (ls @ [l]) = pulled_by t ls @ pulled_in t l"
  "replied_by t (ls @ [l]) = replied_by t ls @ replied_in t l"
  "written (ls @ [l]) = written ls @ written_in l"
  by (simp_all add: pulled_by_def replied_by_def written_def)

text \<open>The workers as the threads of \<open>HTable_Threads\<close>, each with the requests it has pulled as its program.\<close>

fun job_thread :: "job option \<Rightarrow> reply list \<Rightarrow> Thread" where
  "job_thread None rs = \<lparr>todo = [], act = Idle, answers = map Answer rs\<rparr>"
| "job_thread (Some (a, q, None)) rs = \<lparr>todo = [Meta (op_of q)], act = Idle, answers = map Answer rs\<rparr>"
| "job_thread (Some (a, q, Some (Goes_On c))) rs = \<lparr>todo = [], act = c, answers = map Answer rs\<rparr>"
| "job_thread (Some (a, q, Some (Done b))) rs = \<lparr>todo = [], act = Idle, answers = map Answer rs @ [b]\<rparr>"

definition as_threads :: "label list \<Rightarrow> Sections \<Rightarrow> Threads" where
  "as_threads ls f =
     \<lparr>threads = map (\<lambda>t. job_thread (jobs f ! t) (replied_by t ls)) [0..<length (jobs f)],
      shared = table (server (sys f)), rand_draws = draws (server (sys f))\<rparr>"

definition programs :: "label list \<Rightarrow> Sections \<Rightarrow> meta_op list list" where
  "programs ls f = map (\<lambda>t. pulled_by t ls) [0..<length (jobs f)]"

text \<open>
  A history explains a run: the threads in the sense of \<open>explains\<close>, and the bytes are the responses to the
  replies in the order in which the workers have written them.
\<close>

definition sections_explained :: "hash_fn \<Rightarrow> store \<Rightarrow> (int \<times> byte list) list \<Rightarrow> label list \<Rightarrow> event list \<Rightarrow> Sections \<Rightarrow> bool" where
  "sections_explained XXH64 m outs ls h f \<longleftrightarrow>
     explains XXH64 (programs ls f) m h (as_threads ls f) \<and> out (server (sys f)) = outs @ written ls"

definition no_creations :: "label list \<Rightarrow> bool" where
  "no_creations ls \<longleftrightarrow> (\<forall>t. \<forall>x \<in> set (pulled_by t ls). \<not> creates x)"

subsection \<open>The history of a run\<close>

lemma map_update_upt: "t < n \<Longrightarrow> (\<And>u. u < n \<Longrightarrow> u \<noteq> t \<Longrightarrow> g u = f u) \<Longrightarrow> map g [0..<n] = (map f [0..<n])[t := g t]"
  by (intro nth_equalityI) (auto simp: nth_list_update)

lemma as_threads_nth [simp]:
  "t < length (jobs f) \<Longrightarrow> threads (as_threads ls f) ! t = job_thread (jobs f ! t) (replied_by t ls)"
  "length (threads (as_threads ls f)) = length (jobs f)"
  "shared (as_threads ls f) = table (server (sys f))"
  "rand_draws (as_threads ls f) = draws (server (sys f))"
  by (simp_all add: as_threads_def)

lemma programs_nth [simp]:
  "t < length (jobs f) \<Longrightarrow> programs ls f ! t = pulled_by t ls" "length (programs ls f) = length (jobs f)"
  by (simp_all add: programs_def)

text \<open>One more request for a thread.\<close>

lemma linear_add:
  assumes lin: "linear XXH64 progs m h s" and t: "t < length progs"
  shows "linear XXH64 (progs[t := progs ! t @ [x]]) m h
    (s\<lparr>threads := (threads s)[t := (threads s ! t)\<lparr>todo := todo (threads s ! t) @ [Meta x]\<rparr>]\<rparr>)"
proof -
  let ?th = "(threads s ! t)\<lparr>todo := todo (threads s ! t) @ [Meta x]\<rparr>"
  have n: "t < length (threads s)" using lin t by (simp add: linear_def)
  have ch: "all_changes ((threads s)[t := ?th]) = all_changes (threads s)"
    by (rule all_changes_update [OF n]) simp
  have acts: "\<forall>th \<in> set ((threads s)[t := ?th]). act th = Idle \<or> (\<exists>c r. act th = Counting c r)"
    using lin n by (intro linear_acts [OF lin]) (simp add: linear_def)
  have thr: "thread_explained (progs ! u) (events_of u h) (threads s ! u)" if "u < length progs" for u
    using lin that by (simp add: linear_def)
  have "thread_explained (progs[t := progs ! t @ [x]] ! u) (events_of u h) ((threads s)[t := ?th] ! u)" if u: "u < length progs" for u
    using thr [OF u] n t by (auto simp: nth_list_update thread_explained_def)
  with lin ch acts n show ?thesis by (simp add: linear_def settled_def)
qed

lemma respond_meta:
  assumes "script s = []" and "meta_request fd aop k \<noteq> None"
  shows "worker_respond fd aop r s = s\<lparr>out := out s @ meta_response fd aop r\<rparr>"
  using assms
  by (cases aop; cases r) (simp_all add: write_response_byte_def send_byte_idle status_byte_def Let_def)

fun job_ok :: "job option \<Rightarrow> bool" where
  "job_ok None = True"
| "job_ok (Some (a, q, p)) = wf_request q"

definition run_inv :: "hash_fn \<Rightarrow> store \<Rightarrow> (int \<times> byte list) list \<Rightarrow> label list \<Rightarrow> event list \<Rightarrow> Sections \<Rightarrow> bool" where
  "run_inv XXH64 m outs ls h f \<longleftrightarrow>
     linear XXH64 (programs ls f) m h (as_threads ls f) \<and> out (server (sys f)) = outs @ written ls \<and>
     script (server (sys f)) = [] \<and> (\<forall>j \<in> set (jobs f). job_ok j)"

lemma run_inv_explained: "run_inv XXH64 m outs ls h f \<Longrightarrow> sections_explained XXH64 m outs ls h f"
  by (simp add: run_inv_def sections_explained_def linear_explains)

lemma jobs_update:
  "\<forall>j \<in> set js. P j \<Longrightarrow> P j' \<Longrightarrow> \<forall>j \<in> set (js[t := j']). P j"
  using set_update_subset_insert [of js t j'] by blast

lemma carries_wf: "carries msg q \<Longrightarrow> wf_request q"
  by (cases q) (simp add: carries_def)

lemma settle_job: "settle p ((job_thread (Some (a, q, None)) rs)\<lparr>todo := []\<rparr>) = job_thread (Some (a, q, Some p)) rs"
  by (cases p) (simp_all add: settle_def)

lemma settle_later: "settle p (job_thread (Some (a, q, Some (Goes_On c))) rs) = job_thread (Some (a, q, Some p)) rs"
  by (cases p) (simp_all add: settle_def)

lemma run_inv_pull:
  assumes inv: "run_inv XXH64 m outs ls h f" and t: "t < length (jobs f)" "jobs f ! t = None" and q: "wf_request q"
  shows "run_inv XXH64 m outs (ls @ [Pulled t q]) h (f\<lparr>sys := with_queue w (sys f), jobs := (jobs f)[t := Some (a, q, None)]\<rparr>)"
proof -
  let ?f = "f\<lparr>sys := with_queue w (sys f), jobs := (jobs f)[t := Some (a, q, None)]\<rparr>" and ?s = "as_threads ls f"
  have "as_threads (ls @ [Pulled t q]) ?f =
      ?s\<lparr>threads := (threads ?s)[t := (threads ?s ! t)\<lparr>todo := todo (threads ?s ! t) @ [Meta (op_of q)]\<rparr>]\<rparr>"
    using t map_update_upt [OF t(1), of "\<lambda>u. job_thread (jobs ?f ! u) (replied_by u (ls @ [Pulled t q]))"
      "\<lambda>u. job_thread (jobs f ! u) (replied_by u ls)"]
    by (simp add: as_threads_def with_queue_def)
  moreover have "programs (ls @ [Pulled t q]) ?f = (programs ls f)[t := programs ls f ! t @ [op_of q]]"
    using t map_update_upt [OF t(1), of "\<lambda>u. pulled_by u (ls @ [Pulled t q])" "\<lambda>u. pulled_by u ls"] by (simp add: programs_def)
  moreover have "\<forall>j \<in> set (jobs ?f). job_ok j"
    using inv q jobs_update [of "jobs f" job_ok "Some (a, q, None)" t] by (simp add: run_inv_def)
  ultimately show ?thesis
    using inv linear_add [of XXH64 "programs ls f" m h ?s t "op_of q"] t(1)
    by (simp add: run_inv_def with_queue_def)
qed

lemma run_inv_first:
  assumes inv: "run_inv XXH64 m outs ls h f" and t: "t < length (jobs f)" "jobs f ! t = Some (a, q, None)"
    and none: "no_creations ls" and start: "start_section XXH64 (Meta (op_of q)) (table (server (sys f))) = Inr (p, ht)"
  shows "\<exists>h'. run_inv XXH64 m outs (ls @ [Internal]) (h @ h')
    (f\<lparr>sys := with_table ht (draws (server (sys f))) (sys f), jobs := (jobs f)[t := Some (a, q, Some p)]\<rparr>)"
proof -
  let ?f = "f\<lparr>sys := with_table ht (draws (server (sys f))) (sys f), jobs := (jobs f)[t := Some (a, q, Some p)]\<rparr>" and ?s = "as_threads ls f"
  have lin: "linear XXH64 (programs ls f) m h ?s" and wf: "\<forall>j \<in> set (jobs f). job_ok j"
    using inv by (simp_all add: run_inv_def)
  have th: "threads ?s ! t = job_thread (Some (a, q, None)) (replied_by t ls)" using t by simp
  have "thread_explained (programs ls f ! t) (events_of t h) (threads ?s ! t)" using lin t(1) by (simp add: linear_def)
  then obtain y where y: "Meta (op_of q) = Meta y" "\<not> creates y"
    by (rule next_request) (use th t(1) none in \<open>auto simp: no_creations_def\<close>)
  let ?s' = "?s\<lparr>threads := (threads ?s)[t := settle p ((threads ?s ! t)\<lparr>todo := []\<rparr>)], shared := ht\<rparr>"
  obtain r where r: "linear XXH64 (programs ls f) m (h @ [(t, op_of q, r)]) ?s'"
    using linear_first [OF lin _ _ _ _ _ refl, of t "op_of q" "[]" p ht] y t start th by auto
  have "as_threads (ls @ [Internal]) ?f = ?s'"
    using t map_update_upt [OF t(1), of "\<lambda>u. job_thread (jobs ?f ! u) (replied_by u (ls @ [Internal]))"
      "\<lambda>u. job_thread (jobs f ! u) (replied_by u ls)"]
    unfolding th settle_job by (simp add: as_threads_def with_table_def)
  moreover have "programs (ls @ [Internal]) ?f = programs ls f" by (simp add: programs_def)
  moreover have "\<forall>j \<in> set (jobs ?f). job_ok j"
    using wf t(2) bspec [OF wf nth_mem [OF t(1)]] jobs_update [OF wf, of "Some (a, q, Some p)" t] by simp
  ultimately have "run_inv XXH64 m outs (ls @ [Internal]) (h @ [(t, op_of q, r)]) ?f"
    using inv r by (simp add: run_inv_def with_table_def)
  then show ?thesis by blast
qed

lemma run_inv_later:
  assumes inv: "run_inv XXH64 m outs ls h f" and t: "t < length (jobs f)" "jobs f ! t = Some (a, q, Some (Goes_On c))"
    and step: "activity_step XXH64 c (draws (server (sys f))) (table (server (sys f))) = Inr (p, ds, ht)"
  shows "run_inv XXH64 m outs (ls @ [Internal]) h
    (f\<lparr>sys := with_table ht ds (sys f), jobs := (jobs f)[t := Some (a, q, Some p)]\<rparr>)"
proof -
  let ?f = "f\<lparr>sys := with_table ht ds (sys f), jobs := (jobs f)[t := Some (a, q, Some p)]\<rparr>" and ?s = "as_threads ls f"
  have lin: "linear XXH64 (programs ls f) m h ?s" and wf: "\<forall>j \<in> set (jobs f). job_ok j"
    using inv by (simp_all add: run_inv_def)
  have th: "threads ?s ! t = job_thread (Some (a, q, Some (Goes_On c))) (replied_by t ls)" using t by simp
  let ?s' = "\<lparr>threads = (threads ?s)[t := settle p (threads ?s ! t)], shared = ht, rand_draws = ds\<rparr>"
  have "linear XXH64 (programs ls f) m h ?s'"
  proof (cases "c = Idle")
    case True
    with step have "p = Goes_On Idle" "ds = rand_draws ?s" "ht = shared ?s" by simp_all
    moreover from this True th have "settle p (threads ?s ! t) = threads ?s ! t" by (simp add: settle_def)
    ultimately have "?s' = ?s" by simp
    with lin show ?thesis by simp
  next
    case False
    with th linear_later [OF lin, of t "draws (server (sys f))"] t(1) step show ?thesis by simp
  qed
  moreover have "as_threads (ls @ [Internal]) ?f = ?s'"
    using t map_update_upt [OF t(1), of "\<lambda>u. job_thread (jobs ?f ! u) (replied_by u (ls @ [Internal]))"
      "\<lambda>u. job_thread (jobs f ! u) (replied_by u ls)"]
    unfolding th settle_later by (simp add: as_threads_def with_table_def)
  moreover have "programs (ls @ [Internal]) ?f = programs ls f" by (simp add: programs_def)
  moreover have "\<forall>j \<in> set (jobs ?f). job_ok j"
    using wf t(2) bspec [OF wf nth_mem [OF t(1)]] jobs_update [OF wf, of "Some (a, q, Some p)" t] by simp
  ultimately show ?thesis using inv by (simp add: run_inv_def with_table_def)
qed

lemma run_inv_reply:
  assumes inv: "run_inv XXH64 m outs ls h f" and t: "t < length (jobs f)" "jobs f ! t = Some (a, (fd, aop, k), Some (Done (Answer r)))"
  shows "run_inv XXH64 m outs (ls @ [Replied t (fd, aop, k) r]) h
    (f\<lparr>sys := with_queue w ((sys f)\<lparr>server := worker_respond fd aop r (server (sys f))\<rparr>), jobs := (jobs f)[t := None]\<rparr>)"
proof -
  let ?f = "f\<lparr>sys := with_queue w ((sys f)\<lparr>server := worker_respond fd aop r (server (sys f))\<rparr>), jobs := (jobs f)[t := None]\<rparr>"
    and ?ls = "ls @ [Replied t (fd, aop, k) r]"
  have wf: "\<forall>j \<in> set (jobs f). job_ok j" and sc: "script (server (sys f)) = []"
    using inv by (simp_all add: run_inv_def)
  have "wf_request (fd, aop, k)" using t(2) bspec [OF wf nth_mem [OF t(1)]] by simp
  then have x: "meta_request fd aop k \<noteq> None" by simp
  note resp = respond_meta [OF sc x, of r]
  have same: "job_thread (jobs f ! t) (replied_by t ls) = job_thread None (replied_by t ls @ [r])" using t(2) by simp
  have "as_threads ?ls ?f = as_threads ls f"
    using t map_update_upt [OF t(1), of "\<lambda>u. job_thread (jobs ?f ! u) (replied_by u ?ls)"
      "\<lambda>u. job_thread (jobs f ! u) (replied_by u ls)"] same
    by (simp add: as_threads_def with_queue_def resp list_update_same_conv)
  moreover have "programs ?ls ?f = programs ls f" by (simp add: programs_def)
  moreover have "\<forall>j \<in> set (jobs ?f). job_ok j"
    using jobs_update [OF wf, of None t] by simp
  ultimately show ?thesis using inv by (simp add: run_inv_def with_queue_def resp)
qed

lemma no_creations_prefix: "no_creations (ls @ ks) \<Longrightarrow> no_creations ls"
  by (auto simp: no_creations_def pulled_by_def)

lemma sections_run_inv:
  assumes "sections_run XXH64 f0 ls f" and "run_inv XXH64 m outs ls0 h f0" and "no_creations (ls0 @ ls)"
  shows "\<exists>h'. run_inv XXH64 m outs (ls0 @ ls) (h @ h') f"
  using assms(1,3)
proof (induction rule: sections_run.induct)
  case nothing
  with assms(2) show ?case by (auto intro: exI [of _ "[]"])
next
  case (worker ls f t l f')
  have none: "no_creations (ls0 @ ls)" using no_creations_prefix [of "ls0 @ ls"] worker.prems by simp
  with worker.IH obtain h' where inv: "run_inv XXH64 m outs (ls0 @ ls) (h @ h') f" by blast
  from worker.hyps(2) show ?case
  proof cases
    case (pull i a w msg q)
    with run_inv_pull [OF inv pull(3,5) carries_wf [OF pull(8)]] show ?thesis by auto
  next
    case (first a q p ht)
    from run_inv_first [OF inv first(3,4) none first(5)] obtain h1 where
      "run_inv XXH64 m outs ((ls0 @ ls) @ [Internal]) ((h @ h') @ h1) f'" unfolding first(2) by blast
    then have "run_inv XXH64 m outs (ls0 @ ls @ [l]) (h @ h' @ h1) f'" by (simp add: first(1))
    then show ?thesis by blast
  next
    case (later a q c p ds ht)
    with run_inv_later [OF inv later(3,4,5)] show ?thesis by auto
  next
    case (reply a fd aop k r)
    with run_inv_reply [OF inv reply(3,4)] show ?thesis by auto
  qed
next
  case (others ls f s')
  then obtain h' where inv: "run_inv XXH64 m outs (ls0 @ ls) (h @ h') f" by blast
  from others.hyps(2) have "server s' = server (sys f)"
  proof (cases rule: server_step_cases)
    case (2 msg)
    with others.hyps(3) show ?thesis by blast
  qed simp
  then have "run_inv XXH64 m outs (ls0 @ ls) (h @ h') (f\<lparr>sys := s'\<rparr>)"
    using inv by (simp add: run_inv_def as_threads_def programs_def)
  then show ?case by blast
qed

lemma run_inv_start:
  assumes "server_ok XXH64 (server s)"
  shows "run_inv XXH64 (htable_lookup XXH64 (table (server s))) (out (server s)) [] [] (start_sections s)"
proof -
  let ?n = "length (workers s)"
  have "as_threads [] (start_sections s) = start_threads (map (map Meta) (replicate ?n [])) (draws (server s)) (table (server s))"
    by (auto simp: as_threads_def start_sections_def start_threads_def replied_by_def intro: nth_equalityI)
  moreover have "programs [] (start_sections s) = replicate ?n []"
    by (auto simp: programs_def start_sections_def pulled_by_def intro: nth_equalityI)
  moreover have "htable_inv XXH64 (table (server s))" using assms by (simp add: server_ok_def)
  ultimately show ?thesis
    using assms linear_start [of XXH64 "table (server s)" "replicate ?n []" "draws (server s)"]
    by (simp add: run_inv_def start_sections_def written_def server_ok_def)
qed

subsection \<open>A busy worker goes on\<close>

lemma busy_worker_steps:
  assumes inv: "run_inv XXH64 m outs ls h f" and t: "t < length (jobs f)" "jobs f ! t = Some (a, q, p)"
  shows "(\<exists>l f'. worker_does XXH64 t f l f') \<or>
    p = None \<and> spec_exec (op_of q) (htable_lookup XXH64 (table (server (sys f)))) = Inl Assert_Fail"
proof -
  let ?s = "as_threads ls f"
  have lin: "linear XXH64 (programs ls f) m h ?s" using inv by (simp add: run_inv_def)
  consider (first) "p = None" | (later) c where "p = Some (Goes_On c)" | (reply) b where "p = Some (Done b)"
    by (cases p; cases "the p") auto
  then show ?thesis
  proof cases
    case first
    show ?thesis
    proof (cases "start_section XXH64 (Meta (op_of q)) (table (server (sys f)))")
      case (Inl e)
      have "htable_inv XXH64 (at_stats (fold count_stats (all_changes (threads ?s)) (stats (shared ?s))) (table (server (sys f))))"
        using lin by (simp add: linear_def settled_def)
      from section_fails [OF this Inl] have sp: "spec_exec (op_of q) (htable_lookup XXH64 (table (server (sys f)))) = Inl e" .
      then have "e = Assert_Fail" using spec_exec_fault by blast
      with first sp show ?thesis by blast
    next
      case (Inr y)
      then obtain p' ht where "start_section XXH64 (Meta (op_of q)) (table (server (sys f))) = Inr (p', ht)" by (cases y) simp
      from worker_does.first [OF t(1) t(2) [unfolded first] this] show ?thesis by blast
    qed
  next
    case later
    then have th: "threads ?s ! t = job_thread (Some (a, q, Some (Goes_On c))) (replied_by t ls)" using t by simp
    have "\<exists>p' ds ht. activity_step XXH64 c (draws (server (sys f))) (table (server (sys f))) = Inr (p', ds, ht)"
    proof (cases "c = Idle")
      case False
      with th linear_later [OF lin, of t "draws (server (sys f))"] t(1) show ?thesis by auto
    qed simp
    then obtain p' ds ht where "activity_step XXH64 c (draws (server (sys f))) (table (server (sys f))) = Inr (p', ds, ht)" by blast
    from worker_does.later [OF t(1) t(2) [unfolded later] this] show ?thesis by blast
  next
    case reply
    have "thread_explained (programs ls f ! t) (events_of t h) (threads ?s ! t)" using lin t(1) by (simp add: linear_def)
    then have "map Answer (replied_by t ls) @ [b] = map (\<lambda>(x, r). Answer r) (events_of t h)"
      using t reply by (simp add: thread_explained_def)
    then have "b \<in> set (map (\<lambda>(x, r). Answer r) (events_of t h))" by (metis in_set_conv_decomp)
    then obtain r where r: "b = Answer r" by auto
    obtain fd aop k where "q = (fd, aop, k)" by (cases q) auto
    with worker_does.reply [OF t(1), of a fd aop k r XXH64] t(2) reply r show ?thesis by blast
  qed
qed

subsection \<open>Without interruptions\<close>

text \<open>
  A worker that is not interrupted does what \<open>Server_Main\<close> has as one step.
\<close>

lemma handle_respond:
  assumes x: "meta_request fd aop k = Some x" and k: "0 \<notin> set k" "length k < 2 ^ 32"
  shows "worker_handle_message XXH64 fd (frame (api_op_code aop # k)) (of_nat (length (frame (api_op_code aop # k)))) s =
    bind_result (htable_exec XXH64 x (table s)) (\<lambda>(r, ht). Inr (worker_respond fd aop r (s\<lparr>table := ht\<rparr>)))"
proof -
  have len: "length k < 2 ^ 63" using k(2) by simp
  have "worker_dispatch XXH64 fd (api_op_code aop) k (of_nat (length k)) s =
    bind_result (htable_exec XXH64 x (table s)) (\<lambda>(r, ht). Inr (worker_respond fd aop r (s\<lparr>table := ht\<rparr>)))"
    using x
    by (cases aop)
      (auto simp: worker_dispatch_def buf_to_str_all [OF len k(1)] as_reply_def bind_result_assoc case_prod_unfold Let_def
        worker_handle_open_file_def worker_handle_lock_file_def worker_handle_unlock_file_def
        worker_handle_close_file_def worker_handle_remove_file_def intro!: bind_result_cong)
  then show ?thesis unfolding handle_frame [OF len] .
qed

lemma with_table_same [simp]: "with_table (table (server s)) (draws (server s)) s = s"
  by (cases s; cases "server s") (simp add: with_table_def)

lemma with_table_sel [simp]:
  "table (server (with_table ht ds s)) = ht" "draws (server (with_table ht ds s)) = ds"
  "with_table ht' ds' (with_table ht ds s) = with_table ht' ds' s"
  by (simp_all add: with_table_def)

lemma alone_sections:
  assumes "run_alone n XXH64 p (draws (server (sys f))) (table (server (sys f))) = Inr (Answer r, ds, ht)"
    and "t < length (jobs f)" and "jobs f ! t = Some (a, q, Some p)" and "sections_run XXH64 f0 ls f"
  shows "\<exists>m. sections_run XXH64 f0 (ls @ replicate m Internal)
    (f\<lparr>sys := with_table ht ds (sys f), jobs := (jobs f)[t := Some (a, q, Some (Done (Answer r)))]\<rparr>)"
  using assms
proof (induction n arbitrary: p f ls)
  case 0
  then have "p = Done (Answer r)" "ds = draws (server (sys f))" "ht = table (server (sys f))" by (cases p; simp)+
  moreover from this 0 have "(jobs f)[t := Some (a, q, Some (Done (Answer r)))] = jobs f" by (metis list_update_id)
  ultimately show ?case using 0(4) by (intro exI [of _ 0]) (cases f, simp)
next
  case (Suc n)
  show ?case
  proof (cases p)
    case (Done b)
    with Suc.prems have "b = Answer r" "ds = draws (server (sys f))" "ht = table (server (sys f))" by simp_all
    moreover from this Done Suc.prems have "(jobs f)[t := Some (a, q, Some (Done (Answer r)))] = jobs f" by (metis list_update_id)
    ultimately show ?thesis using Suc.prems(4) by (intro exI [of _ 0]) (cases f, simp)
  next
    case (Goes_On c)
    with Suc.prems(1) obtain p1 ds1 ht1 where one: "activity_step XXH64 c (draws (server (sys f))) (table (server (sys f))) = Inr (p1, ds1, ht1)"
      "run_alone n XXH64 p1 ds1 ht1 = Inr (Answer r, ds, ht)"
      by (auto simp: bind_result_eq_Inr)
    let ?f = "f\<lparr>sys := with_table ht1 ds1 (sys f), jobs := (jobs f)[t := Some (a, q, Some p1)]\<rparr>"
    have "sections_run XXH64 f0 (ls @ [Internal]) ?f"
      using sections_run.worker [OF Suc.prems(4) worker_does.later [OF Suc.prems(2) _ one(1)]] Suc.prems(3) Goes_On by simp
    from Suc.IH [of p1 ?f, OF _ _ _ this] one(2) Suc.prems(2) obtain m where
      "sections_run XXH64 f0 ((ls @ [Internal]) @ replicate m Internal)
        (f\<lparr>sys := with_table ht ds (sys f), jobs := (jobs f)[t := Some (a, q, Some (Done (Answer r)))]\<rparr>)" by auto
    then show ?thesis by (intro exI [of _ "Suc m"]) simp
  qed
qed

lemma sections_serve:
  assumes "serves XXH64 s msg s'" and "carries msg q"
  shows "\<exists>t r n. sections_run XXH64 (start_sections s) (Pulled t q # replicate n Internal @ [Replied t q r]) (start_sections s')"
proof -
  obtain t i w' srv' where t: "t < length (workers s)" "workers s ! t = Looping i"
    "worker_turn XXH64 (unat i) (hard s) (workload (polling s)) (server s) = Inr (Serves, w', srv')"
    "pending (unat i) (workload (polling s)) = Some msg" "s' = s\<lparr>polling := (polling s)\<lparr>workload := w'\<rparr>, server := srv'\<rparr>"
    using assms(1) unfolding serves_def by blast
  obtain a w1 m where m: "workload_queue_pull (hard s) (unat i) (workload (polling s)) = Inr (Pull_Returns (Some a), w1)"
    "heap_load a (messages w1) = Inr m" "pending (unat i) (workload (polling s)) = Some (msg_fd m, msg_buffer m)" "w' = free_message a w1"
    "worker_handle_message XXH64 (msg_fd m) (raw (msg_buffer m)) (buf_size_in_bytes (msg_buffer m)) (server s) = Inr srv'"
    using worker_turn_pulls [OF t(3)] .
  have msg: "msg = (msg_fd m, msg_buffer m)" using t(4) m(3) by simp
  obtain fd aop k where q: "q = (fd, aop, k)" by (cases q) auto
  then obtain x where x: "meta_request fd aop k = Some x" "0 \<notin> set k" "length k < 2 ^ 32"
    and b: "msg_fd m = fd" "msg_buffer m = complete_msg (frame (api_op_code aop # k))"
    using assms(2) by (auto simp: carries_def msg)
  have op: "op_of q = x" using q x(1) by simp
  have h: "worker_handle_message XXH64 fd (frame (api_op_code aop # k)) (of_nat (length (frame (api_op_code aop # k)))) (server s) = Inr srv'"
    using m(5) by (simp add: b complete_msg_def Let_def)
  obtain r ht where r: "htable_exec XXH64 x (table (server s)) = Inr (r, ht)" "srv' = worker_respond fd aop r ((server s)\<lparr>table := ht\<rparr>)"
    using h unfolding handle_respond [OF x] by (auto simp: bind_result_eq_Inr)
  have "run_op 3 XXH64 (Meta x) (draws (server s)) (table (server s)) = Inr (Answer r, draws (server s), ht)"
    using r(1) by (simp add: run_op_meta)
  then obtain p ht1 where p: "start_section XXH64 (Meta x) (table (server s)) = Inr (p, ht1)"
    "run_alone 3 XXH64 p (draws (server s)) ht1 = Inr (Answer r, draws (server s), ht)"
    by (auto simp: run_op_def bind_result_eq_Inr)
  let ?f0 = "start_sections s" and ?n = "length (workers s)"
  let ?f1 = "?f0\<lparr>sys := with_queue w1 s, jobs := (jobs ?f0)[t := Some (a, q, None)]\<rparr>"
  have f0: "sys ?f0 = s" "jobs ?f0 = replicate ?n None" by (simp_all add: start_sections_def)
  have "worker_does XXH64 t ?f0 (Pulled t q) ?f1"
    using worker_does.pull [of t ?f0 i a w1 m q XXH64] t(1,2) m(1,2) assms(2) by (simp add: f0 msg)
  from sections_run.worker [OF sections_run.nothing this] have r1: "sections_run XXH64 ?f0 [Pulled t q] ?f1" by simp
  let ?f2 = "?f1\<lparr>sys := with_table ht1 (draws (server s)) (with_queue w1 s), jobs := (jobs ?f1)[t := Some (a, q, Some p)]\<rparr>"
  have "worker_does XXH64 t ?f1 Internal ?f2"
    using worker_does.first [of t ?f1 a q XXH64 p ht1] t(1) p(1) op by (simp add: f0 with_queue_def)
  from sections_run.worker [OF r1 this] have r2: "sections_run XXH64 ?f0 [Pulled t q, Internal] ?f2" by simp
  obtain n where r3: "sections_run XXH64 ?f0 ([Pulled t q, Internal] @ replicate n Internal)
      (?f2\<lparr>sys := with_table ht (draws (server s)) (sys ?f2), jobs := (jobs ?f2)[t := Some (a, q, Some (Done (Answer r)))]\<rparr>)"
    using alone_sections [OF _ _ _ r2, of 3 p r "draws (server s)" ht t a q] p(2) t(1) by (auto simp: f0 with_queue_def)
  let ?f3 = "?f2\<lparr>sys := with_table ht (draws (server s)) (sys ?f2), jobs := (jobs ?f2)[t := Some (a, q, Some (Done (Answer r)))]\<rparr>"
  have srv: "(server s)\<lparr>table := ht, draws := draws (server s)\<rparr> = (server s)\<lparr>table := ht\<rparr>" by (cases "server s") simp
  have swap: "s\<lparr>server := y, polling := x\<rparr> = s\<lparr>polling := x, server := y\<rparr>" for x y by (cases s) simp
  have none: "(replicate ?n None)[t := None] = replicate ?n None" using t(1) by (metis list_update_id nth_replicate)
  have "worker_does XXH64 t ?f3 (Replied t q r) (start_sections s')"
    using worker_does.reply [of t ?f3 a fd aop k r XXH64] t(1) q
    by (simp add: f0 start_sections_def t(5) m(4) r(2) with_queue_def with_table_def srv swap none)
  from sections_run.worker [OF r3 this] show ?thesis
    by (intro exI [of _ t] exI [of _ r] exI [of _ "Suc n"]) simp
qed

subsection \<open>Properties\<close>

text \<open>
  C5: The server with any number of workers is linearizable for requests on metadata other than creation. Whatever the
  order in which the polling loop, signals and the critical sections of the workers take their steps: when
  the messages that workers have pulled are complete lock, unlock, open, close and remove requests, then there is
  a sequential order of the requests that have been started, in which the plain map of files gives the replies of the
  workers and ends in the files of the table; each worker's requests are in the order in which it pulled them, a request that is
  answered before another one is pulled comes before it (the order at a later time extends the order at an earlier
  one); the server has written the bytes of the replies, in the order in which they were sent; and a
  worker that has a message can go on, unless it is a lock request whose assertion fails, which fails in the map too.
\<close>

theorem sections_linearize:
  assumes "server_ok XXH64 (server s)" and "sections_run XXH64 (start_sections s) ls f" and "sections_run XXH64 f ls' f'"
    and "no_creations (ls @ ls')"
  defines "m \<equiv> htable_lookup XXH64 (table (server s))" and "outs \<equiv> out (server s)"
  shows "\<exists>h h'. sections_explained XXH64 m outs ls h f \<and> sections_explained XXH64 m outs (ls @ ls') (h @ h') f' \<and>
    (\<forall>t a q p. t < length (jobs f') \<and> jobs f' ! t = Some (a, q, p) \<longrightarrow>
       (\<exists>l f2. worker_does XXH64 t f' l f2) \<or>
       p = None \<and> spec_exec (op_of q) (htable_lookup XXH64 (table (server (sys f')))) = Inl Assert_Fail)"
proof -
  obtain h where h: "run_inv XXH64 m outs ls h f"
    using sections_run_inv [OF assms(2) run_inv_start [OF assms(1)]] no_creations_prefix [OF assms(4)] by (auto simp: m_def outs_def)
  obtain h' where h': "run_inv XXH64 m outs (ls @ ls') (h @ h') f'"
    using sections_run_inv [OF assms(3) h assms(4)] by blast
  from run_inv_explained [OF h] run_inv_explained [OF h'] busy_worker_steps [OF h'] show ?thesis by blast
qed

theorem sections_linearize_witness:
  "\<exists>w s t r n f'. sample_server CACHE_EVICTION_POLICY_FIFO [Create [97] 3 False] = Inr s \<and>
     sections_run (\<lambda>_. 0) (start_sections (sample_system w s)) (Pulled t sample_close # replicate n Internal @ [Replied t sample_close r]) f' \<and>
     (\<exists>h'. sections_explained (\<lambda>_. 0) [[97] \<mapsto> new_file [97] 3 False] []
       (Pulled t sample_close # replicate n Internal @ [Replied t sample_close r]) h' f')"
proof -
  obtain w s s' where s: "sample_server CACHE_EVICTION_POLICY_FIFO [Create [97] 3 False] = Inr s" "server_ok (\<lambda>_. 0) s"
    "htable_lookup (\<lambda>_. 0) (table s) = [[97] \<mapsto> new_file [97] 3 False]" "out s = []"
    "serves (\<lambda>_. 0) (sample_system w s) (3, complete_msg (frame (api_op_code API_OP_CLOSE_FILE # [97]))) s'"
    "carries (3, complete_msg (frame (api_op_code API_OP_CLOSE_FILE # [97]))) sample_close"
    by (rule sample_serves)
  have srv: "server (sample_system w s) = s" by (simp add: sample_system_def)
  obtain t r n where run: "sections_run (\<lambda>_. 0) (start_sections (sample_system w s))
      (Pulled t sample_close # replicate n Internal @ [Replied t sample_close r]) (start_sections s')"
    using sections_serve [OF s(5,6)] by blast
  have "no_creations ([] @ (Pulled t sample_close # replicate n Internal @ [Replied t sample_close r]))"
    by (auto simp: no_creations_def pulled_by_def sample_close_def split: if_splits)
  from sections_linearize [OF _ sections_run.nothing run this] s(2) run s(1)
  show ?thesis unfolding srv s(3,4) by (metis append_Nil)
qed

end
