(* ===== verification/Server_Api.thy ===== *)
theory Server_Api
  imports Worker
begin

unbundle bit_operations_syntax

text \<open>
  The model of \<open>src/serverapi.c\<close> and \<open>include/serverapi.h\<close>: the client library, from the calls of
  its API to the bytes of the requests and from the bytes of the responses to its results.

  A \<open>Client\<close> is the process that calls the library: the global \<open>state\<close> and \<open>errno\<close>, the bytes it
  has sent on the connection, the bytes that have arrived and are not read yet (none
  left is the end of file), the outcomes of the system calls to come, and the files of
  its machine. A directory or path the process may not write is one for which
  \<open>writable\<close> does not hold.
\<close>

subsection \<open>State\<close>

datatype Errno = ENOENT | EPERM | EIO | EINVAL | ESTALE | ETIMEDOUT

record ConnectionState =
  connection_is_open :: bool
  conn_fd :: int
  socket_name :: "cstring option"
  last_operation :: int

record Client =
  conn :: ConnectionState
  errno :: "Errno option"
  sent :: "byte list"
  incoming :: "byte list"
  wr_script :: "write_outcome list"
  rd_script :: "read_outcome list"
  client_files :: "cstring \<rightharpoonup> byte list"
  writable :: "cstring \<Rightarrow> bool"

definition initial_state :: ConnectionState where
  "initial_state = \<lparr>connection_is_open = False, conn_fd = - 1, socket_name = None, last_operation = 255\<rparr>"

definition set_last_operation :: "ApiOp \<Rightarrow> Client \<Rightarrow> Client" where
  "set_last_operation aop c = c\<lparr>conn := (conn c)\<lparr>last_operation := uint (api_op_code aop)\<rparr>\<rparr>"

definition fail_with :: "Errno \<Rightarrow> Client \<Rightarrow> int \<times> Client" where
  "fail_with e c = (- 1, c\<lparr>errno := Some e\<rparr>)"

definition on_io_err :: "Client \<Rightarrow> int \<times> Client" where
  "on_io_err c = fail_with EIO c"

definition err_closed_connection :: "Client \<Rightarrow> int \<times> Client" where
  "err_closed_connection c = fail_with ENOENT c"

subsection \<open>Input and output\<close>

definition client_write :: "byte list \<Rightarrow> Client \<Rightarrow> int \<times> Client" where
  "client_write bs c =
     (case write_bytes (wr_script c) bs of (r, bs', sc) \<Rightarrow> (r, c\<lparr>sent := sent c @ bs', wr_script := sc\<rparr>))"

definition client_read :: "u64 \<Rightarrow> Client \<Rightarrow> int \<times> byte list \<times> Client" where
  "client_read n c =
     (case read_bytes (rd_script c) (incoming c) n of
        (r, bs, strm, sc) \<Rightarrow> (r, bs, c\<lparr>incoming := strm, rd_script := sc\<rparr>))"

text \<open>One call of \<open>write\<close> or \<open>read\<close> for one byte, not repeated after a signal.\<close>

definition write_op :: "ApiOp \<Rightarrow> Client \<Rightarrow> int \<times> Client" where
  "write_op aop c =
     (case wr_script c of
        [] \<Rightarrow> (1, c\<lparr>sent := sent c @ [api_op_code aop]\<rparr>)
      | Wrote n # sc \<Rightarrow>
          if n = 0 then (0, c\<lparr>wr_script := sc\<rparr>) else (1, c\<lparr>sent := sent c @ [api_op_code aop], wr_script := sc\<rparr>)
      | _ # sc \<Rightarrow> (- 1, c\<lparr>wr_script := sc\<rparr>))"

definition read_response_code :: "Client \<Rightarrow> int \<times> byte \<times> Client" where
  "read_response_code c =
     (let ready = (\<lambda>c. case incoming c of [] \<Rightarrow> (0, 0, c) | b # bs \<Rightarrow> (1, b, c\<lparr>incoming := bs\<rparr>)) in
      case rd_script c of
        [] \<Rightarrow> ready c
      | Got n # sc \<Rightarrow> ready (c\<lparr>rd_script := sc\<rparr>)
      | _ # sc \<Rightarrow> (- 1, 0, c\<lparr>rd_script := sc\<rparr>))"

definition write_u64 :: "u64 \<Rightarrow> Client \<Rightarrow> int \<times> Client" where
  "write_u64 data c = client_write (u64_to_big_endian data) c"

text \<open>The bytes of a zeroed buffer of \<open>n\<close> bytes into which \<open>bs\<close> has been read.\<close>

definition filled :: "nat \<Rightarrow> byte list \<Rightarrow> byte list" where
  "filled n bs = bs @ replicate (n - length bs) 0"

definition file_contents :: "cstring \<Rightarrow> Client \<Rightarrow> int \<times> byte list \<times> Client" where
  "file_contents filepath c =
     (case client_files c filepath of
        None \<Rightarrow> (- 1, [], c\<lparr>errno := Some EIO\<rparr>)
      | Some bs \<Rightarrow> (0, bs, c))"

text \<open>\<open>basename\<close> of the GNU library: what follows the last slash, 47 in ASCII.\<close>

definition gnu_basename :: "cstring \<Rightarrow> cstring" where
  "gnu_basename p = rev (takeWhile (\<lambda>b. b \<noteq> 47) (rev p))"

definition write_file_to_dir ::
    "cstring option \<Rightarrow> byte list \<Rightarrow> u64 \<Rightarrow> byte list \<Rightarrow> u64 \<Rightarrow> Client \<Rightarrow> (int \<times> Client) result" where
  "write_file_to_dir dirname original_pathname pathname_size bytes bytes_size c =
     bind_result (buf_to_str original_pathname pathname_size) (\<lambda>pathname.
     case dirname of
       None \<Rightarrow> Inl Null_Deref
     | Some dir \<Rightarrow>
         let path = dir @ [47] @ gnu_basename pathname in
         if \<not> writable c path then Inr (- 1, c)
         else if length bytes < unat bytes_size then Inl Out_Of_Bounds
         else
           let c = c\<lparr>client_files := (client_files c)(path \<mapsto> take (unat bytes_size) bytes)\<rparr> in
           if bytes_size = 0 then Inr (- 1, c) else Inr (0, c))"

subsection \<open>Responses with files\<close>

fun receive_files :: "nat \<Rightarrow> cstring option \<Rightarrow> int \<Rightarrow> Client \<Rightarrow> (int \<times> Client) result" where
  "receive_files 0 dirname e c = Inr (0, c)"
| "receive_files (Suc n) dirname e c =
     (case client_read 16 c of (r1, lens, c) \<Rightarrow>
      if e OR r1 < 0 then Inr (on_io_err c)
      else
        bind_result (big_endian_to_u64 (filled 16 lens)) (\<lambda>len_path.
        bind_result (big_endian_to_u64 (drop 8 (filled 16 lens))) (\<lambda>len_contents.
        case client_read (len_path + len_contents) c of (r2, bs, c) \<Rightarrow>
        let block = filled (unat (len_path + len_contents)) bs; e = e OR r1 OR r2 in
        if e = 0 then Inr (on_io_err c)
        else
          bind_result (write_file_to_dir dirname block len_path (drop (unat len_path) block) len_contents c) (\<lambda>(r3, c).
            if e OR r3 < 0 then Inr (- 1, c) else receive_files n dirname (e OR r3) c))))"

definition handle_response_with_files :: "cstring option \<Rightarrow> Client \<Rightarrow> (int \<times> Client) result" where
  "handle_response_with_files dirname c =
     (case client_read 1 c of (r1, code, c) \<Rightarrow>
      if r1 < 0 \<or> filled 1 code = [RESPONSE_ERR] then Inr (- 1, c)
      else
        case client_read 8 c of (r2, num, c) \<Rightarrow>
        if r1 OR r2 < 0 then Inr (- 1, c)
        else
          bind_result (big_endian_to_u64 (filled 8 num)) (\<lambda>num_files.
            receive_files (unat num_files) dirname (r1 OR r2) c))"

subsection \<open>Requests\<close>

definition make_simple_request :: "ApiOp \<Rightarrow> cstring \<Rightarrow> Errno \<Rightarrow> Client \<Rightarrow> int \<times> Client" where
  "make_simple_request aop pathname err_response_meaning c =
     (let c = set_last_operation aop c in
      if \<not> connection_is_open (conn c) then err_closed_connection c
      else
        case write_u64 HEADER_MAGIC_CODE c of (r1, c) \<Rightarrow>
        case write_u64 (1 + of_nat (length pathname)) c of (r2, c) \<Rightarrow>
        case write_op aop c of (r3, c) \<Rightarrow>
        case client_write pathname c of (r4, c) \<Rightarrow>
        let e = r1 OR r2 OR r3 OR r4 in
        if e < 0 then on_io_err c
        else
          case read_response_code c of (r5, code, c) \<Rightarrow>
          if e OR r5 < 0 then on_io_err c
          else if code = RESPONSE_ERR then fail_with err_response_meaning c
          else (0, c))"

definition make_request_with_two_args :: "ApiOp \<Rightarrow> byte list \<Rightarrow> byte list \<Rightarrow> Client \<Rightarrow> int \<times> Client" where
  "make_request_with_two_args aop arg1 arg2 c =
     (let c = set_last_operation aop c in
      if \<not> connection_is_open (conn c) then err_closed_connection c
      else
        case write_u64 HEADER_MAGIC_CODE c of (r1, c) \<Rightarrow>
        case write_u64 (1 + 8 + 8 + of_nat (length arg1) + of_nat (length arg2)) c of (r2, c) \<Rightarrow>
        case write_op aop c of (r3, c) \<Rightarrow>
        case write_u64 (of_nat (length arg1)) c of (r4, c) \<Rightarrow>
        case write_u64 (of_nat (length arg2)) c of (r5, c) \<Rightarrow>
        case client_write arg1 c of (r6, c) \<Rightarrow>
        case client_write arg2 c of (r7, c) \<Rightarrow>
        if r1 OR r2 OR r3 OR r4 OR r5 OR r6 OR r7 < 0 then on_io_err c else (0, c))"

subsection \<open>The interface\<close>

text \<open>What happens in one attempt to connect: the clock, \<open>socket\<close> and \<open>connect\<close>.\<close>

record Attempt =
  now_sec :: int
  socket_ret :: int
  connect_ret :: int

definition CLIENT_SUN_PATH_SIZE :: nat where
  "CLIENT_SUN_PATH_SIZE = 108"

definition attempt_connection :: "cstring \<Rightarrow> Attempt \<Rightarrow> Client \<Rightarrow> (int \<times> Client) result" where
  "attempt_connection sockname a c =
     (if socket_ret a < 0 then Inr (- 1, c)
      else if CLIENT_SUN_PATH_SIZE \<le> length sockname then Inl Out_Of_Bounds
      else
        let c = c\<lparr>conn := (conn c)\<lparr>conn_fd := socket_ret a, socket_name := Some sockname\<rparr>\<rparr> in
        if connect_ret a < 0 then Inr (- 1, c)
        else Inr (0, c\<lparr>conn := (conn c)\<lparr>connection_is_open := True, conn_fd := socket_ret a\<rparr>\<rparr>))"

text \<open>The loop goes on as long as there are attempts; a list of attempts that ends too early is \<open>Stuck\<close>.\<close>

fun connect_loop :: "Attempt list \<Rightarrow> cstring \<Rightarrow> int \<Rightarrow> int \<Rightarrow> Client \<Rightarrow> (int \<times> Client) result" where
  "connect_loop [] sockname msec abstime c = Inl Stuck"
| "connect_loop (a # as) sockname msec abstime c =
     (if abstime < now_sec a \<and> 0 < abstime then Inr (fail_with ETIMEDOUT c)
      else
        bind_result (attempt_connection sockname a c) (\<lambda>(e, c).
          if e \<noteq> 0 then bind_result (wait_msec [] msec) (\<lambda>_. connect_loop as sockname msec abstime c)
          else Inr (0, c)))"

definition openConnection :: "Attempt list \<Rightarrow> cstring \<Rightarrow> int \<Rightarrow> int \<Rightarrow> Client \<Rightarrow> (int \<times> Client) result" where
  "openConnection as sockname msec abstime c =
     (let c = set_last_operation API_OP_OPEN_CONNECTION c in
      if connection_is_open (conn c) then Inr (err_closed_connection c)
      else connect_loop as sockname msec abstime c)"

definition closeConnection :: "int \<Rightarrow> cstring \<Rightarrow> Client \<Rightarrow> (int \<times> Client) result" where
  "closeConnection close_ret sockname c =
     (let c = set_last_operation API_OP_CLOSE_CONNECTION c in
      if \<not> connection_is_open (conn c) then Inr (fail_with ENOENT c)
      else
        case socket_name (conn c) of
          None \<Rightarrow> Inl Null_Deref
        | Some name \<Rightarrow>
            if name \<noteq> sockname then Inr (fail_with EPERM c)
            else if close_ret = - 1 then Inr (- 1, c)
            else Inr (0, c\<lparr>conn := (conn c)\<lparr>connection_is_open := False, socket_name := None, conn_fd := - 1\<rparr>\<rparr>))"

definition readFile :: "cstring \<Rightarrow> Client \<Rightarrow> (int \<times> byte list option \<times> Client) result" where
  "readFile pathname c =
     (case make_simple_request API_OP_READ_FILE pathname ESTALE c of (e, c) \<Rightarrow>
      if e < 0 then Inr (- 1, None, c)
      else
        case client_read 8 c of (r1, len, c) \<Rightarrow>
        if e OR r1 < 0 then (case on_io_err c of (r, c) \<Rightarrow> Inr (r, None, c))
        else
          bind_result (big_endian_to_u64 (filled 8 len)) (\<lambda>sz.
          case client_read sz c of (r2, bs, c) \<Rightarrow>
          if e OR r1 OR r2 < 0 then (case on_io_err c of (r, c) \<Rightarrow> Inr (r, Some (filled (unat sz) bs), c))
          else Inr (0, Some (filled (unat sz) bs), c)))"

definition readNFiles :: "int \<Rightarrow> cstring option \<Rightarrow> Client \<Rightarrow> (int \<times> Client) result" where
  "readNFiles n dirname c =
     bind_result (c_assert (dirname \<noteq> None)) (\<lambda>_.
     let c = set_last_operation API_OP_READ_N_FILES c in
     if n < 0 then Inr (fail_with EINVAL c)
     else if \<not> connection_is_open (conn c) then Inr (err_closed_connection c)
     else
       case write_u64 HEADER_MAGIC_CODE c of (r1, c) \<Rightarrow>
       case write_u64 (1 + 8) c of (r2, c) \<Rightarrow>
       case write_op API_OP_READ_N_FILES c of (r3, c) \<Rightarrow>
       case write_u64 (word_of_int n) c of (r4, c) \<Rightarrow>
       let e = r1 OR r2 OR r3 OR r4 in
       if e < 0 then Inr (on_io_err c)
       else
         case client_read 1 c of (r5, code, c) \<Rightarrow>
         if e OR r5 < 0 \<or> filled 1 code = [RESPONSE_ERR] then Inr (- 1, c)
         else
           case client_read 8 c of (r6, num, c) \<Rightarrow>
           if e OR r5 OR r6 < 0 then Inr (- 1, c)
           else
             bind_result (big_endian_to_u64 (filled 8 num)) (\<lambda>num_files.
               receive_files (unat num_files) dirname (e OR r5 OR r6) c))"

definition O_CREATE :: int where "O_CREATE = 1"

definition O_LOCK :: int where "O_LOCK = 2"

definition openFile :: "cstring \<Rightarrow> int \<Rightarrow> Client \<Rightarrow> int \<times> Client" where
  "openFile pathname flags c =
     (if flags = O_CREATE then make_simple_request API_OP_OPEN_FILE_CREATE pathname EINVAL c
      else if flags = O_LOCK then make_simple_request API_OP_OPEN_FILE_LOCK pathname EINVAL c
      else if flags = O_CREATE OR O_LOCK then make_simple_request API_OP_OPEN_FILE_CREATE_LOCK pathname EINVAL c
      else if flags = 0 then make_simple_request API_OP_OPEN_FILE pathname EINVAL c
      else fail_with EINVAL c)"

definition lockFile :: "cstring \<Rightarrow> Client \<Rightarrow> int \<times> Client" where
  "lockFile pathname c = make_simple_request API_OP_LOCK_FILE pathname EINVAL c"

definition unlockFile :: "cstring \<Rightarrow> Client \<Rightarrow> int \<times> Client" where
  "unlockFile pathname c = make_simple_request API_OP_UNLOCK_FILE pathname EINVAL c"

definition closeFile :: "cstring \<Rightarrow> Client \<Rightarrow> int \<times> Client" where
  "closeFile pathname c = make_simple_request API_OP_CLOSE_FILE pathname EINVAL c"

definition removeFile :: "cstring \<Rightarrow> Client \<Rightarrow> int \<times> Client" where
  "removeFile pathname c = make_simple_request API_OP_REMOVE_FILE pathname EINVAL c"

definition writeFile :: "cstring \<Rightarrow> cstring option \<Rightarrow> Client \<Rightarrow> (int \<times> Client) result" where
  "writeFile filepath dirname c =
     (case file_contents filepath c of (e, bs, c) \<Rightarrow>
      if e \<noteq> 0 then Inr (- 1, c)
      else
        case make_request_with_two_args API_OP_WRITE_FILE filepath bs c of (e, c) \<Rightarrow>
        if e < 0 then Inr (- 1, c) else handle_response_with_files dirname c)"

definition appendToFile ::
    "(cstring \<Rightarrow> cstring option) \<Rightarrow> cstring \<Rightarrow> byte list \<Rightarrow> cstring option \<Rightarrow> Client \<Rightarrow> (int \<times> Client) result" where
  "appendToFile realpath pathname bs dirname c =
     (case realpath pathname of
        None \<Rightarrow> Inr (- 1, c)
      | Some abs_path \<Rightarrow>
          case make_request_with_two_args API_OP_APPEND_TO_FILE abs_path bs c of (e, c) \<Rightarrow>
          if e \<noteq> 0 then Inr (- 1, c) else handle_response_with_files dirname c)"


subsection \<open>Undisturbed system calls\<close>

definition connected :: "Client \<Rightarrow> bool" where
  "connected c \<longleftrightarrow> connection_is_open (conn c) \<and> wr_script c = [] \<and> rd_script c = []"

text \<open>The client after a request: the operation is remembered and its bytes are sent.\<close>

definition requested :: "ApiOp \<Rightarrow> byte list \<Rightarrow> Client \<Rightarrow> Client" where
  "requested aop bs c = (set_last_operation aop c)\<lparr>sent := sent c @ bs\<rparr>"

lemma requested_sel [simp]:
  "sent (requested aop bs c) = sent c @ bs" "incoming (requested aop bs c) = incoming c"
  "connected (requested aop bs c) = connected c" "client_files (requested aop bs c) = client_files c"
  "writable (requested aop bs c) = writable c" "rd_script (requested aop bs c) = rd_script c"
  by (simp_all add: requested_def set_last_operation_def connected_def)

lemma client_write_idle: "wr_script c = [] \<Longrightarrow> client_write bs c = (1, c\<lparr>sent := sent c @ bs\<rparr>)"
  by (simp add: client_write_def)

lemma write_op_idle: "wr_script c = [] \<Longrightarrow> write_op aop c = (1, c\<lparr>sent := sent c @ [api_op_code aop]\<rparr>)"
  by (simp add: write_op_def)

lemma client_read_idle:
  assumes "rd_script c = []" and "unat n \<le> length (incoming c)"
  shows "client_read n c = (size_to_int n, take (unat n) (incoming c), c\<lparr>incoming := drop (unat n) (incoming c)\<rparr>)"
  using assms by (simp add: client_read_def read_bytes_def)

lemma size_to_int_small:
  assumes "n < 2 ^ 31"
  shows "size_to_int (of_nat n) = int n"
proof -
  have "size_to_int (of_nat n) = signed_take_bit 31 (int n)"
    using assms by (simp add: size_to_int_def signed_of_nat unsigned_of_nat take_bit_nat_eq_self)
  also have "\<dots> = int n" using assms by (intro signed_take_bit_int_eq_self) simp_all
  finally show ?thesis .
qed

lemma frame_pieces:
  "u64_to_big_endian HEADER_MAGIC_CODE @ u64_to_big_endian (1 + of_nat (length k)) @ [opc] @ k = frame (opc # k)"
  by (simp add: frame_def)

lemma simple_request_sends:
  assumes "connected c"
  shows "make_simple_request aop k m c =
    (case incoming c of
       [] \<Rightarrow> (0, requested aop (frame (api_op_code aop # k)) c)
     | b # bs \<Rightarrow>
         if b = RESPONSE_ERR then (- 1, (requested aop (frame (api_op_code aop # k)) c)\<lparr>incoming := bs, errno := Some m\<rparr>)
         else (0, (requested aop (frame (api_op_code aop # k)) c)\<lparr>incoming := bs\<rparr>))"
  using assms frame_pieces [of k "api_op_code aop"]
  by (cases "incoming c")
    (auto simp: make_simple_request_def requested_def connected_def set_last_operation_def write_u64_def client_write_idle
      write_op_idle read_response_code_def fail_with_def Let_def RESPONSE_ERR_def)

lemma two_args_request_sends:
  assumes "connected c"
  shows "make_request_with_two_args aop a b c =
    (0, requested aop (frame (api_op_code aop # u64_to_big_endian (of_nat (length a)) @ u64_to_big_endian (of_nat (length b)) @ a @ b)) c)"
  using assms
  by (auto simp: make_request_with_two_args_def requested_def connected_def set_last_operation_def write_u64_def
      client_write_idle write_op_idle frame_def Let_def add_ac)

lemma filled_full [simp]: "length bs = n \<Longrightarrow> filled n bs = bs"
  by (simp add: filled_def)

lemma readFile_receives:
  assumes c: "connected c" and i: "incoming c = RESPONSE_OK # u64_to_big_endian (of_nat (length data)) @ data @ rest"
    and len: "length data < 2 ^ 31"
  shows "readFile k c = Inr (0, Some data, (requested API_OP_READ_FILE (frame (api_op_code API_OP_READ_FILE # k)) c)\<lparr>incoming := rest\<rparr>)"
proof -
  let ?c = "requested API_OP_READ_FILE (frame (api_op_code API_OP_READ_FILE # k)) c"
  have rd: "rd_script c = []" using c by (simp add: connected_def)
  have u: "unat (of_nat (length data) :: u64) = length data" using len by (intro unat_of_nat_u64) simp
  have "make_simple_request API_OP_READ_FILE k ESTALE c =
      (0, ?c\<lparr>incoming := u64_to_big_endian (of_nat (length data)) @ data @ rest\<rparr>)"
    using simple_request_sends [OF c] i by (simp add: RESPONSE_OK_def RESPONSE_ERR_def)
  moreover have "client_read 8 (?c\<lparr>incoming := u64_to_big_endian (of_nat (length data)) @ data @ rest\<rparr>) =
      (8, u64_to_big_endian (of_nat (length data)), ?c\<lparr>incoming := data @ rest\<rparr>)"
    using client_read_idle [of "?c\<lparr>incoming := u64_to_big_endian (of_nat (length data)) @ data @ rest\<rparr>" 8] rd
      size_to_int_small [of 8] by simp
  moreover have "client_read (of_nat (length data)) (?c\<lparr>incoming := data @ rest\<rparr>) = (int (length data), data, ?c\<lparr>incoming := rest\<rparr>)"
    using client_read_idle [of "?c\<lparr>incoming := data @ rest\<rparr>" "of_nat (length data)"] rd u size_to_int_small [OF len] by simp
  ultimately show ?thesis by (simp add: readFile_def u u64.dec_enc)
qed

subsection \<open>Receiving files\<close>

text \<open>The bytes in which the server sends a file, and the file system after a client has stored files.\<close>

definition file_bytes :: "File \<Rightarrow> byte list" where
  "file_bytes f = concat (map snd (file_pieces 0 f))"

fun store_files :: "cstring \<Rightarrow> File list \<Rightarrow> (cstring \<rightharpoonup> byte list) \<Rightarrow> (cstring \<rightharpoonup> byte list)" where
  "store_files dir [] m = m"
| "store_files dir (f # fs) m = store_files dir fs (m(dir @ [47] @ gnu_basename (key f) \<mapsto> content_bytes f))"

definition sendable :: "File \<Rightarrow> bool" where
  "sendable f \<longleftrightarrow> file_ok f \<and> 0 \<notin> set (key f) \<and> content_bytes f \<noteq> [] \<and> length (key f) + length (content_bytes f) < 2 ^ 31"

lemma content_bytes_length: "file_ok f \<Longrightarrow> length (content_bytes f) = unat (length_in_bytes f)"
  by (auto simp: content_bytes_def file_ok_def split: option.splits)

lemma receive_file_step:
  assumes c: "incoming c = file_bytes f @ rest" "rd_script c = []" and e: "0 < e"
    and f: "sendable f" "writable c (dir @ [47] @ gnu_basename (key f))"
  obtains e' where "0 < e'" and "receive_files (Suc n) (Some dir) e c = receive_files n (Some dir) e'
    (c\<lparr>incoming := rest, client_files := (client_files c)(dir @ [47] @ gnu_basename (key f) \<mapsto> content_bytes f)\<rparr>)"
proof -
  let ?k = "key f" and ?d = "content_bytes f"
  have sz: "length_in_bytes f = of_nat (length ?d)" using f(1) content_bytes_length [of f] by (simp add: sendable_def)
  have lt: "length ?k < 2 ^ 64" "length ?d < 2 ^ 64" "length ?k + length ?d < 2 ^ 64" "length ?k + length ?d < 2 ^ 31"
    using f(1) by (simp_all add: sendable_def)
  note u = unat_of_nat_u64 [OF lt(1)] unat_of_nat_u64 [OF lt(2)] unat_of_nat_u64 [OF lt(3)]
  let ?lens = "u64_to_big_endian (of_nat (length ?k)) @ u64_to_big_endian (of_nat (length ?d))"
  have i: "incoming c = ?lens @ (?k @ ?d) @ rest"
    using c(1) by (simp add: file_bytes_def file_pieces_def sz)
  have r1: "client_read 16 c = (16, ?lens, c\<lparr>incoming := (?k @ ?d) @ rest\<rparr>)"
    using client_read_idle [of c 16] c(2) i size_to_int_small [of 16] by simp
  have be: "big_endian_to_u64 ?lens = Inr (of_nat (length ?k))" "big_endian_to_u64 (drop 8 ?lens) = Inr (of_nat (length ?d))"
    by (rule u64.dec_prefix, rule u64.dec_second_last)
  have sum: "(of_nat (length ?k) + of_nat (length ?d) :: u64) = of_nat (length ?k + length ?d)" by simp
  have r2: "client_read (of_nat (length ?k + length ?d)) (c\<lparr>incoming := (?k @ ?d) @ rest\<rparr>) =
      (int (length ?k + length ?d), ?k @ ?d, c\<lparr>incoming := rest\<rparr>)"
    using client_read_idle [of "c\<lparr>incoming := (?k @ ?d) @ rest\<rparr>" "of_nat (length ?k + length ?d)"] c(2)
      u(3) size_to_int_small [OF lt(4)] by simp
  have pos: "0 \<le> e OR 16 OR int (length ?k + length ?d)" using e by simp
  have ne: "0 < e OR 16 OR int (length ?k + length ?d)"
  proof -
    have "bit (e OR 16 OR int (length ?k + length ?d)) 4" by (simp add: bit_or_iff)
    with pos show ?thesis by (metis bit_0_eq bot_apply bot_bool_def order_le_less)
  qed
  have b: "buf_to_str (?k @ ?d) (of_nat (length ?k)) = Inr ?k"
    using f(1) u(1) by (auto simp: buf_to_str_def sendable_def takeWhile_eq_all_conv)
  have dnz: "(of_nat (length ?d) :: u64) \<noteq> 0" using of_nat_u64_eq_0 [OF lt(2)] f(1) by (simp add: sendable_def)
  let ?c = "c\<lparr>incoming := rest, client_files := (client_files c)(dir @ [47] @ gnu_basename ?k \<mapsto> ?d)\<rparr>"
  have w: "write_file_to_dir (Some dir) (?k @ ?d) (of_nat (length ?k)) ?d (of_nat (length ?d)) (c\<lparr>incoming := rest\<rparr>) = Inr (0, ?c)"
    using f(2) b dnz u(2) by (simp add: write_file_to_dir_def Let_def)
  have "receive_files (Suc n) (Some dir) e c = receive_files n (Some dir) (e OR 16 OR int (length ?k + length ?d)) ?c"
    using r1 r2 be w pos ne e u(1) unat_of_nat_u64 [OF lt(3)] unfolding receive_files.simps
    by (simp only: prod.case filled_full length_append length_u64_to_big_endian bind_result_Inr sum Let_def) simp
  with ne show thesis by (rule that)
qed

lemma receive_files_stores:
  assumes "incoming c = concat (map file_bytes fs) @ rest" and "rd_script c = []" and "0 < e"
    and "\<forall>f \<in> set fs. sendable f \<and> writable c (dir @ [47] @ gnu_basename (key f))"
  shows "receive_files (length fs) (Some dir) e c =
    Inr (0, c\<lparr>incoming := rest, client_files := store_files dir fs (client_files c)\<rparr>)"
  using assms
proof (induction fs arbitrary: c e)
  case (Cons f fs)
  let ?c = "c\<lparr>incoming := concat (map file_bytes fs) @ rest,
    client_files := (client_files c)(dir @ [47] @ gnu_basename (key f) \<mapsto> content_bytes f)\<rparr>"
  obtain e' where e': "0 < e'" "receive_files (length (f # fs)) (Some dir) e c = receive_files (length fs) (Some dir) e' ?c"
    using receive_file_step [of c f "concat (map file_bytes fs) @ rest" e dir "length fs"] Cons.prems by auto
  have "receive_files (length fs) (Some dir) e' ?c =
      Inr (0, ?c\<lparr>incoming := rest, client_files := store_files dir fs (client_files ?c)\<rparr>)"
    using Cons.prems(2,4) e'(1) by (intro Cons.IH) simp_all
  with e'(2) show ?case by simp
qed simp


lemma handle_response_stores:
  assumes i: "incoming c = RESPONSE_OK # u64_to_big_endian (of_nat (length fs)) @ concat (map file_bytes fs) @ rest"
    and rd: "rd_script c = []" and n: "length fs < 2 ^ 64"
    and fs: "\<forall>f \<in> set fs. sendable f \<and> writable c (dir @ [47] @ gnu_basename (key f))"
  shows "handle_response_with_files (Some dir) c =
    Inr (0, c\<lparr>incoming := rest, client_files := store_files dir fs (client_files c)\<rparr>)"
proof -
  let ?b = "concat (map file_bytes fs) @ rest"
  have r1: "client_read 1 c = (1, [RESPONSE_OK], c\<lparr>incoming := u64_to_big_endian (of_nat (length fs)) @ ?b\<rparr>)"
    using client_read_idle [OF rd, of 1] i size_to_int_small [of 1] by simp
  have r2: "client_read 8 (c\<lparr>incoming := u64_to_big_endian (of_nat (length fs)) @ ?b\<rparr>) =
      (8, u64_to_big_endian (of_nat (length fs)), c\<lparr>incoming := ?b\<rparr>)"
    using client_read_idle [of "c\<lparr>incoming := u64_to_big_endian (of_nat (length fs)) @ ?b\<rparr>" 8] rd size_to_int_small [of 8] by simp
  have "receive_files (length fs) (Some dir) (1 OR 8) (c\<lparr>incoming := ?b\<rparr>) =
      Inr (0, (c\<lparr>incoming := ?b\<rparr>)\<lparr>incoming := rest, client_files := store_files dir fs (client_files (c\<lparr>incoming := ?b\<rparr>))\<rparr>)"
    using fs rd by (intro receive_files_stores) simp_all
  moreover have "[RESPONSE_OK] \<noteq> [RESPONSE_ERR]" by (simp add: RESPONSE_OK_def RESPONSE_ERR_def)
  ultimately show ?thesis using r1 r2
    by (simp add: handle_response_with_files_def unat_of_nat_u64 [OF n] u64.dec_enc)
qed

lemma writeFile_stores:
  assumes c: "connected c" and k: "client_files c k = Some data"
    and i: "incoming c = RESPONSE_OK # u64_to_big_endian (of_nat (length fs)) @ concat (map file_bytes fs) @ rest"
    and n: "length fs < 2 ^ 64" and fs: "\<forall>f \<in> set fs. sendable f \<and> writable c (dir @ [47] @ gnu_basename (key f))"
  shows "writeFile k (Some dir) c =
    Inr (0, (requested API_OP_WRITE_FILE (write_message k data) c)\<lparr>incoming := rest, client_files := store_files dir fs (client_files c)\<rparr>)"
proof -
  have "make_request_with_two_args API_OP_WRITE_FILE k data c = (0, requested API_OP_WRITE_FILE (write_message k data) c)"
    using two_args_request_sends [OF c] by (simp only: write_message_def)
  moreover have "rd_script c = []" using c by (simp add: connected_def)
  ultimately show ?thesis
    using handle_response_stores [of "requested API_OP_WRITE_FILE (write_message k data) c" fs rest dir] k i n fs
    by (simp add: writeFile_def file_contents_def)
qed

subsection \<open>Properties\<close>

definition sample_client :: "byte list \<Rightarrow> Client" where
  "sample_client bs =
     \<lparr>conn = \<lparr>connection_is_open = True, conn_fd = 3, socket_name = Some [115], last_operation = 0\<rparr>, errno = None,
      sent = [], incoming = bs, wr_script = [], rd_script = [], client_files = [[97] \<mapsto> [7, 8]], writable = (\<lambda>_. True)\<rparr>"

lemma connected_sample [simp]: "connected (sample_client bs)"
  by (simp add: sample_client_def connected_def)



text \<open>An interrupted one-byte write is not repeated: the request fails although its frame is half sent.\<close>

lemma interrupted_request:
  "case make_simple_request API_OP_LOCK_FILE [97] EINVAL
      ((sample_client [0])\<lparr>wr_script := [Wrote 8, Wrote 8, Write_Eintr]\<rparr>) of
     (r, c) \<Rightarrow> r = - 1 \<and> errno c = Some EIO \<and> length (sent c) = 17"
  by code_simp

text \<open>Opening a connection twice is reported as a connection that is closed.\<close>

lemma openConnection_twice:
  "connection_is_open (conn c) \<Longrightarrow>
     \<exists>c'. openConnection as name msec abstime c = Inr (- 1, c') \<and> errno c' = Some ENOENT"
  by (simp add: openConnection_def set_last_operation_def err_closed_connection_def fail_with_def)

end
