(* ===== verification/Cli.thy ===== *)
theory Cli
  imports Utilities
begin

text \<open>
  The model of \<open>src/client/cli.c\<close> and \<open>cli.h\<close>: the parser of the client's command line, which builds
  a linked list of actions in the heap. What successive calls of \<open>getopt\<close> return is its argument: the
  option character and \<open>optarg\<close>, which is NULL for an option without an argument.

  The lemmas show that the pointer code appends: the list in the heap holds the actions in the
  order of the options, with the directories of \<open>-D\<close> and \<open>-d\<close> in the action before them.
\<close>

subsection \<open>Data\<close>

datatype ClientErr =
    CLIENT_ERR_OK
  | CLIENT_ERR_ALLOC
  | CLIENT_ERR_BAD_OPTION_CAP_D
  | CLIENT_ERR_BAD_OPTION_CAP_R
  | CLIENT_ERR_BAD_OPTION_D
  | CLIENT_ERR_BAD_OPTION_P
  | CLIENT_ERR_UNKNOWN_OPTION
  | CLIENT_ERR_REPEATED_P
  | CLIENT_ERR_REPEATED_H
  | CLIENT_ERR_REPEATED_F
  | CLIENT_ERR_MISSING_ARG

record Action =
  action_type :: char
  arg_s1 :: "cstring option"
  arg_s2 :: "cstring option"
  arg_i :: int
  action_next :: ptr

record CliArgs =
  cli_err :: ClientErr
  msec_between_connection_attempts :: u32
  msec_between_actions :: u32
  sec_max_attempt_time :: u32
  cli_socket_name :: "cstring option"
  help_message :: bool
  log_level :: int
  cli_head :: ptr
  cli_last :: ptr
  actions :: "Action heap"

text \<open>A call of \<open>getopt\<close>: the character and \<open>optarg\<close>.\<close>

type_synonym getopt_ret = "char \<times> cstring option"

subsection \<open>Numbers and strings of the C library\<close>

definition is_digit :: "byte \<Rightarrow> bool" where
  "is_digit b \<longleftrightarrow> 48 \<le> b \<and> b \<le> 57"

definition is_space :: "byte \<Rightarrow> bool" where
  "is_space b \<longleftrightarrow> b = 32 \<or> 9 \<le> b \<and> b \<le> 13"

fun digits_value :: "int \<Rightarrow> cstring \<Rightarrow> int" where
  "digits_value n [] = n"
| "digits_value n (b # bs) = (if is_digit b then digits_value (10 * n + uint b - 48) bs else n)"

definition atoi :: "cstring \<Rightarrow> int result" where
  "atoi s =
     (let t = dropWhile is_space s;
          n = (case t of [] \<Rightarrow> 0
               | b # bs \<Rightarrow> if b = 45 then - digits_value 0 bs else if b = 43 then digits_value 0 bs else digits_value 0 t) in
      if n < - (2 ^ 31) \<or> 2 ^ 31 - 1 < n then Inl Int_Overflow else Inr n)"

text \<open>\<open>strrchr\<close>: the position of the last occurrence.\<close>

definition strrchr :: "cstring \<Rightarrow> byte \<Rightarrow> nat option" where
  "strrchr s b =
     (if b \<in> set s then Some (length s - 1 - length (takeWhile (\<lambda>x. x \<noteq> b) (rev s))) else None)"

definition ascii :: "string \<Rightarrow> cstring" where
  "ascii s = map (\<lambda>c. of_nat (of_char c)) s"

definition optarg_string :: "cstring option \<Rightarrow> cstring result" where
  "optarg_string arg = (case arg of None \<Rightarrow> Inl Null_Deref | Some s \<Rightarrow> Inr s)"

subsection \<open>Operations\<close>

definition new_action :: "char \<Rightarrow> cstring option \<Rightarrow> Action" where
  "new_action t s = \<lparr>action_type = t, arg_s1 = s, arg_s2 = None, arg_i = 0, action_next = None\<rparr>"

definition cli_args_add_action :: "Action \<Rightarrow> CliArgs \<Rightarrow> CliArgs result" where
  "cli_args_add_action action args =
     (case heap_alloc (action\<lparr>action_next := None\<rparr>) (actions args) of (a, h) \<Rightarrow>
      let args = args\<lparr>actions := h\<rparr> in
      case cli_last args of
        Some l \<Rightarrow>
          bind_result (heap_load l h) (\<lambda>x.
            Inr (args\<lparr>actions := heap_store l (x\<lparr>action_next := Some a\<rparr>) h, cli_last := Some a\<rparr>))
      | None \<Rightarrow> Inr (args\<lparr>cli_head := Some a, cli_last := Some a\<rparr>))"

definition cli_args_set_socket_name :: "cstring option \<Rightarrow> CliArgs \<Rightarrow> CliArgs" where
  "cli_args_set_socket_name arg args =
     (if cli_socket_name args \<noteq> None then args\<lparr>cli_err := CLIENT_ERR_REPEATED_F\<rparr>
      else args\<lparr>cli_socket_name := arg\<rparr>)"

definition cli_args_add_action_write_dir :: "cstring option \<Rightarrow> CliArgs \<Rightarrow> CliArgs result" where
  "cli_args_add_action_write_dir arg args =
     bind_result (optarg_string arg) (\<lambda>s.
     let action = new_action CHR ''w'' (Some s) in
     case (strrchr s 44, strrchr s 61) of
       (Some comma, Some equal_sign) \<Rightarrow>
         if equal_sign = comma + 2 \<and> s ! (comma + 1) \<noteq> 110 then
           bind_result (atoi (drop (equal_sign + 1) s)) (\<lambda>n.
             cli_args_add_action (action\<lparr>arg_s1 := Some (take comma s), arg_i := n\<rparr>) args)
         else cli_args_add_action action args
     | _ \<Rightarrow> cli_args_add_action action args)"

text \<open>\<open>-D\<close> and \<open>-d\<close>: the directory goes into the last action.\<close>

definition set_last_dir :: "cstring option \<Rightarrow> CliArgs \<Rightarrow> CliArgs result" where
  "set_last_dir arg args =
     (if arg = None then Inr (args\<lparr>cli_err := CLIENT_ERR_MISSING_ARG\<rparr>)
      else
        bind_result (deref (cli_last args)) (\<lambda>l.
        bind_result (heap_load l (actions args)) (\<lambda>x.
          Inr (args\<lparr>actions := heap_store l (x\<lparr>arg_s2 := arg\<rparr>) (actions args)\<rparr>))))"

definition cli_args_set_evicted_dir :: "cstring option \<Rightarrow> CliArgs \<Rightarrow> CliArgs result" where
  "cli_args_set_evicted_dir arg args = set_last_dir arg args"

definition cli_args_set_read_dir :: "cstring option \<Rightarrow> CliArgs \<Rightarrow> CliArgs result" where
  "cli_args_set_read_dir arg args = set_last_dir arg args"

text \<open>The common body of the options whose only argument is a list of files.\<close>

definition add_files_action :: "char \<Rightarrow> cstring option \<Rightarrow> CliArgs \<Rightarrow> CliArgs result" where
  "add_files_action t arg args =
     (if arg = None then Inr (args\<lparr>cli_err := CLIENT_ERR_MISSING_ARG\<rparr>)
      else cli_args_add_action (new_action t arg) args)"

definition cli_args_add_action_write_files :: "cstring option \<Rightarrow> CliArgs \<Rightarrow> CliArgs result" where
  "cli_args_add_action_write_files arg args = add_files_action CHR ''W'' arg args"

definition cli_args_add_action_read :: "cstring option \<Rightarrow> CliArgs \<Rightarrow> CliArgs result" where
  "cli_args_add_action_read arg args = add_files_action CHR ''r'' arg args"

definition cli_args_add_action_lock :: "cstring option \<Rightarrow> CliArgs \<Rightarrow> CliArgs result" where
  "cli_args_add_action_lock arg args = add_files_action CHR ''l'' arg args"

definition cli_args_add_action_unlock :: "cstring option \<Rightarrow> CliArgs \<Rightarrow> CliArgs result" where
  "cli_args_add_action_unlock arg args = add_files_action CHR ''u'' arg args"

definition cli_args_add_action_remove :: "cstring option \<Rightarrow> CliArgs \<Rightarrow> CliArgs result" where
  "cli_args_add_action_remove arg args = add_files_action CHR ''c'' arg args"

definition cli_args_add_action_read_random :: "cstring option \<Rightarrow> CliArgs \<Rightarrow> CliArgs result" where
  "cli_args_add_action_read_random arg args =
     (let action = new_action CHR ''R'' None in
      case arg of
        None \<Rightarrow> cli_args_add_action action args
      | Some s \<Rightarrow>
          if take 2 s = ascii ''n='' then
            bind_result (atoi (drop 2 s)) (\<lambda>n. cli_args_add_action (action\<lparr>arg_i := n\<rparr>) args)
          else cli_args_add_action action (args\<lparr>cli_err := CLIENT_ERR_BAD_OPTION_CAP_R\<rparr>))"

text \<open>The numbers are \<open>int\<close> results of \<open>atoi\<close> stored in \<open>unsigned\<close> fields.\<close>

definition cli_args_set_wait :: "cstring option \<Rightarrow> CliArgs \<Rightarrow> CliArgs result" where
  "cli_args_set_wait arg args =
     bind_result (optarg_string arg) (\<lambda>s. bind_result (atoi s) (\<lambda>n. Inr (args\<lparr>msec_between_actions := word_of_int n\<rparr>)))"

definition cli_args_set_msec_between_connection_attempts :: "cstring option \<Rightarrow> CliArgs \<Rightarrow> CliArgs result" where
  "cli_args_set_msec_between_connection_attempts arg args =
     bind_result (optarg_string arg) (\<lambda>s.
     bind_result (atoi s) (\<lambda>n. Inr (args\<lparr>msec_between_connection_attempts := word_of_int n\<rparr>)))"

definition cli_args_set_max_attempt_time :: "cstring option \<Rightarrow> CliArgs \<Rightarrow> CliArgs result" where
  "cli_args_set_max_attempt_time arg args =
     bind_result (optarg_string arg) (\<lambda>s. bind_result (atoi s) (\<lambda>n. Inr (args\<lparr>sec_max_attempt_time := word_of_int n\<rparr>)))"

text \<open>The levels of the log library: \<open>LOG_TRACE\<close> is 0 and \<open>LOG_ERROR\<close> is 4.\<close>

definition cli_args_enable_log :: "cstring option \<Rightarrow> CliArgs \<Rightarrow> CliArgs" where
  "cli_args_enable_log arg args =
     (if arg = None \<or> arg = Some (ascii ''info'') then args\<lparr>log_level := 2\<rparr>
      else if arg = Some (ascii ''error'') then args\<lparr>log_level := 4\<rparr>
      else if arg = Some (ascii ''warn'') then args\<lparr>log_level := 3\<rparr>
      else if arg = Some (ascii ''debug'') then args\<lparr>log_level := 1\<rparr>
      else if arg = Some (ascii ''trace'') then args\<lparr>log_level := 0\<rparr>
      else args\<lparr>cli_err := CLIENT_ERR_BAD_OPTION_P\<rparr>)"

definition cli_args_enable_help_message :: "CliArgs \<Rightarrow> CliArgs" where
  "cli_args_enable_help_message args =
     (if help_message args then args\<lparr>cli_err := CLIENT_ERR_REPEATED_H\<rparr> else args\<lparr>help_message := True\<rparr>)"

text \<open>\<open>msec_between_actions\<close> is not initialised: it is what the memory holds.\<close>

definition cli_args_default :: "u32 \<Rightarrow> CliArgs" where
  "cli_args_default junk =
     \<lparr>cli_err = CLIENT_ERR_OK, msec_between_connection_attempts = 300, msec_between_actions = junk,
      sec_max_attempt_time = 5, cli_socket_name = None, help_message = False, log_level = 1000,
      cli_head = None, cli_last = None, actions = heap_empty\<rparr>"

text \<open>The body of the \<open>switch\<close>.\<close>

definition parse_option :: "char \<Rightarrow> getopt_ret \<Rightarrow> CliArgs \<Rightarrow> CliArgs result" where
  "parse_option last_option ret args =
     (case ret of (c, arg) \<Rightarrow>
      if c = CHR ''Z'' then cli_args_set_msec_between_connection_attempts arg args
      else if c = CHR ''z'' then cli_args_set_max_attempt_time arg args
      else if c = CHR ''h'' then Inr (cli_args_enable_help_message args)
      else if c = CHR ''f'' then Inr (cli_args_set_socket_name arg args)
      else if c = CHR ''w'' then cli_args_add_action_write_dir arg args
      else if c = CHR ''W'' then cli_args_add_action_write_files arg args
      else if c = CHR ''D'' then
        if last_option = CHR ''w'' \<or> last_option = CHR ''W'' then cli_args_set_evicted_dir arg args
        else Inr (args\<lparr>cli_err := CLIENT_ERR_BAD_OPTION_CAP_D\<rparr>)
      else if c = CHR ''r'' then cli_args_add_action_read arg args
      else if c = CHR ''R'' then cli_args_add_action_read_random arg args
      else if c = CHR ''d'' then
        if last_option = CHR ''r'' \<or> last_option = CHR ''R'' then cli_args_set_read_dir arg args
        else Inr (args\<lparr>cli_err := CLIENT_ERR_BAD_OPTION_D\<rparr>)
      else if c = CHR ''t'' then cli_args_set_wait arg args
      else if c = CHR ''l'' then cli_args_add_action_lock arg args
      else if c = CHR ''u'' then cli_args_add_action_unlock arg args
      else if c = CHR ''c'' then cli_args_add_action_remove arg args
      else if c = CHR ''p'' then Inr (cli_args_enable_log arg args)
      else Inr (args\<lparr>cli_err := CLIENT_ERR_UNKNOWN_OPTION\<rparr>))"

fun parse_loop :: "char \<Rightarrow> getopt_ret list \<Rightarrow> CliArgs \<Rightarrow> CliArgs result" where
  "parse_loop last_option [] args = Inr args"
| "parse_loop last_option (ret # rets) args =
     bind_result (parse_option last_option ret args) (\<lambda>args.
       if cli_err args \<noteq> CLIENT_ERR_OK then Inr args else parse_loop (fst ret) rets args)"

definition cli_args_parse :: "u32 \<Rightarrow> getopt_ret list \<Rightarrow> CliArgs result" where
  "cli_args_parse junk rets = parse_loop (CHR 0x00) rets (cli_args_default junk)"

text \<open>The loop that frees the actions; \<open>fuel\<close> is one more than the number of addresses in use.\<close>

fun free_actions :: "nat \<Rightarrow> ptr \<Rightarrow> Action heap \<Rightarrow> Action heap result" where
  "free_actions fuel None h = Inr h"
| "free_actions 0 (Some a) h = Inl Stuck"
| "free_actions (Suc fuel) (Some a) h =
     bind_result (heap_load a h) (\<lambda>x. free_actions fuel (action_next x) (heap_free a h))"

definition cli_args_free :: "CliArgs \<Rightarrow> Action heap result" where
  "cli_args_free args = free_actions (Suc (brk (actions args))) (cli_head args) (actions args)"


subsection \<open>The list in the heap\<close>

text \<open>The actions that a loop over the \<open>next\<close> pointers meets.\<close>

fun walk_actions :: "nat \<Rightarrow> ptr \<Rightarrow> Action heap \<Rightarrow> Action list result" where
  "walk_actions fuel None h = Inr []"
| "walk_actions 0 (Some a) h = Inl Stuck"
| "walk_actions (Suc fuel) (Some a) h =
     bind_result (heap_load a h) (\<lambda>x. bind_result (walk_actions fuel (action_next x) h) (\<lambda>xs. Inr (x # xs)))"

fun achain :: "(nat \<rightharpoonup> Action) \<Rightarrow> ptr \<Rightarrow> nat list \<Rightarrow> Action list \<Rightarrow> bool" where
  "achain m p [] ys \<longleftrightarrow> p = None \<and> ys = []"
| "achain m p (a # as) ys \<longleftrightarrow>
     p = Some a \<and> (\<exists>y ys'. ys = y # ys' \<and> m a = Some y \<and> achain m (action_next y) as ys')"

definition cli_rep :: "CliArgs \<Rightarrow> nat list \<Rightarrow> Action list \<Rightarrow> bool" where
  "cli_rep args as ys \<longleftrightarrow>
     heap_ok (actions args) \<and> distinct as \<and> achain (cells (actions args)) (cli_head args) as ys \<and>
     cli_last args = (if as = [] then None else Some (last as))"

lemma achain_dom: "achain m p as ys \<Longrightarrow> set as \<subseteq> dom m"
  by (induction as arbitrary: p ys) auto

lemma achain_length: "achain m p as ys \<Longrightarrow> length as = length ys"
  by (induction as arbitrary: p ys) auto

lemma achain_last:
  assumes "achain m p (as @ [l]) ys"
  shows "\<exists>ys0 y. ys = ys0 @ [y] \<and> m l = Some y \<and> action_next y = None \<and>
    (\<forall>m' bs zs. (\<forall>a \<in> set as. m' a = m a) \<longrightarrow> achain m' (Some l) (l # bs) zs \<longrightarrow> achain m' p (as @ l # bs) (ys0 @ zs))"
  using assms
proof (induction as arbitrary: p ys)
  case (Cons a as)
  then obtain y ys' where y: "p = Some a" "ys = y # ys'" "m a = Some y" "achain m (action_next y) (as @ [l]) ys'" by auto
  from Cons.IH [OF y(4)] obtain ys0 z where z: "ys' = ys0 @ [z]" "m l = Some z" "action_next z = None"
    "\<forall>m' bs zs. (\<forall>a \<in> set as. m' a = m a) \<longrightarrow> achain m' (Some l) (l # bs) zs \<longrightarrow>
       achain m' (action_next y) (as @ l # bs) (ys0 @ zs)"
    by blast
  then show ?case using y by (intro exI [of _ "y # ys0"] exI [of _ z]) auto
qed auto

lemma cli_rep_last:
  assumes "cli_rep args as ys" and "as \<noteq> []"
  obtains as0 l ys0 y where "as = as0 @ [l]" and "ys = ys0 @ [y]" and "l \<notin> set as0" and "cli_last args = Some l"
    and "cells (actions args) l = Some y" and "action_next y = None"
    and "\<And>m' bs zs. (\<forall>a \<in> set as0. m' a = cells (actions args) a) \<Longrightarrow> achain m' (Some l) (l # bs) zs \<Longrightarrow>
      achain m' (cli_head args) (as0 @ l # bs) (ys0 @ zs)"
proof -
  from assms(2) obtain as0 l where as: "as = as0 @ [l]" by (metis append_butlast_last_id)
  then have "achain (cells (actions args)) (cli_head args) (as0 @ [l]) ys" using assms(1) by (simp add: cli_rep_def)
  from achain_last [OF this] show thesis using that as assms(1) by (auto simp: cli_rep_def)
qed

text \<open>Adding an action appends it.\<close>

lemma add_action_appends:
  assumes rep: "cli_rep args as ys"
  shows "\<exists>args' a ys'. cli_args_add_action x args = Inr args' \<and> cli_rep args' (as @ [a]) (ys' @ [x\<lparr>action_next := None\<rparr>]) \<and>
    map (\<lambda>y. y\<lparr>action_next := None\<rparr>) ys' = map (\<lambda>y. y\<lparr>action_next := None\<rparr>) ys \<and> cli_err args' = cli_err args"
proof -
  let ?h = "actions args" and ?a = "brk (actions args)" and ?x = "x\<lparr>action_next := None\<rparr>"
  define h where "h = ?h\<lparr>cells := (cells ?h)(?a \<mapsto> ?x), brk := Suc ?a\<rparr>"
  have ok: "heap_ok ?h" using rep by (simp add: cli_rep_def)
  have hok: "heap_ok h" unfolding h_def using ok by (rule heap_ok_alloc)
  have fresh: "?a \<notin> set as" using achain_dom [of "cells ?h"] rep heap_ok_fresh [OF ok] by (fastforce simp: cli_rep_def)
  show ?thesis
  proof (cases "as = []")
    case True
    with rep have "ys = []" "cli_last args = None" by (simp_all add: cli_rep_def)
    with True hok show ?thesis
      by (intro exI [of _ "args\<lparr>actions := h, cli_head := Some ?a, cli_last := Some ?a\<rparr>"] exI [of _ ?a] exI [of _ "[]"])
        (simp add: cli_args_add_action_def heap_alloc_def h_def cli_rep_def)
  next
    case False
    obtain as0 l ys0 y where l: "as = as0 @ [l]" "ys = ys0 @ [y]" "l \<notin> set as0" "cli_last args = Some l"
      "cells ?h l = Some y" "action_next y = None"
      and ext: "\<And>m' bs zs. (\<forall>a \<in> set as0. m' a = cells ?h a) \<Longrightarrow> achain m' (Some l) (l # bs) zs \<Longrightarrow>
        achain m' (cli_head args) (as0 @ l # bs) (ys0 @ zs)"
      using cli_rep_last [OF rep False] by metis
    have la: "l \<noteq> ?a" and notin: "?a \<notin> set as0" using fresh l(1) by auto
    let ?y = "y\<lparr>action_next := Some ?a\<rparr>"
    let ?h' = "heap_store l ?y h"
    have "heap_ok ?h'" using hok l(5) la by (intro heap_ok_store) (auto simp: h_def)
    moreover have "achain (cells ?h') (cli_head args) (as0 @ l # [?a]) (ys0 @ [?y, ?x])"
      using l(3) notin la by (intro ext) (auto simp: h_def)
    ultimately have "cli_rep (args\<lparr>actions := ?h', cli_last := Some ?a\<rparr>) (as @ [?a]) ((ys0 @ [?y]) @ [?x])"
      using rep fresh l(1) by (simp add: cli_rep_def)
    moreover have "cli_args_add_action x args = Inr (args\<lparr>actions := ?h', cli_last := Some ?a\<rparr>)"
      using l(4,5) la by (simp add: cli_args_add_action_def heap_alloc_def h_def)
    ultimately show ?thesis using l(2)
      by (intro exI [of _ "args\<lparr>actions := ?h', cli_last := Some ?a\<rparr>"] exI [of _ ?a] exI [of _ "ys0 @ [?y]"]) simp
  qed
qed

lemma set_last_dir_sets:
  assumes rep: "cli_rep args as ys" and ne: "as \<noteq> []"
  shows "\<exists>args' ys0 y. set_last_dir (Some d) args = Inr args' \<and> ys = ys0 @ [y] \<and>
    cli_rep args' as (ys0 @ [y\<lparr>arg_s2 := Some d\<rparr>]) \<and> cli_err args' = cli_err args"
proof -
  let ?h = "actions args"
  obtain as0 l ys0 y where l: "as = as0 @ [l]" "ys = ys0 @ [y]" "l \<notin> set as0" "cli_last args = Some l"
    "cells ?h l = Some y" "action_next y = None"
    and ext: "\<And>m' bs zs. (\<forall>a \<in> set as0. m' a = cells ?h a) \<Longrightarrow> achain m' (Some l) (l # bs) zs \<Longrightarrow>
      achain m' (cli_head args) (as0 @ l # bs) (ys0 @ zs)"
    using cli_rep_last [OF rep ne] by metis
  let ?h' = "heap_store l (y\<lparr>arg_s2 := Some d\<rparr>) ?h"
  have "heap_ok ?h'" using rep l(5) by (intro heap_ok_store) (auto simp: cli_rep_def)
  moreover have "achain (cells ?h') (cli_head args) (as0 @ l # []) (ys0 @ [y\<lparr>arg_s2 := Some d\<rparr>])"
    using l(3,6) by (intro ext) auto
  ultimately have "cli_rep (args\<lparr>actions := ?h'\<rparr>) as (ys0 @ [y\<lparr>arg_s2 := Some d\<rparr>])"
    using rep l(1) by (simp add: cli_rep_def)
  moreover have "set_last_dir (Some d) args = Inr (args\<lparr>actions := ?h'\<rparr>)"
    using l(4,5) by (simp add: set_last_dir_def)
  ultimately show ?thesis using l(2) by auto
qed

lemma walk_achain:
  assumes "achain (cells h) p as ys" and "length as \<le> fuel"
  shows "walk_actions fuel p h = Inr ys"
  using assms
proof (induction as arbitrary: p ys fuel)
  case (Cons a as)
  then obtain n where "fuel = Suc n" by (cases fuel) auto
  with Cons show ?case by auto
qed simp

lemma free_achain:
  assumes "achain (cells h) p as ys" and "distinct as" and "length as \<le> fuel"
  shows "\<exists>h'. free_actions fuel p h = Inr h' \<and> dom (cells h') = dom (cells h) - set as"
  using assms
proof (induction as arbitrary: p ys fuel h)
  case (Cons a as)
  then obtain n where n: "fuel = Suc n" by (cases fuel) auto
  from Cons.prems obtain y ys' where y: "p = Some a" "cells h a = Some y" "achain (cells h) (action_next y) as ys'" by auto
  have fr: "achain m q as zs \<Longrightarrow> a \<notin> set as \<Longrightarrow> achain (m(a := None)) q as zs" for m q zs
    by (induction as arbitrary: q zs) auto
  have "achain (cells (heap_free a h)) (action_next y) as ys'" using fr [OF y(3)] Cons.prems(2) by simp
  moreover have "distinct as" "length as \<le> n" using Cons.prems(2,3) n by simp_all
  ultimately obtain h' where
    "free_actions n (action_next y) (heap_free a h) = Inr h'" "dom (cells h') = dom (cells (heap_free a h)) - set as"
    using Cons.IH by blast
  with n y show ?case by (auto simp: dom_def)
qed simp


subsection \<open>The actions of a command line\<close>

definition is_action :: "char \<Rightarrow> bool" where
  "is_action c \<longleftrightarrow> c \<in> set ''wWrRluc''"

text \<open>An action of the command line: the option, its argument and the directory given after it.\<close>

type_synonym spec_action = "char \<times> cstring option \<times> cstring option"

fun spec_option :: "spec_action list \<Rightarrow> getopt_ret \<Rightarrow> spec_action list" where
  "spec_option xs (c, arg) =
     (if is_action c then xs @ [(c, arg, None)]
      else if c = CHR ''D'' \<or> c = CHR ''d'' then
        (case last xs of (t, s, _) \<Rightarrow> butlast xs @ [(t, s, arg)])
      else xs)"

text \<open>
  The argument of \<open>-w\<close> may end in a number of files and that of \<open>-R\<close> is only a number; the other
  actions keep their argument as it is.
\<close>

fun action_matches :: "Action \<Rightarrow> spec_action \<Rightarrow> bool" where
  "action_matches x (c, arg, dir) \<longleftrightarrow>
     action_type x = c \<and> arg_s2 x = dir \<and> (c \<notin> {CHR ''w'', CHR ''R''} \<longrightarrow> arg_s1 x = arg)"

definition parsed :: "CliArgs \<Rightarrow> spec_action list \<Rightarrow> bool" where
  "parsed args xs \<longleftrightarrow> (\<exists>as ys. cli_rep args as ys \<and> list_all2 action_matches ys xs)"

lemma matches_next [simp]: "action_matches (x\<lparr>action_next := p\<rparr>) s = action_matches x s"
  by (cases s) simp

lemma matches_cong:
  assumes "map (\<lambda>y. y\<lparr>action_next := None\<rparr>) ys' = map (\<lambda>y. y\<lparr>action_next := None\<rparr>) ys"
  shows "list_all2 action_matches ys' xs = list_all2 action_matches ys xs"
proof -
  have "list_all2 action_matches (map (\<lambda>y. y\<lparr>action_next := None\<rparr>) zs) xs = list_all2 action_matches zs xs" for zs
    by (simp add: list_all2_map1)
  then show ?thesis using assms by metis
qed

lemma parsed_add:
  assumes "parsed args xs" and "action_matches x s"
  shows "\<exists>args'. cli_args_add_action x args = Inr args' \<and> parsed args' (xs @ [s]) \<and> cli_err args' = cli_err args"
proof -
  obtain as ys where r: "cli_rep args as ys" "list_all2 action_matches ys xs" using assms(1) by (auto simp: parsed_def)
  obtain args' a ys' where a: "cli_args_add_action x args = Inr args'" "cli_rep args' (as @ [a]) (ys' @ [x\<lparr>action_next := None\<rparr>])"
    "map (\<lambda>y. y\<lparr>action_next := None\<rparr>) ys' = map (\<lambda>y. y\<lparr>action_next := None\<rparr>) ys" "cli_err args' = cli_err args"
    using add_action_appends [OF r(1), of x] by blast
  have "list_all2 action_matches (ys' @ [x\<lparr>action_next := None\<rparr>]) (xs @ [s])"
    using r(2) matches_cong [OF a(3)] assms(2) by (simp add: list_all2_appendI)
  with a show ?thesis by (auto simp: parsed_def)
qed

lemma parsed_other:
  assumes "parsed args xs" and "actions args' = actions args" and "cli_head args' = cli_head args" and "cli_last args' = cli_last args"
  shows "parsed args' xs"
  using assms by (auto simp: parsed_def cli_rep_def)

lemma parsed_dir:
  assumes p: "parsed args xs" and ne: "xs \<noteq> []" and d: "set_last_dir arg args = Inr args'" and e: "cli_err args' = CLIENT_ERR_OK"
  shows "parsed args' (case last xs of (t, s, _) \<Rightarrow> butlast xs @ [(t, s, arg)])"
proof -
  obtain dir where arg: "arg = Some dir" using d e by (cases arg) (auto simp: set_last_dir_def)
  obtain as ys where r: "cli_rep args as ys" "list_all2 action_matches ys xs" using p by (auto simp: parsed_def)
  have "as \<noteq> []" using ne r achain_length [of _ _ as ys] by (auto simp: cli_rep_def)
  then obtain ys0 y where y: "ys = ys0 @ [y]" "cli_rep args' as (ys0 @ [y\<lparr>arg_s2 := Some dir\<rparr>])"
    using set_last_dir_sets [OF r(1), of dir] d arg by auto
  obtain xs0 t s o1 where x: "xs = xs0 @ [(t, s, o1)]" using ne by (metis append_butlast_last_id surj_pair)
  have "list_all2 action_matches ys0 xs0" "action_matches y (t, s, o1)"
    using r(2) unfolding y(1) x by (auto simp: list_all2_append2 dest: list_all2_lengthD)
  then have "list_all2 action_matches (ys0 @ [y\<lparr>arg_s2 := Some dir\<rparr>]) (xs0 @ [(t, s, arg)])"
    using arg by (simp add: list_all2_appendI)
  with y(2) x show ?thesis by (auto simp: parsed_def)
qed

lemma write_dir_adds:
  assumes "cli_args_add_action_write_dir arg args = Inr args'"
  shows "\<exists>x. cli_args_add_action x args = Inr args' \<and> action_matches x (CHR ''w'', arg, None)"
proof -
  obtain s where s: "arg = Some s" using assms by (cases arg) (auto simp: cli_args_add_action_write_dir_def optarg_string_def)
  let ?x = "new_action CHR ''w'' (Some s)"
  show ?thesis
  proof (cases "\<exists>comma. strrchr s 44 = Some comma \<and> strrchr s 61 = Some (comma + 2) \<and> s ! (comma + 1) \<noteq> 110")
    case True
    then obtain comma n where "cli_args_add_action (?x\<lparr>arg_s1 := Some (take comma s), arg_i := n\<rparr>) args = Inr args'"
      using assms s by (auto simp: cli_args_add_action_write_dir_def optarg_string_def bind_result_eq_Inr)
    then show ?thesis by (intro exI [of _ "?x\<lparr>arg_s1 := Some (take comma s), arg_i := n\<rparr>"]) (simp add: new_action_def)
  next
    case False
    then have "cli_args_add_action ?x args = Inr args'"
      using assms s by (cases "strrchr s 44"; cases "strrchr s 61") (auto simp: cli_args_add_action_write_dir_def optarg_string_def Let_def)
    then show ?thesis by (intro exI [of _ ?x]) (simp add: new_action_def)
  qed
qed

lemma read_random_adds:
  assumes "cli_args_add_action_read_random arg args = Inr args'"
  shows "\<exists>x e. cli_args_add_action x (args\<lparr>cli_err := e\<rparr>) = Inr args' \<and> action_matches x (CHR ''R'', arg, None)"
proof (cases arg)
  case None
  with assms have "cli_args_add_action (new_action CHR ''R'' None) (args\<lparr>cli_err := cli_err args\<rparr>) = Inr args'"
    by (simp add: cli_args_add_action_read_random_def)
  then show ?thesis by (intro exI [of _ "new_action CHR ''R'' None"] exI [of _ "cli_err args"]) (simp add: new_action_def)
next
  case (Some s)
  show ?thesis
  proof (cases "take 2 s = ascii ''n=''")
    case True
    with assms Some obtain n where "cli_args_add_action ((new_action CHR ''R'' None)\<lparr>arg_i := n\<rparr>) (args\<lparr>cli_err := cli_err args\<rparr>) = Inr args'"
      by (auto simp: cli_args_add_action_read_random_def bind_result_eq_Inr)
    then show ?thesis
      by (intro exI [of _ "(new_action CHR ''R'' None)\<lparr>arg_i := n\<rparr>"] exI [of _ "cli_err args"]) (simp add: new_action_def)
  next
    case False
    with assms Some have "cli_args_add_action (new_action CHR ''R'' None) (args\<lparr>cli_err := CLIENT_ERR_BAD_OPTION_CAP_R\<rparr>) = Inr args'"
      by (simp add: cli_args_add_action_read_random_def)
    then show ?thesis by (intro exI [of _ "new_action CHR ''R'' None"] exI) (auto simp: new_action_def)
  qed
qed

lemma parse_option_files:
  assumes "parse_option last_option (c, arg) args = Inr args'" and "c \<in> set ''Wrluc''"
  shows "add_files_action c arg args = Inr args'"
  using assms by (auto simp: parse_option_def cli_args_add_action_write_files_def cli_args_add_action_read_def
      cli_args_add_action_lock_def cli_args_add_action_unlock_def cli_args_add_action_remove_def)

lemma parse_option_dir:
  assumes "parse_option last_option (c, arg) args = Inr args'" and "c \<in> {CHR ''D'', CHR ''d''}"
    and "cli_err args' = CLIENT_ERR_OK"
  shows "set_last_dir arg args = Inr args' \<and> is_action last_option"
  using assms by (auto simp: parse_option_def cli_args_set_evicted_dir_def cli_args_set_read_dir_def is_action_def split: if_splits)

lemma parse_option_setting:
  assumes "parse_option last_option (c, arg) args = Inr args'" and "\<not> is_action c" "c \<notin> {CHR ''D'', CHR ''d''}"
  shows "actions args' = actions args" "cli_head args' = cli_head args" "cli_last args' = cli_last args"
  using assms
  by (auto simp: parse_option_def is_action_def cli_args_set_msec_between_connection_attempts_def
      cli_args_set_max_attempt_time_def cli_args_enable_help_message_def cli_args_set_socket_name_def cli_args_set_wait_def
      cli_args_enable_log_def bind_result_eq_Inr split: if_splits)

lemma parse_option_spec:
  assumes p: "parsed args xs" and o: "parse_option last_option ret args = Inr args'" and e: "cli_err args' = CLIENT_ERR_OK"
    and lo: "is_action last_option \<longrightarrow> xs \<noteq> []"
  shows "parsed args' (spec_option xs ret)"
proof -
  obtain c arg where ret: "ret = (c, arg)" by (cases ret)
  have add: "parsed args' (xs @ [(c, arg, None)])" if "cli_args_add_action x args1 = Inr args'"
    "action_matches x (c, arg, None)" "parsed args1 xs" for x args1
    using parsed_add [OF that(3,2)] that(1) by auto
  have files: "parsed args' (xs @ [(c, arg, None)])" if "add_files_action c arg args = Inr args'"
    using that e p add [of "new_action c arg" args] by (auto simp: add_files_action_def new_action_def split: if_splits)
  consider "c = CHR ''w''" | "c = CHR ''R''" | "c \<in> set ''Wrluc''" | "c \<in> {CHR ''D'', CHR ''d''}"
    | "\<not> is_action c" "c \<notin> {CHR ''D'', CHR ''d''}"
    by (auto simp: is_action_def)
  then show ?thesis
  proof cases
    case 1
    then have "cli_args_add_action_write_dir arg args = Inr args'" using o by (simp add: ret parse_option_def)
    with write_dir_adds add p 1 have "parsed args' (xs @ [(c, arg, None)])" by blast
    with 1 show ?thesis by (simp add: ret is_action_def)
  next
    case 2
    then have "cli_args_add_action_read_random arg args = Inr args'" using o by (simp add: ret parse_option_def)
    then obtain x er where "cli_args_add_action x (args\<lparr>cli_err := er\<rparr>) = Inr args'" "action_matches x (c, arg, None)"
      using read_random_adds 2 by blast
    moreover have "parsed (args\<lparr>cli_err := er\<rparr>) xs" using p by (rule parsed_other) simp_all
    ultimately have "parsed args' (xs @ [(c, arg, None)])" by (rule add)
    with 2 show ?thesis by (simp add: ret is_action_def)
  next
    case 3
    moreover from this have "is_action c" by (auto simp: is_action_def)
    ultimately show ?thesis using files parse_option_files [OF o [unfolded ret]] by (simp add: ret)
  next
    case 4
    then have "set_last_dir arg args = Inr args'" "xs \<noteq> []" using parse_option_dir [OF o [unfolded ret] _ e] lo by simp_all
    with parsed_dir [OF p _ _ e] 4 show ?thesis by (auto simp: ret is_action_def)
  next
    case 5
    from parsed_other [OF p parse_option_setting [OF o [unfolded ret] 5]] 5 show ?thesis by (simp add: ret)
  qed
qed

lemma spec_option_ne: "is_action c \<Longrightarrow> spec_option xs (c, arg) \<noteq> []"
  by simp

lemma parse_loop_spec:
  assumes "parsed args xs" and "is_action last_option \<longrightarrow> xs \<noteq> []"
    and "parse_loop last_option rets args = Inr args'" and "cli_err args' = CLIENT_ERR_OK"
  shows "parsed args' (foldl spec_option xs rets)"
  using assms
proof (induction rets arbitrary: last_option args xs)
  case (Cons ret rets)
  obtain args1 where a: "parse_option last_option ret args = Inr args1"
    "(if cli_err args1 \<noteq> CLIENT_ERR_OK then Inr args1 else parse_loop (fst ret) rets args1) = Inr args'"
    using Cons.prems(3) by (auto simp: bind_result_eq_Inr)
  have e: "cli_err args1 = CLIENT_ERR_OK" using a(2) Cons.prems(4) by (auto split: if_splits)
  have "parsed args1 (spec_option xs ret)" using parse_option_spec [OF Cons.prems(1) a(1) e Cons.prems(2)] .
  moreover have "is_action (fst ret) \<longrightarrow> spec_option xs ret \<noteq> []" using spec_option_ne [of "fst ret" xs "snd ret"] by simp
  ultimately show ?case using Cons.IH a(2) e Cons.prems(4) by simp
qed simp

subsection \<open>Properties\<close>

text \<open>
  C39: The command line becomes the list of its actions. When the parser reports no error, following the
  pointers from the head of the list meets exactly the actions of the options, in their order, with
  their arguments, and the directories of \<open>-D\<close> and \<open>-d\<close> belong to the action right before them;
  freeing the arguments releases every one of them once.
\<close>

theorem parsed_actions_in_order:
  assumes "cli_args_parse junk rets = Inr args" and "cli_err args = CLIENT_ERR_OK"
  shows "\<exists>ys h. walk_actions (Suc (brk (actions args))) (cli_head args) (actions args) = Inr ys \<and>
    list_all2 action_matches ys (foldl spec_option [] rets) \<and>
    cli_args_free args = Inr h \<and> length ys + card (dom (cells h)) = card (dom (cells (actions args)))"
proof -
  have "parsed (cli_args_default junk) []"
    by (auto simp: parsed_def cli_rep_def cli_args_default_def intro!: exI [of _ "[]"])
  then have "parsed args (foldl spec_option [] rets)"
    using parse_loop_spec [of "cli_args_default junk" "[]" "CHR 0x00" rets args] assms
    by (simp add: cli_args_parse_def is_action_def)
  then obtain as ys where r: "cli_rep args as ys" "list_all2 action_matches ys (foldl spec_option [] rets)"
    by (auto simp: parsed_def)
  have ch: "achain (cells (actions args)) (cli_head args) as ys" and d: "distinct as" and ok: "heap_ok (actions args)"
    using r(1) by (simp_all add: cli_rep_def)
  have len: "length as \<le> Suc (brk (actions args))" using heap_ok_length_le [OF ok d achain_dom [OF ch]] by simp
  obtain h where h: "cli_args_free args = Inr h" "dom (cells h) = dom (cells (actions args)) - set as"
    using free_achain [OF ch d len] by (auto simp: cli_args_free_def)
  have "card (dom (cells h)) = card (dom (cells (actions args))) - length as"
    using h(2) achain_dom [OF ch] d heap_ok_finite [OF ok] by (simp add: card_Diff_subset distinct_card)
  moreover have "length as \<le> card (dom (cells (actions args)))"
    using card_mono [OF heap_ok_finite [OF ok] achain_dom [OF ch]] d by (simp add: distinct_card)
  ultimately show ?thesis using walk_achain [OF ch len] r(2) h(1) achain_length [OF ch] by auto
qed

theorem parsed_actions_in_order_witness:
  "\<exists>args ys h. cli_args_parse 0 [(CHR ''f'', Some [115]), (CHR ''W'', Some [97]), (CHR ''D'', Some [100]), (CHR ''l'', Some [98])] = Inr args \<and>
    walk_actions (Suc (brk (actions args))) (cli_head args) (actions args) = Inr ys \<and>
    list_all2 action_matches ys [(CHR ''W'', Some [97], Some [100]), (CHR ''l'', Some [98], None)] \<and>
    cli_args_free args = Inr h \<and> length ys + card (dom (cells h)) = card (dom (cells (actions args)))"
proof -
  let ?rets = "[(CHR ''f'', Some [115]), (CHR ''W'', Some [97]), (CHR ''D'', Some [100]), (CHR ''l'', Some [98])]"
  have "case cli_args_parse 0 ?rets of Inl _ \<Rightarrow> False | Inr args \<Rightarrow> cli_err args = CLIENT_ERR_OK" by code_simp
  then obtain args where "cli_args_parse 0 ?rets = Inr args" "cli_err args = CLIENT_ERR_OK" by (auto split: sum.splits)
  from parsed_actions_in_order [OF this] this(1) show ?thesis by (auto simp: is_action_def)
qed

text \<open>
  The number of files of \<open>-w dirname,n=5\<close> is ignored, and stays in the name of the directory: the test
  for the letter in front of the equal sign is inverted. Any other letter is accepted.
\<close>

lemma write_dir_number_ignored:
  "case cli_args_parse 0 [(CHR ''w'', Some (ascii ''d,n=5''))] of Inl _ \<Rightarrow> False
   | Inr args \<Rightarrow> (case walk_actions 2 (cli_head args) (actions args) of Inl _ \<Rightarrow> False
      | Inr ys \<Rightarrow> map (\<lambda>y. (arg_s1 y, arg_i y)) ys = [(Some (ascii ''d,n=5''), 0)])"
  "case cli_args_parse 0 [(CHR ''w'', Some (ascii ''d,x=5''))] of Inl _ \<Rightarrow> False
   | Inr args \<Rightarrow> (case walk_actions 2 (cli_head args) (actions args) of Inl _ \<Rightarrow> False
      | Inr ys \<Rightarrow> map (\<lambda>y. (arg_s1 y, arg_i y)) ys = [(Some (ascii ''d''), 5)])"
  by code_simp+

end
