(* ===== verification/Run_Action.thy ===== *)
theory Run_Action
  imports Server_Api Cli
begin

text \<open>
  The model of \<open>src/client/run_action.c\<close> and of \<open>src/client/main.c\<close>: the calls of the client library
  that an action of the command line stands for, and the main function of the client, from the
  command line to the exit code.

  The machine of the client is a \<open>Machine\<close>: \<open>realpath\<close>, the current directory and the entries of
  directories. A directory entry carries the entries of the subdirectory, if it can be opened.
\<close>

datatype dirent =
    Dir_Entry cstring "dirent list option"
  | Reg_Entry cstring
  | Other_Entry cstring

record Machine =
  realpath_of :: "cstring \<Rightarrow> cstring option"
  getcwd :: "cstring option"
  listing :: "cstring \<Rightarrow> dirent list option"

subsection \<open>Lists of files\<close>

fun split_at :: "byte \<Rightarrow> cstring \<Rightarrow> cstring list" where
  "split_at b [] = [[]]"
| "split_at b (x # xs) =
     (if x = b then [] # split_at b xs
      else (case split_at b xs of [] \<Rightarrow> [[x]] | t # ts \<Rightarrow> (x # t) # ts))"

text \<open>The tokens that \<open>strtok\<close> finds, one call after the other, with the comma as the only delimiter.\<close>

definition strtok_all :: "cstring \<Rightarrow> cstring list" where
  "strtok_all s = filter (\<lambda>t. t \<noteq> []) (split_at 44 s)"

definition arg_tokens :: "Action \<Rightarrow> cstring list result" where
  "arg_tokens action = (case arg_s1 action of None \<Rightarrow> Inl Null_Deref | Some s \<Rightarrow> Inr (strtok_all s))"

fun run_over_files :: "(cstring \<Rightarrow> Client \<Rightarrow> int \<times> Client) \<Rightarrow> cstring list \<Rightarrow> Client \<Rightarrow> Client" where
  "run_over_files api_f [] c = c"
| "run_over_files api_f (path # paths) c = (case api_f path c of (_, c) \<Rightarrow> run_over_files api_f paths c)"

definition run_some_action_over_list_of_files ::
    "Action \<Rightarrow> (cstring \<Rightarrow> Client \<Rightarrow> int \<times> Client) \<Rightarrow> Client \<Rightarrow> (int \<times> Client) result" where
  "run_some_action_over_list_of_files action api_f c =
     bind_result (arg_tokens action) (\<lambda>paths. Inr (0, run_over_files api_f paths c))"

subsection \<open>Writing\<close>

definition run_action_write_file :: "Machine \<Rightarrow> cstring \<Rightarrow> cstring option \<Rightarrow> Client \<Rightarrow> (int \<times> Client) result" where
  "run_action_write_file m relative_filepath dirname c =
     (case realpath_of m relative_filepath of
        None \<Rightarrow> Inr (- 1, c)
      | Some filepath \<Rightarrow>
          case openFile filepath (O_CREATE OR O_LOCK) c of (e, c) \<Rightarrow>
          if e < 0 then Inr (e, c)
          else
            bind_result (writeFile filepath dirname c) (\<lambda>(e, c).
            if e < 0 then Inr (e, c)
            else (case closeFile filepath c of (e, c) \<Rightarrow> if e < 0 then Inr (e, c) else Inr (0, c))))"

fun write_list_loop :: "Machine \<Rightarrow> cstring option \<Rightarrow> cstring list \<Rightarrow> Client \<Rightarrow> (int \<times> Client) result" where
  "write_list_loop m dirname [] c = Inr (0, c)"
| "write_list_loop m dirname (path # paths) c =
     bind_result (run_action_write_file m path dirname c) (\<lambda>(e, c).
       if e \<noteq> 0 then Inr (e, c) else write_list_loop m dirname paths c)"

definition run_action_write_list_of_files :: "Machine \<Rightarrow> Action \<Rightarrow> Client \<Rightarrow> (int \<times> Client) result" where
  "run_action_write_list_of_files m action c =
     bind_result (arg_tokens action) (\<lambda>paths. write_list_loop m (arg_s2 action) paths c)"

definition is_dots :: "cstring \<Rightarrow> bool" where
  "is_dots name \<longleftrightarrow> name = [46] \<or> name = [46, 46]"

text \<open>The loop over the entries of a directory; \<open>limit\<close> is \<open>None\<close> for a NULL pointer.\<close>

fun write_entries :: "cstring \<Rightarrow> dirent list \<Rightarrow> int option \<Rightarrow> Client \<Rightarrow> (int \<times> int option \<times> Client) result" where
  "write_entries absdir [] limit c = Inr (0, limit, c)"
| "write_entries absdir (e # es) limit c =
     (if (case limit of None \<Rightarrow> False | Some n \<Rightarrow> \<not> 0 < n) then Inr (0, limit, c)
      else
        case e of
          Dir_Entry name sub \<Rightarrow>
            if is_dots name then write_entries absdir es limit c
            else (case sub of
                    None \<Rightarrow> write_entries absdir es limit c
                  | Some ss \<Rightarrow>
                      bind_result (write_entries (absdir @ [47] @ name) ss limit c) (\<lambda>(_, limit, c).
                        write_entries absdir es limit c))
        | Reg_Entry name \<Rightarrow>
            if is_dots name then write_entries absdir es limit c
            else
              bind_result (writeFile (absdir @ [47] @ name) None c) (\<lambda>(r, c).
                if r \<noteq> 0 then Inr (- 1, limit, c)
                else write_entries absdir es (map_option (\<lambda>n. n - 1) limit) c)
        | Other_Entry name \<Rightarrow>
            if is_dots name then write_entries absdir es limit c else Inr (- 1, limit, c))"

definition write_dir :: "Machine \<Rightarrow> cstring \<Rightarrow> int option \<Rightarrow> Client \<Rightarrow> (int \<times> Client) result" where
  "write_dir m absdir limit c =
     (case listing m absdir of
        None \<Rightarrow> Inr (- 1, c)
      | Some es \<Rightarrow> bind_result (write_entries absdir es limit c) (\<lambda>(r, _, c). Inr (r, c)))"

definition PATH_MAX :: nat where
  "PATH_MAX = 4096"

definition run_action_write_files_in_dir :: "Machine \<Rightarrow> Action \<Rightarrow> Client \<Rightarrow> (int \<times> Client) result" where
  "run_action_write_files_in_dir m action c =
     (case arg_s1 action of
        None \<Rightarrow> Inl Null_Deref
      | Some s \<Rightarrow>
          let limit = (if 0 < arg_i action then Some (arg_i action) else None) in
          if s \<noteq> [] \<and> hd s = 47 then
            (case strtok_all s of [] \<Rightarrow> Inl Null_Deref | dirname # _ \<Rightarrow> write_dir m dirname limit c)
          else
            (case getcwd m of
               None \<Rightarrow> Inr (- 1, c)
             | Some cwd \<Rightarrow>
                 let dirname = cwd @ [47] @ s in
                 if PATH_MAX \<le> length dirname then Inl Out_Of_Bounds else write_dir m dirname limit c))"

subsection \<open>Reading\<close>

definition basename :: "cstring \<Rightarrow> cstring" where
  "basename filepath = (case strrchr filepath 47 of None \<Rightarrow> filepath | Some i \<Rightarrow> drop (i + 1) filepath)"

text \<open>The base name of the client and the one of the library are the same.\<close>

lemma basename_gnu: "basename p = gnu_basename p"
proof -
  let ?t = "takeWhile (\<lambda>b. b \<noteq> 47) (rev p)"
  define n where "n = length ?t"
  have take: "?t = take n (rev p)" unfolding n_def by (rule takeWhile_eq_take)
  have g: "gnu_basename p = drop (length p - n) p" unfolding gnu_basename_def take by (simp add: rev_take)
  show ?thesis
  proof (cases "47 \<in> set p")
    case True
    then have "?t \<noteq> rev p" by (simp add: takeWhile_eq_all_conv)
    then have "n < length p" using take by (metis leI length_rev take_all)
    then show ?thesis using True g by (simp add: basename_def strrchr_def n_def Suc_diff_Suc)
  next
    case False
    then have t: "?t = rev p" by (auto simp: takeWhile_eq_all_conv)
    have "gnu_basename p = p" by (simp only: gnu_basename_def t rev_rev_ident)
    then show ?thesis using False by (simp add: basename_def strrchr_def)
  qed
qed

definition action_write_file_to_dir :: "byte list \<Rightarrow> cstring option \<Rightarrow> cstring \<Rightarrow> Client \<Rightarrow> (int \<times> Client) result" where
  "action_write_file_to_dir bs dir original_filepath c =
     (case dir of
        None \<Rightarrow> Inl Null_Deref
      | Some d \<Rightarrow>
          let filepath = d @ [47] @ basename original_filepath in
          if \<not> writable c filepath then Inr (- 1, c)
          else Inr (0, c\<lparr>client_files := (client_files c)(filepath \<mapsto> bs)\<rparr>))"

fun read_list_loop :: "Machine \<Rightarrow> cstring option \<Rightarrow> cstring list \<Rightarrow> Client \<Rightarrow> (int \<times> Client) result" where
  "read_list_loop m dir [] c = Inr (0, c)"
| "read_list_loop m dir (rel # rels) c =
     (case realpath_of m rel of
        None \<Rightarrow> Inr (0, c)
      | Some filepath \<Rightarrow>
          bind_result (readFile filepath c) (\<lambda>(e, buf, c).
            if e \<noteq> 0 then Inr (e, c)
            else
              bind_result (action_write_file_to_dir (case buf of None \<Rightarrow> [] | Some bs \<Rightarrow> bs) dir filepath c) (\<lambda>(_, c).
                read_list_loop m dir rels c)))"

definition run_action_read_list_of_files :: "Machine \<Rightarrow> Action \<Rightarrow> Client \<Rightarrow> (int \<times> Client) result" where
  "run_action_read_list_of_files m action c =
     bind_result (arg_tokens action) (\<lambda>paths. read_list_loop m (arg_s2 action) paths c)"

definition run_action_read_random_files :: "Machine \<Rightarrow> Action \<Rightarrow> Client \<Rightarrow> (int \<times> Client) result" where
  "run_action_read_random_files m action c =
     (case arg_s2 action of
        None \<Rightarrow> readNFiles (arg_i action) None c
      | Some d \<Rightarrow>
          (case realpath_of m d of
             None \<Rightarrow> Inr (- 1, c)
           | Some dir \<Rightarrow> readNFiles (arg_i action) (Some dir) c))"

subsection \<open>Dispatch and main\<close>

definition run_action :: "Machine \<Rightarrow> Action \<Rightarrow> Client \<Rightarrow> (int \<times> Client) result" where
  "run_action m action c =
     (if action_type action = CHR ''w'' then run_action_write_files_in_dir m action c
      else if action_type action = CHR ''W'' then run_action_write_list_of_files m action c
      else if action_type action = CHR ''r'' then run_action_read_list_of_files m action c
      else if action_type action = CHR ''R'' then run_action_read_random_files m action c
      else if action_type action = CHR ''l'' then run_some_action_over_list_of_files action lockFile c
      else if action_type action = CHR ''u'' then run_some_action_over_list_of_files action unlockFile c
      else if action_type action = CHR ''c'' then run_some_action_over_list_of_files action removeFile c
      else if action_type action = CHR ''t'' then bind_result (wait_msec [] (arg_i action)) (\<lambda>_. Inr (0, c))
      else Inl Assert_Fail)"

fun run_actions :: "nat \<Rightarrow> Machine \<Rightarrow> u32 \<Rightarrow> ptr \<Rightarrow> Action heap \<Rightarrow> Client \<Rightarrow> Client result" where
  "run_actions fuel m msec None h c = Inr c"
| "run_actions 0 m msec (Some a) h c = Inl Stuck"
| "run_actions (Suc fuel) m msec (Some a) h c =
     bind_result (heap_load a h) (\<lambda>x.
     bind_result (run_action m x c) (\<lambda>(e, c).
       if e \<noteq> 0 then Inr c
       else bind_result (wait_msec [] (sint msec)) (\<lambda>_. run_actions fuel m msec (action_next x) h c)))"

text \<open>
  \<open>now\<close> is the time in seconds, \<open>as\<close> the attempts to connect and \<open>close_ret\<close> the result of \<open>close\<close>.
  The result is the exit code with the state of the client.
\<close>

definition client_main ::
    "Machine \<Rightarrow> u32 \<Rightarrow> getopt_ret list \<Rightarrow> int \<Rightarrow> Attempt list \<Rightarrow> int \<Rightarrow> Client \<Rightarrow> (int \<times> Client) result" where
  "client_main m junk rets now as close_ret c =
     bind_result (cli_args_parse junk rets) (\<lambda>args.
       if cli_err args \<noteq> CLIENT_ERR_OK then Inr (1, c)
       else if help_message args then Inr (0, c)
       else
         case cli_socket_name args of
           None \<Rightarrow> Inr (1, c)
         | Some name \<Rightarrow>
             let due = now + (if sec_max_attempt_time args \<noteq> 0 then uint (sec_max_attempt_time args) else 10000) in
             bind_result (openConnection as name (sint (msec_between_connection_attempts args)) due c) (\<lambda>(e, c).
               if e \<noteq> 0 then Inr (1, c)
               else
                 bind_result (run_actions (Suc (brk (actions args))) m (msec_between_actions args) (cli_head args) (actions args) c) (\<lambda>c.
                 bind_result (closeConnection close_ret name c) (\<lambda>(e, c).
                   if e \<noteq> 0 then Inr (1, c) else Inr (0, c)))))"

subsection \<open>What the client prints\<close>

text \<open>The lines that \<open>puts\<close> writes to the standard output.\<close>

definition print_help :: "string list" where
  "print_help =
    [''Client for file storage server. Options:'',
     '''',
     ''-h'',
     ''    Prints this message and exits.'',
     ''-f filename'',
     ''    Specifies the AF_UNIX socket name.'',
     ''-w dirname,[n=0]'',
     ''    Sends recursively all files in `dirname`, up to n.'',
     ''    If n = 0 or unspecified, there is no limit.'',
     ''-W file1[,file2...]'',
     ''    Sends a list of files to the server.'',
     ''-D dirname'',
     ''    Writes evicted files to `dirname`.'',
     ''-r files'',
     ''    Reads a list of files from the server.'',
     ''-R[n=0]'',
     ''    Reads a certain amount (or all, if N is unspecified or 0) of files'',
     ''    from the server.'',
     ''-d dirname'',
     ''    Specifies the directory where to write files that have been'',
     ''    read.'',
     ''-t msec'',
     ''    Time between subsequent server requests, expressed in'',
     ''    milliseconds. 0 by default.'',
     ''-l file1[,file2]'',
     ''    Locks some files.'',
     ''-u file1[,file2]'',
     ''    Unlocks some files.'',
     ''-c file1[,file2]'',
     ''    Removes some files from the server.'',
     ''-p'',
     ''    Enables logging to standard output.'',
     ''-Z'',
     ''    Sets the time in milliseconds between connection attempts to the'',
     ''    file storage server. 300 (msec) by default.'',
     ''-z'',
     ''    Sets the time in seconds after which connection attempts to the'',
     ''    file storage server will stop and the client will abort. 5'',
     ''    (seconds) by default. No limit if set to 0.'']"

definition print_client_err :: "ClientErr \<Rightarrow> string list" where
  "print_client_err e =
     (if e = CLIENT_ERR_OK then []
      else ''Command-line usage error.'' #
        (case e of
         CLIENT_ERR_ALLOC \<Rightarrow> [''Out-of-memory error.'']
       | CLIENT_ERR_REPEATED_F \<Rightarrow> [''Multiple -f options. Only one is allowed.'']
       | CLIENT_ERR_REPEATED_H \<Rightarrow> [''Multiple -h options. Only one is allowed.'']
       | CLIENT_ERR_REPEATED_P \<Rightarrow> [''Multiple -p options. Only one is allowed.'']
       | CLIENT_ERR_UNKNOWN_OPTION \<Rightarrow> [''Unknown command line options.'']
       | CLIENT_ERR_BAD_OPTION_CAP_D \<Rightarrow> [''-D can only be used after either -w or -W.'']
       | CLIENT_ERR_BAD_OPTION_D \<Rightarrow> [''-d can only be used after either -r or -R.'']
       | CLIENT_ERR_BAD_OPTION_P \<Rightarrow> [''Invalid value for -p.'']
       | _ \<Rightarrow> []))"

definition client_output :: "u32 \<Rightarrow> getopt_ret list \<Rightarrow> string list result" where
  "client_output junk rets =
     bind_result (cli_args_parse junk rets) (\<lambda>args. Inr
       (if cli_err args \<noteq> CLIENT_ERR_OK then print_client_err (cli_err args)
        else if help_message args then print_help
        else if cli_socket_name args = None then print_client_err (cli_err args) @ print_help
        else []))"

text \<open>
  Every error that the parser reports gets a line of its own, except a malformed argument of \<open>-R\<close>
  and a missing argument: these are reported as usage errors without a reason.
\<close>

lemma client_err_reasons:
  "e \<noteq> CLIENT_ERR_OK \<Longrightarrow>
     (print_client_err e = [''Command-line usage error.'']) = (e = CLIENT_ERR_BAD_OPTION_CAP_R \<or> e = CLIENT_ERR_MISSING_ARG)"
  by (cases e) (simp_all add: print_client_err_def)

lemma client_err_distinct:
  "print_client_err e = print_client_err e' \<Longrightarrow> length (print_client_err e) = 2 \<Longrightarrow> e = e'"
  by (cases e; cases e') (simp_all add: print_client_err_def)

subsection \<open>The requests of an action\<close>

definition list_op :: "char \<Rightarrow> ApiOp option" where
  "list_op t =
     (if t = CHR ''l'' then Some API_OP_LOCK_FILE
      else if t = CHR ''u'' then Some API_OP_UNLOCK_FILE
      else if t = CHR ''c'' then Some API_OP_REMOVE_FILE else None)"

lemma simple_request_effect:
  assumes "connected c" and "incoming c = b # bs"
  obtains c' where "make_simple_request aop k m c = (if b = RESPONSE_ERR then - 1 else 0, c')" and "connected c'"
    and "sent c' = sent c @ frame (api_op_code aop # k)" and "incoming c' = bs" and "client_files c' = client_files c"
    and "writable c' = writable c"
  using simple_request_sends [OF assms(1), of aop k m] assms that
  by (auto simp: requested_def set_last_operation_def connected_def split: if_splits)

lemma run_over_files_sends:
  assumes "connected c" and "length ps \<le> length (incoming c)"
  shows "connected (run_over_files (\<lambda>p. make_simple_request aop p m) ps c) \<and>
    sent (run_over_files (\<lambda>p. make_simple_request aop p m) ps c) = sent c @ concat (map (\<lambda>p. frame (api_op_code aop # p)) ps) \<and>
    incoming (run_over_files (\<lambda>p. make_simple_request aop p m) ps c) = drop (length ps) (incoming c)"
  using assms
proof (induction ps arbitrary: c)
  case (Cons p ps)
  then obtain b bs where i: "incoming c = b # bs" by (cases "incoming c") auto
  obtain c' where c': "make_simple_request aop p m c = (if b = RESPONSE_ERR then - 1 else 0, c')" "connected c'"
    "sent c' = sent c @ frame (api_op_code aop # p)" "incoming c' = bs"
    by (rule simple_request_effect [OF Cons.prems(1) i])
  from Cons.IH [OF c'(2)] Cons.prems(2) c' i show ?case by auto
qed simp

text \<open>The answers to the three requests of a file that is written without evictions.\<close>

definition write_answers :: "byte list" where
  "write_answers = RESPONSE_OK # (RESPONSE_OK # u64_to_big_endian 0) @ [RESPONSE_OK]"

definition write_requests :: "cstring \<Rightarrow> byte list \<Rightarrow> byte list" where
  "write_requests k data =
     frame (api_op_code API_OP_OPEN_FILE_CREATE_LOCK # k) @ write_message k data @ frame (api_op_code API_OP_CLOSE_FILE # k)"

lemma RESPONSE_OK_neq [simp]: "RESPONSE_OK \<noteq> RESPONSE_ERR"
  by (simp add: RESPONSE_OK_def RESPONSE_ERR_def)

lemma open_create_lock: "openFile k (O_CREATE OR O_LOCK) = make_simple_request API_OP_OPEN_FILE_CREATE_LOCK k EINVAL"
  by (simp add: openFile_def O_CREATE_def O_LOCK_def fun_eq_iff)

lemma write_file_requests:
  assumes c: "connected c" and i: "incoming c = write_answers @ rest"
    and k: "realpath_of m path = Some k" "client_files c k = Some data"
  obtains c' where "run_action_write_file m path (Some dir) c = Inr (0, c')" and "connected c'"
    and "sent c' = sent c @ write_requests k data" and "incoming c' = rest" and "client_files c' = client_files c"
proof -
  have "incoming c = RESPONSE_OK # (RESPONSE_OK # u64_to_big_endian 0) @ [RESPONSE_OK] @ rest"
    using i by (simp add: write_answers_def)
  then obtain c1 where c1: "make_simple_request API_OP_OPEN_FILE_CREATE_LOCK k EINVAL c =
      (if RESPONSE_OK = RESPONSE_ERR then - 1 else 0, c1)" "connected c1"
    "sent c1 = sent c @ frame (api_op_code API_OP_OPEN_FILE_CREATE_LOCK # k)"
    "incoming c1 = (RESPONSE_OK # u64_to_big_endian 0) @ [RESPONSE_OK] @ rest" "client_files c1 = client_files c"
    by (rule simple_request_effect [OF c])
  define c2 where "c2 = (requested API_OP_WRITE_FILE (write_message k data) c1)
    \<lparr>incoming := [RESPONSE_OK] @ rest, client_files := client_files c1\<rparr>"
  have w: "writeFile k (Some dir) c1 = Inr (0, c2)"
    using writeFile_stores [OF c1(2), of k data "[]" "[RESPONSE_OK] @ rest" dir] c1(4,5) k(2) by (simp add: c2_def)
  have c2: "connected c2" "incoming c2 = RESPONSE_OK # rest" using c1(2) by (simp_all add: c2_def connected_def requested_def set_last_operation_def)
  obtain c3 where c3: "make_simple_request API_OP_CLOSE_FILE k EINVAL c2 = (if RESPONSE_OK = RESPONSE_ERR then - 1 else 0, c3)"
    "connected c3" "sent c3 = sent c2 @ frame (api_op_code API_OP_CLOSE_FILE # k)" "incoming c3 = rest" "client_files c3 = client_files c2"
    by (rule simple_request_effect [OF c2])
  have "run_action_write_file m path (Some dir) c = Inr (0, c3)"
    using k(1) c1(1) w c3(1) by (simp add: run_action_write_file_def open_create_lock closeFile_def)
  moreover have "sent c3 = sent c @ write_requests k data" using c3(3) c1(3) by (simp add: c2_def write_requests_def)
  moreover have "client_files c3 = client_files c" using c3(5) c1(5) by (simp add: c2_def)
  ultimately show thesis using c3(2,4) by (intro that)
qed

lemma write_list_requests:
  assumes "connected c" and "incoming c = concat (replicate (length ps) write_answers) @ rest"
    and "\<forall>p \<in> set ps. realpath_of m p = Some (rp p) \<and> client_files c (rp p) = Some (data p)"
  shows "\<exists>c'. write_list_loop m (Some dir) ps c = Inr (0, c') \<and> connected c' \<and>
    sent c' = sent c @ concat (map (\<lambda>p. write_requests (rp p) (data p)) ps) \<and> incoming c' = rest"
  using assms
proof (induction ps arbitrary: c)
  case (Cons p ps)
  have "incoming c = write_answers @ concat (replicate (length ps) write_answers) @ rest" using Cons.prems(2) by simp
  then obtain c1 where c1: "run_action_write_file m p (Some dir) c = Inr (0, c1)" "connected c1"
    "sent c1 = sent c @ write_requests (rp p) (data p)" "incoming c1 = concat (replicate (length ps) write_answers) @ rest"
    "client_files c1 = client_files c"
    using write_file_requests [OF Cons.prems(1)] Cons.prems(3) by (metis list.set_intros(1))
  from Cons.IH [OF c1(2,4)] c1 Cons.prems(3) show ?case by auto
qed simp

subsection \<open>Properties\<close>

definition sample_machine :: Machine where
  "sample_machine = \<lparr>realpath_of = Some, getcwd = None, listing = (\<lambda>_. None)\<rparr>"

text \<open>
  The actions \<open>-l\<close>, \<open>-u\<close> and \<open>-c\<close> send one request per file of their list, in the order of the list,
  whatever the server answers, read one byte of answer for each, and always succeed.
\<close>

lemma list_action_requests:
  assumes "connected c" and "arg_s1 action = Some s" and "list_op (action_type action) = Some aop"
    and "length (strtok_all s) \<le> length (incoming c)"
  shows "\<exists>c'. run_action m action c = Inr (0, c') \<and> connected c' \<and>
    sent c' = sent c @ concat (map (\<lambda>p. frame (api_op_code aop # p)) (strtok_all s)) \<and>
    incoming c' = drop (length (strtok_all s)) (incoming c)"
proof -
  have "run_action m action c = Inr (0, run_over_files (\<lambda>p. make_simple_request aop p EINVAL) (strtok_all s) c)"
  proof -
    have "lockFile = (\<lambda>p. make_simple_request API_OP_LOCK_FILE p EINVAL)" "unlockFile = (\<lambda>p. make_simple_request API_OP_UNLOCK_FILE p EINVAL)"
      "removeFile = (\<lambda>p. make_simple_request API_OP_REMOVE_FILE p EINVAL)"
      by (simp_all add: fun_eq_iff lockFile_def unlockFile_def removeFile_def)
    with assms(2,3) show ?thesis
      by (auto simp: run_action_def list_op_def run_some_action_over_list_of_files_def arg_tokens_def split: if_splits)
  qed
  with run_over_files_sends [OF assms(1,4), of aop EINVAL] show ?thesis by simp
qed

text \<open>
  C40: The action \<open>-W\<close> with a directory for evicted files sends, for each file of its list and in the order of the list,
  the requests to create and lock it, to write its contents and to close it, and succeeds when the
  server accepts them. No request unlocks the files again.
\<close>

theorem write_action_requests:
  assumes "connected c" and "arg_s1 action = Some s" and "arg_s2 action = Some dir" and "action_type action = CHR ''W''"
    and "incoming c = concat (replicate (length (strtok_all s)) write_answers) @ rest"
    and "\<forall>p \<in> set (strtok_all s). realpath_of m p = Some (rp p) \<and> client_files c (rp p) = Some (data p)"
  shows "\<exists>c'. run_action m action c = Inr (0, c') \<and>
    sent c' = sent c @ concat (map (\<lambda>p. write_requests (rp p) (data p)) (strtok_all s)) \<and> incoming c' = rest"
  using write_list_requests [OF assms(1,5,6), of dir] assms(2-4)
  by (auto simp: run_action_def run_action_write_list_of_files_def arg_tokens_def)

theorem write_action_requests_witness:
  "\<exists>c'. run_action sample_machine
       ((new_action CHR ''W'' (Some [97, 44, 97]))\<lparr>arg_s2 := Some [100]\<rparr>) (sample_client (write_answers @ write_answers)) = Inr (0, c') \<and>
     sent c' = write_requests [97] [7, 8] @ write_requests [97] [7, 8] \<and> incoming c' = []"
proof -
  have t: "strtok_all [97, 44, 97] = [[97], [97]]" by (simp add: strtok_all_def)
  have i: "incoming (sample_client bs) = bs" "sent (sample_client bs) = []" "client_files (sample_client bs) [97] = Some [7, 8]" for bs
    by (simp_all add: sample_client_def)
  from write_action_requests [of "sample_client (write_answers @ write_answers)"
      "(new_action CHR ''W'' (Some [97, 44, 97]))\<lparr>arg_s2 := Some [100]\<rparr>" "[97, 44, 97]" "[100]" "[]"
      sample_machine "\<lambda>p. p" "\<lambda>_. [7, 8]"]
  show ?thesis by (simp add: t i new_action_def sample_machine_def)
qed

text \<open>Without \<open>-d\<close>, a file that was read successfully ends the client, and so does \<open>-R\<close>.\<close>

lemma read_without_directory:
  assumes "connected c" and "incoming c = RESPONSE_OK # u64_to_big_endian (of_nat (length data)) @ data @ rest"
    and "length data < 2 ^ 31" and "realpath_of m p = Some k"
  shows "read_list_loop m None (p # ps) c = Inl Null_Deref"
  using readFile_receives [OF assms(1-3)] assms(4) by (simp add: action_write_file_to_dir_def)

lemma read_random_without_directory:
  "arg_s2 action = None \<Longrightarrow> run_action_read_random_files m action c = Inl Assert_Fail"
  by (simp add: run_action_read_random_files_def readNFiles_def c_assert_def)

end
