(* ===== verification/HTable_Races.thy ===== *)
theory HTable_Races
  imports HTable_Linear
begin

text \<open>
  Why the theorems of \<open>HTable_Linear\<close> leave out creation: \<open>htable_create_file\<close> releases the
  bucket between its check and the insertion, and counts the file in a third section. Two
  creations lose a file, or create it twice; an eviction between the insertion and the count
  ends the server.
\<close>

subsection \<open>The sections of a creation\<close>

lemma create_section_absent:
  assumes "htable_inv XXH64 ht" and "htable_lookup XXH64 ht k = None"
  shows "create_section XXH64 k fd l ht = Inr (Goes_On (Preparing k fd l), ht)"
  using assms core_fetch_cases [OF inv_core [OF assms(1)], of k]
  by (fastforce simp: create_section_def)

lemma push_section_idle:
  assumes "i < length (buckets ht)" and "\<not> guard (buckets ht ! i)"
    and "\<And>a. head (buckets ht ! i) = Some a \<Longrightarrow> a \<in> dom (cells (items ht))"
  shows "push_section i item ht = Inr (ht\<lparr>
    buckets := (buckets ht)[i := push_bucket (buckets ht ! i) item],
    items := (case head (buckets ht ! i) of
        None \<Rightarrow> items ht
      | Some a \<Rightarrow> heap_store a ((the (cells (items ht) a))\<lparr>prev_item := Some item\<rparr>) (items ht))\<rparr>)"
  using assms
  by (cases "buckets ht ! i")
    (auto simp: push_section_def lock_bucket_def unlock_bucket_def push_bucket_def load_item_def store_item_def Let_def
      split: option.splits)

lemma count_create_idle:
  assumes "\<not> stats_guard ht" and "fifo_present ht"
  obtains ff where "count_section (Count_Create k) ht = Inr (ht\<lparr>stats := stats_on_create (stats ht), fifo := ff\<rparr>)"
    and "fifo_present (ht\<lparr>stats := stats_on_create (stats ht), fifo := ff\<rparr>)"
proof -
  have "\<exists>ff. count_section (Count_Create k) ht = Inr (ht\<lparr>stats := stats_on_create (stats ht), fifo := ff\<rparr>) \<and>
     fifo_present (ht\<lparr>stats := stats_on_create (stats ht), fifo := ff\<rparr>)"
    using assms
    by (cases ht) (auto simp: count_section_def htable_stats_lock_def htable_stats_unlock_def htable_fifo_add_def fifo_present_def Let_def)
  with that show thesis by blast
qed

subsection \<open>Two creations in one bucket\<close>

text \<open>The two threads and the schedule in which each of them makes one step at a time.\<close>

definition two_creations :: "cstring \<Rightarrow> cstring \<Rightarrow> int \<Rightarrow> int \<Rightarrow> bool \<Rightarrow> nat list \<Rightarrow> HTable \<Rightarrow> Threads" where
  "two_creations k1 k2 fd1 fd2 l draws ht =
     start_threads [[Meta (Create k1 fd1 l)], [Meta (Create k2 fd2 l)]] draws ht"

lemma two_creations_run:
  assumes inv: "htable_inv XXH64 ht" and none: "htable_lookup XXH64 ht k1 = None" "htable_lookup XXH64 ht k2 = None"
    and i: "htable_bucket_ptr XXH64 ht k1 = i" "htable_bucket_ptr XXH64 ht k2 = i" and e: "head (buckets ht ! i) = None"
  defines "a \<equiv> brk (items ht)"
  shows "\<exists>s. run_schedule XXH64 [0, 1, 0, 1, 0, 1, 0, 1] (two_creations k1 k2 fd1 fd2 l draws ht) = Inr s \<and>
    map answers (threads s) = [[Answer (Reply HTABLE_ERR_OK (-1))], [Answer (Reply HTABLE_ERR_OK (-1))]] \<and>
    items_count (stats (shared s)) = items_count (stats ht) + 2 \<and>
    buckets_count (shared s) = buckets_count ht \<and>
    head (buckets (shared s) ! i) = Some (Suc a) \<and> Suc a < brk (items (shared s)) \<and>
    cells (items (shared s)) (Suc a) = Some \<lparr>file = new_file k2 fd2 l, next_item = None, prev_item = None\<rparr>"
proof -
  obtain ass where rep: "htable_rep XXH64 ht ass" using core_rep [OF inv_core [OF inv]] by blast
  then have "length ass = length (buckets ht)" by (simp add: htable_rep_def)
  with bucket_ptr_lt [OF rep, of k1] i(1) have il: "i < length (buckets ht)" by simp
  then have g: "\<not> guard (buckets ht ! i)" and sg: "\<not> stats_guard ht" and fp: "fifo_present ht"
    using inv by (auto simp: htable_inv_def htable_core_def htable_unlocked_def)
  let ?i0 = "\<lparr>file = new_file k1 fd1 l, next_item = None, prev_item = None\<rparr>"
  let ?i1 = "\<lparr>file = new_file k2 fd2 l, next_item = None, prev_item = None\<rparr>"
  let ?ht1 = "ht\<lparr>items := (items ht)\<lparr>cells := (cells (items ht))(a \<mapsto> ?i0), brk := Suc a\<rparr>\<rparr>"
  let ?ht2 = "ht\<lparr>items := (items ht)\<lparr>cells := (cells (items ht))(a \<mapsto> ?i0, Suc a \<mapsto> ?i1), brk := Suc (Suc a)\<rparr>\<rparr>"
  let ?ht3 = "?ht2\<lparr>buckets := (buckets ht)[i := push_bucket (buckets ht ! i) a]\<rparr>"
  have p0: "push_section i a ?ht2 = Inr ?ht3"
    using push_section_idle [of i ?ht2 a] il g e by simp
  obtain ht4 where p1: "push_section i (Suc a) ?ht3 = Inr ht4" and ht4: "stats ht4 = stats ht" "stats_guard ht4 = stats_guard ht"
    "fifo_present ht4" "buckets_count ht4 = buckets_count ht" "head (buckets ht4 ! i) = Some (Suc a)"
    "cells (items ht4) (Suc a) = Some ?i1" "brk (items ht4) = Suc (Suc a)"
    using push_section_idle [of i ?ht3 "Suc a"] il g fp by (auto simp: push_bucket_def heap_store_def fifo_present_def)
  obtain ff where c0: "count_section (Count_Create k1) ht4 = Inr (ht4\<lparr>stats := stats_on_create (stats ht), fifo := ff\<rparr>)"
    and fp5: "fifo_present (ht4\<lparr>stats := stats_on_create (stats ht), fifo := ff\<rparr>)"
    using count_create_idle [of ht4 k1] sg ht4 by auto
  let ?ht5 = "ht4\<lparr>stats := stats_on_create (stats ht), fifo := ff\<rparr>"
  obtain ff' where c1: "count_section (Count_Create k2) ?ht5 = Inr (ht4\<lparr>stats := stats_on_create (stats_on_create (stats ht)), fifo := ff'\<rparr>)"
    using count_create_idle [of ?ht5 k2] sg ht4 fp5 by auto
  have ptr: "htable_bucket_ptr XXH64 ?ht1 k2 = i" "htable_bucket_ptr XXH64 ?ht2 k1 = i" "htable_bucket_ptr XXH64 ?ht3 k2 = i"
    using i by simp_all
  have c: "create_section XXH64 k1 fd1 l ht = Inr (Goes_On (Preparing k1 fd1 l), ht)"
    "create_section XXH64 k2 fd2 l ht = Inr (Goes_On (Preparing k2 fd2 l), ht)"
    using create_section_absent [OF inv] none by simp_all
  have "run_schedule XXH64 [0, 1, 0, 1, 0, 1, 0, 1] (two_creations k1 k2 fd1 fd2 l draws ht) =
    Inr \<lparr>threads = map (\<lambda>_. \<lparr>todo = [], act = Idle, answers = [Answer (Reply HTABLE_ERR_OK (-1))]\<rparr>) [0, 1 :: nat],
      shared = ht4\<lparr>stats := stats_on_create (stats_on_create (stats ht)), fifo := ff'\<rparr>, rand_draws = draws\<rparr>"
    using c p0 p1 c0 c1 i e
    by (simp add: two_creations_def start_threads_def thread_step_def settle_def heap_alloc_def a_def [symmetric])
  with ht4 show ?thesis by simp
qed

subsection \<open>An eviction between insertion and count\<close>

text \<open>
  After the insertion and before the count, the table is well-formed but for its statistics. The
  sections of a write and of an eviction do not look at the statistics of the files they touch.
\<close>

lemma pushed_table:
  assumes inv: "htable_inv XXH64 ht" and none: "htable_lookup XXH64 ht k = None"
  obtains ht2 where "insert_item (htable_bucket_ptr XXH64 ht k) (new_file k fd l) ht = Inr ht2"
    and "stats ht2 = stats ht" and "\<not> stats_guard ht2" and "policy ht2 = policy ht"
    and "max_space_in_bytes ht2 = max_space_in_bytes ht" and "buckets_count ht2 = buckets_count ht"
    and "htable_inv XXH64 (at_stats (stats_on_create (stats ht)) ht2)"
    and "htable_lookup XXH64 ht2 = (htable_lookup XXH64 ht)(k \<mapsto> new_file k fd l)"
proof -
  let ?f = "new_file k fd l" and ?i = "htable_bucket_ptr XXH64 ht k"
  note core = inv_core [OF inv]
  obtain ass where rep: "htable_rep XXH64 ht ass" using core_rep [OF core] by blast
  have kf: "key ?f = k" and ok: "file_ok ?f" by (simp_all add: new_file_def file_ok_def)
  obtain hp b' ass' where ins: "insert_item ?i ?f ht = Inr (ht\<lparr>items := hp, buckets := (buckets ht)[?i := b']\<rparr>)"
    and g: "\<not> guard b'" and rep': "htable_rep XXH64 (ht\<lparr>items := hp, buckets := (buckets ht)[?i := b']\<rparr>) ass'"
    and files: "\<And>c. map_option file (cells hp c) = ((files_at ht)(brk (items ht) \<mapsto> ?f)) c"
    using insert_item_rep [OF rep core_unlocked [OF core], of ?f] none kf by metis
  let ?ht2 = "ht\<lparr>items := hp, buckets := (buckets ht)[?i := b']\<rparr>"
  have files2: "files_at ?ht2 = (files_at ht)(brk (items ht) \<mapsto> ?f)"
    using files by (simp add: fun_eq_iff files_at_def)
  have files3: "files_at (at_stats (stats_on_create (stats ht)) ?ht2) = (files_at ht)(brk (items ht) \<mapsto> ?f)"
    using files by (simp add: fun_eq_iff files_at_def)
  have fresh: "files_at ht (brk (items ht)) = None"
    using rep heap_ok_fresh by (auto simp: files_at_def htable_rep_def)
  have rep3: "htable_rep XXH64 (at_stats (stats_on_create (stats ht)) ?ht2) ass'" using rep' by simp
  have "htable_unlocked (at_stats (stats_on_create (stats ht)) ?ht2)"
    using unlocked_update [OF core_unlocked [OF core] g] by (simp add: htable_unlocked_def)
  moreover have "fifo_present (at_stats (stats_on_create (stats ht)) ?ht2)"
    using core by (simp add: htable_core_def fifo_present_def)
  ultimately have "htable_core XXH64 (at_stats (stats_on_create (stats ht)) ?ht2)"
    by (rule core_insert [OF core fresh ok rep3 files3]) (simp_all add: new_file_def)
  then have "htable_inv XXH64 (at_stats (stats_on_create (stats ht)) ?ht2)"
    using inv by (simp add: htable_inv_def)
  moreover have "htable_lookup XXH64 ?ht2 = (htable_lookup XXH64 ht)(k \<mapsto> ?f)"
    using lookup_insert [OF rep rep' fresh _ files2] none kf by simp
  ultimately show thesis using ins inv by (intro that [of ?ht2]) (simp_all add: htable_inv_def)
qed

lemma take_last_stats:
  "take_last i a (at_stats s ht) = bind_result (take_last i a ht) (\<lambda>ht. Inr (at_stats s ht))"
  by (auto simp: take_last_def load_item_def store_item_def bind_result_assoc Let_def
      intro!: bind_result_eqI split: option.splits)

lemma replace_section_stats:
  "replace_section XXH64 k data (at_stats s ht) =
     bind_result (replace_section XXH64 k data ht) (\<lambda>(p, ht). Inr (p, at_stats s ht))"
  by (auto simp: replace_section_def section_stats bind_result_assoc Let_def intro!: bind_result_eqI split: option.splits)

lemma replace_section_stores:
  assumes inv: "htable_inv XXH64 ht" and k: "htable_lookup XXH64 ht k = Some f"
    and data: "data \<noteq> []" "length data < 2 ^ 64"
  obtains a it where "cells (items ht) a = Some it" and "file it = f"
    and "replace_section XXH64 k data ht =
      Inr (Goes_On (Writing (of_nat (length data)) (length_in_bytes f)), set_file a (put_contents data f) ht)"
proof (cases rule: core_fetch_cases [OF inv_core [OF inv], of k, case_names missing found])
  case missing
  with k show thesis by simp
next
  case (found a it)
  have f: "file it = f" using found(3) k by simp
  let ?sz = "of_nat (length data) :: u64"
  have "?sz \<noteq> 0" using of_nat_u64_eq_0 [OF data(2)] data(1) by simp
  then obtain blk where blk: "xrealloc (contents f) ?sz = Inr blk" using xrealloc_ok by blast
  then have "length blk = length data" using xrealloc_length data(2) by fastforce
  then have put: "f\<lparr>length_in_bytes := ?sz, contents := Some (data @ drop (length data) blk)\<rparr> = put_contents data f"
    by (simp add: put_contents_def)
  have "replace_section XXH64 k data ht = Inr (Goes_On (Writing ?sz (length_in_bytes f)), set_file a (put_contents data f) ht)"
    using found inv blk by (simp add: replace_section_def fetched f put)
  with found(1) f that show thesis by blast
qed

text \<open>The last item of a bucket that has a file.\<close>

lemma bucket_last:
  assumes core: "htable_core XXH64 ht" and k: "htable_lookup XXH64 ht k = Some f"
  defines "i \<equiv> htable_bucket_ptr XXH64 ht k"
  obtains a it where "i < length (buckets ht)" and "last_item (buckets ht ! i) = Some a"
    and "cells (items ht) a = Some it" and "htable_bucket_ptr XXH64 ht (key (file it)) = i"
    and "htable_lookup XXH64 ht (key (file it)) = Some (file it)"
proof -
  obtain ass where rep: "htable_rep XXH64 ht ass" using core_rep [OF core] by blast
  have i: "i < length ass" "i < length (buckets ht)"
    using bucket_ptr_lt [OF rep, of k] rep by (auto simp: i_def htable_rep_def)
  obtain c cit where c: "cells (items ht) c = Some cit" "key (file cit) = k"
    using k unfolding lookup_rep [OF rep] by blast
  then have "c \<in> dom (cells (items ht))" by blast
  then have "c \<in> set (concat ass)" using rep unfolding htable_rep_def by blast
  from in_concat_nth [OF this] obtain j where j: "j < length ass" "c \<in> set (ass ! j)" by blast
  have "htable_bucket_ptr XXH64 ht (key (file (the (cells (items ht) c)))) = j"
    using rep j unfolding htable_rep_def by blast
  with c have "i = j" by (simp add: i_def)
  with j have ne: "ass ! i \<noteq> []" by auto
  have b: "bucket_rep (cells (items ht)) (buckets ht ! i) (ass ! i)" using rep i by (simp add: htable_rep_def)
  define a where "a = last (ass ! i)"
  have l: "last_item (buckets ht ! i) = Some a" using b ne by (auto simp: bucket_rep_def lastp_def a_def)
  have mem: "a \<in> set (ass ! i)" using ne by (simp add: a_def)
  then have "a \<in> dom (cells (items ht))" using b dseg_dom unfolding bucket_rep_def by blast
  then obtain it where it: "cells (items ht) a = Some it" by blast
  have "htable_bucket_ptr XXH64 ht (key (file (the (cells (items ht) a)))) = i"
    using rep i(1) mem unfolding htable_rep_def by blast
  with it have "htable_bucket_ptr XXH64 ht (key (file it)) = i" by simp
  moreover have "htable_lookup XXH64 ht (key (file it)) = Some (file it)" unfolding lookup_rep [OF rep] using it by blast
  ultimately show thesis using that i l it by blast
qed

lemma one_file_stats:
  assumes core: "htable_core XXH64 ht" and one: "htable_lookup XXH64 ht = [k \<mapsto> f]"
  shows "items_count (stats ht) = 1" and "total_space_in_bytes (stats ht) = length_in_bytes f"
proof -
  obtain ass where rep: "htable_rep XXH64 ht ass" using core_rep [OF core] by blast
  have "htable_lookup XXH64 ht k = Some f" by (simp add: one)
  then obtain a it where a: "cells (items ht) a = Some it" "file it = f" unfolding lookup_rep [OF rep] by blast
  have "card (dom (cells (items ht))) = 1" using lookup_card [OF core] by (simp add: one)
  then obtain x where "dom (cells (items ht)) = {x}" by (rule card_1_singletonE)
  moreover have "a \<in> dom (cells (items ht))" using a(1) by blast
  ultimately have dom: "dom (cells (items ht)) = {a}" by simp
  have st: "stats_rep ht" using core by (simp add: htable_core_def)
  then show "items_count (stats ht) = 1" "total_space_in_bytes (stats ht) = length_in_bytes f"
    by (simp_all add: stats_rep_def dom live_files_def a)
qed

text \<open>The creation up to its count, while another thread waits for its first turn.\<close>

definition uncounted :: "table_op \<Rightarrow> cstring \<Rightarrow> nat list \<Rightarrow> HTable \<Rightarrow> Threads" where
  "uncounted x k draws ht =
     \<lparr>threads = [\<lparr>todo = [x], act = Idle, answers = []\<rparr>,
        \<lparr>todo = [], act = Counting (Count_Create k) (Reply HTABLE_ERR_OK (-1)), answers = []\<rparr>],
      shared = ht, rand_draws = draws\<rparr>"

lemma creation_links:
  assumes "htable_inv XXH64 ht" and "htable_lookup XXH64 ht k = None"
    and "insert_item (htable_bucket_ptr XXH64 ht k) (new_file k fd l) ht = Inr ht2"
  shows "run_schedule XXH64 (1 # 1 # 1 # sched) (start_threads [[x], [Meta (Create k fd l)]] draws ht) =
    run_schedule XXH64 sched (uncounted x k draws ht2)"
proof -
  let ?i = "htable_bucket_ptr XXH64 ht k"
  have c: "create_section XXH64 k fd l ht = Inr (Goes_On (Preparing k fd l), ht)"
    using create_section_absent [OF assms(1,2)] .
  obtain a h where h: "heap_alloc \<lparr>file = new_file k fd l, next_item = head (buckets ht ! ?i), prev_item = None\<rparr> (items ht) = (a, h)"
    by (metis surj_pair)
  then have p: "push_section ?i a (ht\<lparr>items := h\<rparr>) = Inr ht2"
    using assms(3) by (simp add: insert_item_sections)
  show ?thesis
    using c h p by (simp add: start_threads_def thread_step_def settle_def uncounted_def)
qed

lemma eviction_aborts:
  assumes inv: "htable_inv XXH64 (at_stats cs ht)" and pol: "policy ht = CACHE_EVICTION_POLICY_SEGMENTED_FIFO"
    and s: "items_count s = 1" "total_space_in_bytes s = length_in_bytes f1"
    and two: "htable_lookup XXH64 ht = [k1 \<mapsto> f1, k2 \<mapsto> new_file k2 fd l]"
    and apart: "htable_bucket_ptr XXH64 ht k2 \<noteq> htable_bucket_ptr XXH64 ht k1"
    and data: "length data < 2 ^ 64" "of_nat (length data) > max_space_in_bytes ht"
    and draw: "draw_bucket ht r = htable_bucket_ptr XXH64 ht k2"
  shows "run_schedule XXH64 [0, 0, 0, 0, 0, 0] (uncounted (Replace k1 data) k2 (r # draws) (at_stats s ht)) = Inl Assert_Fail"
proof -
  let ?H = "at_stats cs ht" and ?sz = "of_nat (length data) :: u64" and ?f = "put_contents data f1"
  have ne: "data \<noteq> []" using data(2) by auto
  have k12: "k1 \<noteq> k2" using apart by auto
  have lk: "htable_lookup XXH64 ?H k1 = Some f1" using two k12 by simp
  obtain a it where a: "cells (items ?H) a = Some it" "file it = f1"
    and r0: "replace_section XXH64 k1 data ?H = Inr (Goes_On (Writing ?sz (length_in_bytes f1)), set_file a ?f ?H)"
    using replace_section_stores [OF inv lk ne data(1)] by blast
  define w where "w = stats_on_write ?sz (length_in_bytes f1)"
  have k1: "key f1 = k1"
    using lk core_rep [OF inv_core [OF inv]] lookup_rep by blast
  note put = put_file(1,2) [OF inv a(1) data(1), of ?sz "length_in_bytes f1", unfolded a(2) k1, OF refl, folded w_def]
  define G where "G = set_file a ?f ht"
  have G: "set_file a ?f ?H = at_stats cs G" by (simp add: G_def set_file_def)
  have invG: "htable_inv XXH64 (at_stats (w cs) G)" using put(1) by (simp add: G)
  have sel: "policy G = policy ht" "max_space_in_bytes G = max_space_in_bytes ht" "buckets_count G = buckets_count ht"
    "\<And>k. htable_bucket_ptr XXH64 G k = htable_bucket_ptr XXH64 ht k"
    by (simp_all add: G_def set_file_def htable_bucket_ptr_def)
  have lookG: "htable_lookup XXH64 G = [k1 \<mapsto> ?f, k2 \<mapsto> new_file k2 fd l]"
    using put(2) two k12 by (simp add: G fun_upd_twist [OF k12])
  have idle: "\<not> stats_guard G" using inv_stats_idle [OF invG] by simp
  have r1: "replace_section XXH64 k1 data (at_stats s ht) = Inr (Goes_On (Writing ?sz (length_in_bytes f1)), at_stats s G)"
    using replace_section_stats [of XXH64 k1 data s ?H] r0 by (simp add: G)
  have c1: "count_section (Count_Write ?sz (length_in_bytes f1)) (at_stats s G) = Inr (at_stats (w s) G)"
    using idle by (simp add: count_section_update update_stats_idle count_stats_fun w_def)
  let ?L = "G\<lparr>stats_guard := True\<rparr>" and ?i = "htable_bucket_ptr XXH64 ht k2"
  have l1: "htable_stats_lock (at_stats (w s) G) = Inr (at_stats (w s) ?L)"
    using idle by (simp add: htable_stats_lock_def)
  have ws: "items_count (w s) = 1" "total_space_in_bytes (w s) = ?sz" using s by (simp_all add: w_def)
  have o1: "htable_over_limit (at_stats (w s) ?L)" using ws data(2) sel by (simp add: htable_over_limit_def)
  have coreL: "htable_core XXH64 (at_stats (w cs) ?L)"
    using inv_core [OF invG] core_stats_guard [of XXH64 True "at_stats (w cs) G"] by (cases G) simp
  have "htable_lookup XXH64 (at_stats (w cs) ?L) k2 = Some (new_file k2 fd l)" using lookG k12 by simp
  from bucket_last [OF coreL this] obtain b bit where b: "?i < length (buckets G)" "last_item (buckets G ! ?i) = Some b"
    "cells (items G) b = Some bit" "htable_bucket_ptr XXH64 G (key (file bit)) = ?i"
    "htable_lookup XXH64 G (key (file bit)) = Some (file bit)"
    by (auto simp: sel(4))
  have bf: "file bit = new_file k2 fd l"
    using b(4,5) apart lookG by (auto simp: sel(4) split: if_splits)
  have lb: "lock_bucket ?i (at_stats (w s) ?L) = Inr (at_stats (w s) (lockb ?i ?L))"
    "last_item (buckets (lockb ?i ?L) ! ?i) = Some b"
    using lock_idle_bucket [OF coreL, of ?i] b(1,2) lock_bucket_stats [of ?i "w s" "at_stats (w cs) ?L"]
    by (simp_all add: lockb_def)
  obtain ht1 bit1 where t: "take_last ?i b (lockb ?i (at_stats (w cs) ?L)) = Inr ht1" "cells (items ht1) b = Some bit1"
    "unlinked XXH64 (at_stats (w cs) ?L) b (file bit1) (free_item b (unlock_bucket ?i ht1))"
    using unlink_take_last [OF coreL, of ?i b] b(1,2) by auto
  have f1: "file bit1 = new_file k2 fd l" using t(3) b(3) bf by (simp add: unlinked_def files_at_def)
  have "lockb ?i (at_stats (w s) ?L) = at_stats (w s) (lockb ?i (at_stats (w cs) ?L))" by (simp add: lockb_def)
  then have t1: "take_last ?i b (at_stats (w s) (lockb ?i ?L)) = Inr (at_stats (w s) ht1)"
    using take_last_stats [of ?i b "w s" "lockb ?i (at_stats (w cs) ?L)"] t(1) by (simp add: lockb_def)
  define F where "F = free_item b (unlock_bucket ?i ht1)"
  have "F = (at_stats (w cs) ?L)\<lparr>items := items F, buckets := buckets F\<rparr>" using t(3) by (simp add: unlinked_def F_def)
  then have F: "policy F = policy ht" "max_space_in_bytes F = max_space_in_bytes ht"
    using sel by (metis (no_types, lifting) HTable.select_convs HTable.surjective HTable.update_convs)+
  have items: "items (unlock_bucket ?i ht1) = items ht1" by (simp add: unlock_bucket_def)
  define v where "v = stats_on_evict (file bit1) (w s)"
  have v: "items_count v = 0" "total_space_in_bytes v = ?sz"
    using ws f1 by (simp_all add: v_def stats_on_evict_def new_file_def)
  have d1: "draw_section [] (r # draws) (at_stats (w s) ?L) = Inr (Goes_On (Evicting [file bit1]), draws, at_stats v F)"
    using draw lb t1 t(2) ws items
    by (simp add: draw_section_def draw_bucket_def sel evicted_section_def load_item_def F_def v_def
        unlock_bucket_stats free_item_at_stats Let_def)
  have o2: "htable_over_limit (at_stats v F)" using v data(2) F by (simp add: htable_over_limit_def)
  have e1: "activity_step XXH64 (Evicting []) (r # draws) (at_stats (w s) ?L) = Inr (Goes_On (Drawing []), r # draws, at_stats (w s) ?L)"
    using o1 ws sel(1) pol by simp
  have e2: "activity_step XXH64 (Evicting [file bit1]) draws (at_stats v F) = Inl Assert_Fail"
    using o2 v(1) F(1) pol by (simp add: c_assert_def)
  show ?thesis
    using r1 c1 l1 e1 d1 e2
    by (simp add: uncounted_def thread_step_def settle_def del: activity_step.simps(7))
qed

subsection \<open>Properties\<close>

text \<open>
  C21: Two creations at the same time in one empty bucket are both answered as successful and both counted,
  but only the second file is in the table: no request finds the first one (or, if both threads create
  the same path, which one of them must be refused, the file of the first thread is replaced).
\<close>

theorem concurrent_creations_lose_a_file:
  assumes "htable_inv XXH64 ht" and "htable_lookup XXH64 ht k1 = None" and "htable_lookup XXH64 ht k2 = None"
    and "htable_bucket_ptr XXH64 ht k1 = htable_bucket_ptr XXH64 ht k2"
    and "head (buckets ht ! htable_bucket_ptr XXH64 ht k2) = None"
  shows "\<exists>s. run_schedule XXH64 [0, 1, 0, 1, 0, 1, 0, 1] (two_creations k1 k2 fd1 fd2 l draws ht) = Inr s \<and>
    map answers (threads s) = [[Answer (Reply HTABLE_ERR_OK (-1))], [Answer (Reply HTABLE_ERR_OK (-1))]] \<and>
    items_count (stats (shared s)) = items_count (stats ht) + 2 \<and>
    htable_lookup XXH64 (shared s) k2 = Some (new_file k2 fd2 l) \<and>
    (k1 \<noteq> k2 \<longrightarrow> htable_lookup XXH64 (shared s) k1 = None)"
proof -
  let ?i = "htable_bucket_ptr XXH64 ht k2" and ?a = "brk (items ht)"
  obtain s where s: "run_schedule XXH64 [0, 1, 0, 1, 0, 1, 0, 1] (two_creations k1 k2 fd1 fd2 l draws ht) = Inr s"
    "map answers (threads s) = [[Answer (Reply HTABLE_ERR_OK (-1))], [Answer (Reply HTABLE_ERR_OK (-1))]]"
    "items_count (stats (shared s)) = items_count (stats ht) + 2"
    and n: "buckets_count (shared s) = buckets_count ht" and h: "head (buckets (shared s) ! ?i) = Some (Suc ?a)"
    and lt: "Suc ?a < brk (items (shared s))"
    and c: "cells (items (shared s)) (Suc ?a) = Some \<lparr>file = new_file k2 fd2 l, next_item = None, prev_item = None\<rparr>"
    using two_creations_run [OF assms(1-3,4) refl assms(5), of fd1 fd2 l draws] by (elim exE conjE) (rule that)
  have ptr: "htable_bucket_ptr XXH64 (shared s) k1 = ?i" "htable_bucket_ptr XXH64 (shared s) k2 = ?i"
    using n assms(4) by (simp_all add: htable_bucket_ptr_def)
  obtain m where m: "brk (items (shared s)) = Suc m" using lt by (cases "brk (items (shared s))") auto
  have k2: "htable_lookup XXH64 (shared s) k2 = Some (new_file k2 fd2 l)"
    using h c by (simp add: htable_lookup_def ptr m new_file_def)
  have k1: "htable_lookup XXH64 (shared s) k1 = None" if "k1 \<noteq> k2"
    using h c that by (simp add: htable_lookup_def ptr m new_file_def)
  show ?thesis by (intro exI [of _ s] conjI impI s k2 k1)
qed

theorem concurrent_creations_lose_a_file_witness:
  "\<exists>ht s. sample_table CACHE_EVICTION_POLICY_FIFO [] = Inr ([], ht) \<and>
    run_schedule (\<lambda>_. 0) [0, 1, 0, 1, 0, 1, 0, 1] (two_creations [97] [98] 3 4 False [] ht) = Inr s \<and>
    htable_lookup (\<lambda>_. 0) (shared s) [98] = Some (new_file [98] 4 False) \<and> htable_lookup (\<lambda>_. 0) (shared s) [97] = None"
proof -
  obtain ht where ht: "sample_table CACHE_EVICTION_POLICY_FIFO [] = Inr ([], ht)" "htable_inv (\<lambda>_. 0) ht"
    "htable_lookup (\<lambda>_. 0) ht = Map.empty"
    using sample_run [of "[]" "[]" Map.empty CACHE_EVICTION_POLICY_FIFO] by auto
  have "head (buckets ht ! 0) = None"
    using ht(1) by (auto simp: sample_table_def htable_create_def)
  then have "head (buckets ht ! htable_bucket_ptr (\<lambda>_. 0) ht [98]) = None" by (simp add: htable_bucket_ptr_def)
  with concurrent_creations_lose_a_file [OF ht(2), of "[97]" "[98]" 3 4 False "[]"] ht show ?thesis
    by (auto simp: htable_bucket_ptr_def)
qed

text \<open>
  C22: An eviction must not meet a file that is created but not counted. In every table of the segmented
  policy that holds a single file, a client writes more data to that file than the space limit allows,
  while another creates a file of another bucket. If the writer runs after the new file is linked
  and before it is counted, and the first random draw selects the bucket of the new file, then it evicts
  that file, counts the table down to no files although the written one is still there, is still
  above the limit, and fails the assertion that there is a file to evict: the server aborts. (When the
  creation is counted before the write, the eviction returns: \<open>evict_files_correct\<close>.)
\<close>

theorem eviction_of_uncounted_file_aborts:
  assumes "htable_inv XXH64 ht" and "policy ht = CACHE_EVICTION_POLICY_SEGMENTED_FIFO"
    and "htable_lookup XXH64 ht = [k1 \<mapsto> f1]"
    and "htable_bucket_ptr XXH64 ht k2 \<noteq> htable_bucket_ptr XXH64 ht k1"
    and "length data < 2 ^ 64" and "of_nat (length data) > max_space_in_bytes ht"
    and "unat ((of_nat r :: u64) mod buckets_count ht) = htable_bucket_ptr XXH64 ht k2"
  shows "run_schedule XXH64 [1, 1, 1, 0, 0, 0, 0, 0, 0]
    (start_threads [[Replace k1 data], [Meta (Create k2 fd l)]] (r # draws) ht) = Inl Assert_Fail"
proof -
  have none: "htable_lookup XXH64 ht k2 = None" using assms(3,4) by auto
  obtain ht2 where ht2: "insert_item (htable_bucket_ptr XXH64 ht k2) (new_file k2 fd l) ht = Inr ht2"
    "stats ht2 = stats ht" "policy ht2 = policy ht" "max_space_in_bytes ht2 = max_space_in_bytes ht"
    "buckets_count ht2 = buckets_count ht" "htable_inv XXH64 (at_stats (stats_on_create (stats ht)) ht2)"
    "htable_lookup XXH64 ht2 = (htable_lookup XXH64 ht)(k2 \<mapsto> new_file k2 fd l)"
    using pushed_table [OF assms(1) none, of fd l] by metis
  have same: "at_stats (stats ht) ht2 = ht2" using ht2(2) by (cases ht2) simp
  have ptr: "htable_bucket_ptr XXH64 ht2 k = htable_bucket_ptr XXH64 ht k" for k
    using ht2(5) by (simp add: htable_bucket_ptr_def)
  have "run_schedule XXH64 [0, 0, 0, 0, 0, 0] (uncounted (Replace k1 data) k2 (r # draws) (at_stats (stats ht) ht2)) = Inl Assert_Fail"
    using assms ht2 one_file_stats [OF inv_core [OF assms(1)] assms(3)]
    by (intro eviction_aborts [OF ht2(6)]) (simp_all add: ptr draw_bucket_def)
  then show ?thesis using creation_links [OF assms(1) none ht2(1)] by (simp only: same)
qed

text \<open>A table with room for four bytes and one file, and a hash function with two values.\<close>

definition first_byte :: hash_fn where
  "first_byte k = (case k of [] \<Rightarrow> 0 | b # bs \<Rightarrow> ucast b)"

definition small_config :: Config where
  "small_config = (sample_config CACHE_EVICTION_POLICY_SEGMENTED_FIFO)\<lparr>max_storage_in_bytes := 4, max_files := 9\<rparr>"

theorem eviction_of_uncounted_file_aborts_witness:
  "\<exists>ht0 ht. htable_create 4 small_config = Inr ht0 \<and>
     htable_exec first_byte (Create [97] 3 False) ht0 = Inr (Reply HTABLE_ERR_OK (-1), ht) \<and>
     run_schedule first_byte [1, 1, 1, 0, 0, 0, 0, 0, 0]
       (start_threads [[Replace [97] [1, 2, 3, 4, 5]], [Meta (Create [98] 4 False)]] [98] ht) = Inl Assert_Fail"
proof -
  have "0 < (4 :: u64)" by simp
  from htable_create_inv [OF this, of small_config first_byte] obtain ht0 where
    ht0: "htable_create 4 small_config = Inr ht0" "htable_inv first_byte ht0" "htable_lookup first_byte ht0 = Map.empty"
    by blast
  from htable_exec_refines [OF ht0(2), of "Create [97] 3 False"] obtain ht where
    ht: "htable_exec first_byte (Create [97] 3 False) ht0 = Inr (Reply HTABLE_ERR_OK (-1), ht)" "htable_inv first_byte ht"
    "htable_lookup first_byte ht = [[97] \<mapsto> new_file [97] 3 False]"
    by (auto simp: refines_def ht0(3) as_reply_def spec_create_def split: sum.splits)
  have "case htable_create 4 small_config of Inl _ \<Rightarrow> False
    | Inr ht0 \<Rightarrow> (case htable_exec first_byte (Create [97] 3 False) ht0 of Inl _ \<Rightarrow> False
       | Inr (r, ht) \<Rightarrow> policy ht = CACHE_EVICTION_POLICY_SEGMENTED_FIFO \<and> buckets_count ht = 4 \<and> max_space_in_bytes ht = 4)"
    by code_simp
  then have f: "policy ht = CACHE_EVICTION_POLICY_SEGMENTED_FIFO" "buckets_count ht = 4" "max_space_in_bytes ht = 4"
    by (simp_all only: ht0(1) ht(1) sum.case prod.case)
  from eviction_of_uncounted_file_aborts [OF ht(2) f(1) ht(3), of "[98]" "[1, 2, 3, 4, 5]" 98 4 False "[]"] ht0(1) ht(1) f
  show ?thesis by (simp add: htable_bucket_ptr_def first_byte_def del: run_schedule.simps)
qed

end
