(* ===== verification/Queue_Threads.thy ===== *)
theory Queue_Threads
  imports Workload_Queue
begin

text \<open>
  The main thread and the workers on the queues, at the grain of \<open>pthread\<close> calls:
  \<open>workload_queue_pull\<close> with its mutex and condition variable, \<open>workload_queue_add\<close>,
  \<open>workload_queues_cond_signal\<close> and \<open>workers_join\<close>, and the flag of \<open>shutdown_hard\<close>, which is
  read and written outside of every mutex.

  \<^item> A worker that holds the mutex of its queue makes several steps, because the flag can be
    set between them. The main thread takes the mutex for one step at a time: all that it reads
    and writes there is protected by that mutex.
  \<^item> \<open>pthread_cond_wait\<close> releases the mutex and sleeps in one step; a sleeping worker is woken by
    a signal, or for no reason, and then has to take the mutex again.
  \<^item> Handling a message is one step, so it is assumed to return. (It does not when it needs a bucket that
    a visit has left locked, \<open>visit_locks_clients_out\<close>.) A hand-over through a dangling \<open>last_incoming\<close> is undefined
    behaviour and no step (\<open>next_message_after_free\<close>).

  The lemmas show that no wake-up is lost: once the main thread has left its loop, every run
  ends, with all workers joined and all queues freed.
\<close>

subsection \<open>States and steps\<close>

datatype worker_pc =
    W_Start
  | W_Lock
  | W_Test
  | W_Flag
  | W_Wait
  | W_Sleep
  | W_Woken
  | W_Leave
  | W_Handle nat
  | W_Exit

datatype main_pc =
    M_Loop
  | M_Signal nat
  | M_Join
  | M_Free
  | M_Done

record Queue_System =
  qload :: Workload
  wpcs :: "worker_pc list"
  mpc :: main_pc
  qhard :: bool

fun holds_mutex :: "worker_pc \<Rightarrow> bool" where
  "holds_mutex W_Test = True"
| "holds_mutex W_Flag = True"
| "holds_mutex W_Wait = True"
| "holds_mutex W_Leave = True"
| "holds_mutex _ = False"

text \<open>\<open>pthread_cond_signal\<close> on the queue of a worker, the only thread that waits there.\<close>

definition wake :: "worker_pc \<Rightarrow> worker_pc" where
  "wake p = (if p = W_Sleep then W_Woken else p)"

definition set_pc :: "nat \<Rightarrow> worker_pc \<Rightarrow> Queue_System \<Rightarrow> Queue_System" where
  "set_pc i p s = s\<lparr>wpcs := (wpcs s)[i := p]\<rparr>"

definition qnext :: "nat \<Rightarrow> Queue_System \<Rightarrow> ptr" where
  "qnext i s = next_incoming (workload_queues (qload s) ! i)"

definition signal_queue :: "nat \<Rightarrow> Queue_System \<Rightarrow> Queue_System" where
  "signal_queue i s = set_pc i (wake (wpcs s ! i)) s"

text \<open>The steps of a worker: \<open>worker_entry_point\<close> and \<open>workload_queue_pull\<close>.\<close>

fun worker_step :: "nat \<Rightarrow> worker_pc \<Rightarrow> Queue_System \<Rightarrow> Queue_System option" where
  "worker_step i W_Start s = Some (set_pc i W_Lock s)"
| "worker_step i W_Lock s = Some (set_pc i W_Test s)"
| "worker_step i W_Test s = Some (set_pc i (if qnext i s = None then W_Flag else W_Leave) s)"
| "worker_step i W_Flag s = Some (set_pc i (if qhard s then W_Leave else W_Wait) s)"
| "worker_step i W_Wait s = Some (set_pc i W_Sleep s)"
| "worker_step i W_Sleep s = None"
| "worker_step i W_Woken s = Some (set_pc i W_Test s)"
| "worker_step i W_Leave s =
     (case workload_queue_pull True i (qload s) of
        Inr (Pull_Returns None, w) \<Rightarrow> Some (set_pc i W_Exit (s\<lparr>qload := w\<rparr>))
      | Inr (Pull_Returns (Some a), w) \<Rightarrow> Some (set_pc i (W_Handle a) (s\<lparr>qload := w\<rparr>))
      | _ \<Rightarrow> None)"
| "worker_step i (W_Handle a) s = Some (set_pc i W_Lock (s\<lparr>qload := free_message a (qload s)\<rparr>))"
| "worker_step i W_Exit s = None"

text \<open>
  A step of any thread. With \<open>sp\<close> a sleeping worker may also be woken for no reason, which the
  standard allows but does not promise.
\<close>

inductive queue_step :: "bool \<Rightarrow> Queue_System \<Rightarrow> Queue_System \<Rightarrow> bool" where
  work: "i < length (wpcs s) \<Longrightarrow> worker_step i (wpcs s ! i) s = Some s' \<Longrightarrow> queue_step sp s s'"
| add: "mpc s = M_Loop \<Longrightarrow> i < length (wpcs s) \<Longrightarrow> \<not> holds_mutex (wpcs s ! i) \<Longrightarrow>
    heap_alloc \<lparr>msg_fd = fd, msg_buffer = buf, msg_next = None\<rparr> (messages (qload s)) = (a, h) \<Longrightarrow>
    workload_queue_add a i ((qload s)\<lparr>messages := h\<rparr>) = Inr w \<Longrightarrow>
    queue_step sp s (signal_queue i (s\<lparr>qload := w\<rparr>))"
| signal_handler: "mpc s = M_Loop \<Longrightarrow> queue_step sp s (s\<lparr>qhard := True\<rparr>)"
| leave: "mpc s = M_Loop \<Longrightarrow> queue_step sp s (s\<lparr>qhard := True, mpc := M_Signal 0\<rparr>)"
| signal: "mpc s = M_Signal i \<Longrightarrow> i < length (wpcs s) \<Longrightarrow> \<not> holds_mutex (wpcs s ! i) \<Longrightarrow>
    queue_step sp s (signal_queue i (s\<lparr>mpc := M_Signal (Suc i)\<rparr>))"
| signalled: "mpc s = M_Signal (length (wpcs s)) \<Longrightarrow> queue_step sp s (s\<lparr>mpc := M_Join\<rparr>)"
| join: "mpc s = M_Join \<Longrightarrow> list_all (\<lambda>p. p = W_Exit) (wpcs s) \<Longrightarrow> queue_step sp s (s\<lparr>mpc := M_Free\<rparr>)"
| free: "mpc s = M_Free \<Longrightarrow> workload_queues_free (workload_queues (qload s)) (messages (qload s)) = Inr h \<Longrightarrow>
    queue_step sp s (s\<lparr>qload := (qload s)\<lparr>messages := h\<rparr>, mpc := M_Done\<rparr>)"
| spurious: "sp \<Longrightarrow> i < length (wpcs s) \<Longrightarrow> wpcs s ! i = W_Sleep \<Longrightarrow> queue_step sp s (set_pc i W_Woken s)"

inductive_cases queue_stepE: "queue_step sp s s'"

definition queue_start :: "u32 \<Rightarrow> Queue_System" where
  "queue_start n =
     \<lparr>qload = workload_queues_init n heap_empty, wpcs = replicate (unat n) W_Start, mpc = M_Loop, qhard = False\<rparr>"

subsection \<open>Without interruptions the steps are the operation\<close>

lemma set_pc_twice [simp]: "set_pc i p (set_pc i q s) = set_pc i p s"
  by (simp add: set_pc_def)

lemma set_pc_sel [simp]:
  "i < length (wpcs s) \<Longrightarrow> wpcs (set_pc i p s) ! i = p" "length (wpcs (set_pc i p s)) = length (wpcs s)"
  "qload (set_pc i p s) = qload s" "qhard (set_pc i p s) = qhard s" "mpc (set_pc i p s) = mpc s"
  by (simp_all add: set_pc_def)

lemma qnext_set_pc [simp]: "qnext j (set_pc i p s) = qnext j s"
  by (simp add: qnext_def)

lemma work_pc: "i < length (wpcs s) \<Longrightarrow> worker_step i p (set_pc i p s) = Some s' \<Longrightarrow> queue_step sp (set_pc i p s) s'"
  by (rule queue_step.work [of i]) simp_all

text \<open>
  A worker that calls \<open>workload_queue_pull\<close> and is not interrupted gets what the operation of
  \<open>Workload_Queue\<close> returns; where that waits, the worker is asleep on the condition variable.
\<close>

lemma pull_is_steps:
  assumes i: "i < length (wpcs s)" and pc: "wpcs s ! i = W_Lock"
    and pull: "workload_queue_pull (qhard s) i (qload s) = Inr (r, w)"
  shows "(queue_step sp)\<^sup>*\<^sup>* s (set_pc i
    (case r of Pull_Waits \<Rightarrow> W_Sleep | Pull_Returns None \<Rightarrow> W_Exit | Pull_Returns (Some a) \<Rightarrow> W_Handle a) (s\<lparr>qload := w\<rparr>))"
proof -
  have s: "s = set_pc i W_Lock s" using pc by (simp add: set_pc_def flip: pc)
  have q: "i < length (workload_queues (qload s))" using pull by (auto simp: workload_queue_pull_def workload_queue_get_def split: if_splits)
  have "queue_step sp (set_pc i W_Lock s) (set_pc i W_Test s)" by (rule work_pc [OF i]) simp
  then have test: "(queue_step sp)\<^sup>*\<^sup>* s (set_pc i W_Test s)" using s by auto
  have upd: "set_pc i p s\<lparr>qload := w\<rparr> = set_pc i p (s\<lparr>qload := w\<rparr>)" for p by (simp add: set_pc_def)
  show ?thesis
  proof (cases "qnext i s")
    case (Some a)
    then obtain m where "heap_load a (messages (qload s)) = Inr m" and r: "r = Pull_Returns (Some a)"
      and full: "workload_queue_pull True i (qload s) = Inr (Pull_Returns (Some a), w)"
      using pull q by (auto simp: workload_queue_pull_def workload_queue_get_def qnext_def bind_result_eq_Inr)
    have "queue_step sp (set_pc i W_Test s) (set_pc i W_Leave s)" by (rule work_pc [OF i]) (simp add: Some)
    moreover have "queue_step sp (set_pc i W_Leave s) (set_pc i (W_Handle a) (s\<lparr>qload := w\<rparr>))"
      by (rule work_pc [OF i]) (simp add: full upd)
    ultimately show ?thesis using test r by (simp add: rtranclp.rtrancl_into_rtrancl)
  next
    case None
    then have w: "w = qload s" and r: "r = (if qhard s then Pull_Returns None else Pull_Waits)"
      and full: "workload_queue_pull True i (qload s) = Inr (Pull_Returns None, qload s)"
      using pull q by (auto simp: workload_queue_pull_def workload_queue_get_def qnext_def)
    have same: "s\<lparr>qload := qload s\<rparr> = s" by simp
    have "queue_step sp (set_pc i W_Test s) (set_pc i W_Flag s)" by (rule work_pc [OF i]) (simp add: None)
    with test have flag: "(queue_step sp)\<^sup>*\<^sup>* s (set_pc i W_Flag s)" by simp
    show ?thesis
    proof (cases "qhard s")
      case True
      have "queue_step sp (set_pc i W_Flag s) (set_pc i W_Leave s)" by (rule work_pc [OF i]) (simp add: True)
      moreover have "queue_step sp (set_pc i W_Leave s) (set_pc i W_Exit s)"
        by (rule work_pc [OF i]) (simp add: full set_pc_def)
      ultimately show ?thesis using flag r True by (simp add: w same)
    next
      case False
      have "queue_step sp (set_pc i W_Flag s) (set_pc i W_Wait s)" by (rule work_pc [OF i]) (simp add: False)
      moreover have "queue_step sp (set_pc i W_Wait s) (set_pc i W_Sleep s)" by (rule work_pc [OF i]) simp
      ultimately show ?thesis using flag r False by (simp add: w same)
    qed
  qed
qed

subsection \<open>Ownership of messages\<close>

text \<open>
  The pending message of a queue is the last one that was added to it and has no successor; a
  message has been added to one queue only; a message in \<open>H\<close>, which a worker is handling, is
  pending nowhere.
\<close>

definition own :: "Workload \<Rightarrow> nat set \<Rightarrow> bool" where
  "own w H \<longleftrightarrow>
     heap_ok (messages w) \<and>
     (\<forall>i < length (workload_queues w). \<forall>a. next_incoming (workload_queues w ! i) = Some a \<longrightarrow>
        last_incoming (workload_queues w ! i) = Some a \<and> a \<notin> H \<and>
        (\<exists>m. cells (messages w) a = Some m \<and> msg_next m = None)) \<and>
     (\<forall>i < length (workload_queues w). \<forall>l. last_incoming (workload_queues w ! i) = Some l \<longrightarrow> l < brk (messages w)) \<and>
     (\<forall>i < length (workload_queues w). \<forall>j < length (workload_queues w). i \<noteq> j \<longrightarrow>
        last_incoming (workload_queues w ! i) = last_incoming (workload_queues w ! j) \<longrightarrow>
        last_incoming (workload_queues w ! i) = None) \<and>
     (\<forall>a \<in> H. a < brk (messages w))"

lemma own_subset: "own w H \<Longrightarrow> H' \<subseteq> H \<Longrightarrow> own w H'"
  by (fastforce simp: own_def)

lemma own_pending:
  assumes "own w H" and "i < length (workload_queues w)" and "next_incoming (workload_queues w ! i) = Some a"
  obtains m where "last_incoming (workload_queues w ! i) = Some a" and "a \<notin> H"
    and "cells (messages w) a = Some m" and "msg_next m = None"
  using assms unfolding own_def by blast

lemma own_last: "own w H \<Longrightarrow> i < length (workload_queues w) \<Longrightarrow> last_incoming (workload_queues w ! i) = Some l \<Longrightarrow> l < brk (messages w)"
  by (simp add: own_def)

lemma queue_upd: "(q :: WorkloadQueue)\<lparr>next_incoming := x, last_incoming := y\<rparr> = \<lparr>next_incoming = x, last_incoming = y\<rparr>"
  by (cases q) simp

lemma add_effect:
  assumes "heap_alloc m (messages w) = (a, h)" and "workload_queue_add a i (w\<lparr>messages := h\<rparr>) = Inr w'"
  shows "i < length (workload_queues w) \<and> a = brk (messages w) \<and>
    workload_queues w' = (workload_queues w)[i := \<lparr>next_incoming = Some a, last_incoming = Some a\<rparr>] \<and>
    brk (messages w') = Suc a \<and>
    (\<forall>b. last_incoming (workload_queues w ! i) \<noteq> Some b \<longrightarrow> cells (messages w') b = ((cells (messages w))(a \<mapsto> m)) b) \<and>
    dom (cells (messages w')) = insert a (dom (cells (messages w)))"
  using assms
  by (auto simp: heap_alloc_def workload_queue_add_def workload_queue_get_def set_queue_def set_next_def c_assert_def
      heap_load_def Let_def bind_result_eq_Inr queue_upd split: if_splits option.splits)

lemma own_add:
  assumes own: "own w H" and alloc: "heap_alloc m (messages w) = (a, h)" and m: "msg_next m = None"
    and add: "workload_queue_add a i (w\<lparr>messages := h\<rparr>) = Inr w'"
  shows "own w' H"
proof -
  note e = add_effect [OF alloc add]
  have fresh: "cells (messages w) a = None" using own e heap_ok_fresh by (auto simp: own_def)
  have "heap_ok (messages w')" using own e by (auto simp: own_def heap_ok_def)
  moreover have "last_incoming (workload_queues w' ! j) = Some b \<and> b \<notin> H \<and> (\<exists>m. cells (messages w') b = Some m \<and> msg_next m = None)"
    if j: "j < length (workload_queues w')" and b: "next_incoming (workload_queues w' ! j) = Some b" for j b
  proof (cases "j = i")
    case True
    then have "b = a" using j b e by simp
    moreover have "last_incoming (workload_queues w ! i) \<noteq> Some a" using own e by (auto simp: own_def)
    moreover have "a \<notin> H" using own e by (auto simp: own_def)
    ultimately show ?thesis using True e m by simp
  next
    case False
    then have jb: "j < length (workload_queues w)" "next_incoming (workload_queues w ! j) = Some b" using j b e by simp_all
    then have old: "last_incoming (workload_queues w ! j) = Some b" "b \<notin> H" "\<exists>m. cells (messages w) b = Some m \<and> msg_next m = None"
      using own by (auto simp: own_def)
    moreover have "last_incoming (workload_queues w ! i) \<noteq> Some b" using own False jb(1) e old(1) unfolding own_def by (metis option.distinct(1))
    moreover have "b \<noteq> a" using fresh old(3) by auto
    ultimately show ?thesis using False e by simp
  qed
  moreover have "l < brk (messages w')" if "j < length (workload_queues w')" "last_incoming (workload_queues w' ! j) = Some l" for j l
    using that own e by (cases "j = i") (auto simp: own_def less_Suc_eq)
  moreover have "last_incoming (workload_queues w' ! j) = None"
    if j: "j < length (workload_queues w')" "k < length (workload_queues w')" "j \<noteq> k"
      and l: "last_incoming (workload_queues w' ! j) = last_incoming (workload_queues w' ! k)" for j k
  proof -
    have "last_incoming (workload_queues w ! q) \<noteq> Some a" if "q < length (workload_queues w)" for q
      using own e that by (auto simp: own_def)
    with j l own e show ?thesis by (auto simp: own_def nth_list_update split: if_splits)
  qed
  moreover have "\<forall>b \<in> H. b < brk (messages w')" using own e by (auto simp: own_def less_Suc_eq)
  ultimately show ?thesis unfolding own_def by blast
qed

lemma own_pull:
  assumes own: "own w H" and i: "i < length (workload_queues w)" and a: "next_incoming (workload_queues w ! i) = Some a"
  shows "\<exists>w'. workload_queue_pull True i w = Inr (Pull_Returns (Some a), w') \<and> own w' (insert a H) \<and>
    workload_queues w' = (workload_queues w)[i := (workload_queues w ! i)\<lparr>next_incoming := None\<rparr>]"
proof -
  obtain m where m: "cells (messages w) a = Some m" "msg_next m = None"
    and la: "last_incoming (workload_queues w ! i) = Some a" and ab: "a < brk (messages w)"
    using own_pending [OF own i a] own_last [OF own i] by metis
  define w' where "w' = w\<lparr>
    workload_queues := (workload_queues w)[i := (workload_queues w ! i)\<lparr>next_incoming := None\<rparr>],
    messages := heap_store a (m\<lparr>msg_next := None\<rparr>) (messages w)\<rparr>"
  have "workload_queue_pull True i w = Inr (Pull_Returns (Some a), w')"
    using i a m by (simp add: workload_queue_pull_def workload_queue_get_def set_next_def set_queue_def w'_def)
  moreover have "m\<lparr>msg_next := None\<rparr> = m" using m(2) by (cases m) simp
  then have "heap_store a (m\<lparr>msg_next := None\<rparr>) (messages w) = messages w" using m(1) by (simp add: heap_store_def fun_upd_idem)
  then have w': "messages w' = messages w" "workload_queues w' = (workload_queues w)[i := (workload_queues w ! i)\<lparr>next_incoming := None\<rparr>]"
    by (simp_all add: w'_def)
  have len: "length (workload_queues w') = length (workload_queues w)" by (simp add: w'(2))
  have lasts: "last_incoming (workload_queues w' ! j) = last_incoming (workload_queues w ! j)" if "j < length (workload_queues w)" for j
    using that by (cases "j = i") (simp_all add: w')
  have nexts: "next_incoming (workload_queues w' ! j) = (if j = i then None else next_incoming (workload_queues w ! j))"
    if "j < length (workload_queues w)" for j
    using that by (cases "j = i") (simp_all add: w')
  have other: "b \<noteq> a" if "j < length (workload_queues w)" "j \<noteq> i" "next_incoming (workload_queues w ! j) = Some b" for j b
    using own that i la unfolding own_def by (metis option.distinct(1))
  have "own w' (insert a H)"
    using own ab other len unfolding own_def by (simp add: w'(1) lasts nexts)
  ultimately show ?thesis using w'(2) by blast
qed

lemma own_free: "own w H \<Longrightarrow> a \<in> H \<Longrightarrow> own (free_message a w) H"
  by (auto simp: own_def free_message_def heap_ok_free)


subsection \<open>The invariant\<close>

definition handled :: "worker_pc list \<Rightarrow> nat set" where
  "handled ps = {a. W_Handle a \<in> set ps}"

text \<open>The workers whose queue the main thread has signalled after it has set the flag.\<close>

fun signalled :: "nat \<Rightarrow> main_pc \<Rightarrow> bool" where
  "signalled i M_Loop = False"
| "signalled i (M_Signal j) = (i < j)"
| "signalled i _ = True"

definition queue_inv :: "Queue_System \<Rightarrow> bool" where
  "queue_inv s \<longleftrightarrow>
     length (workload_queues (qload s)) = length (wpcs s) \<and>
     (mpc s \<noteq> M_Done \<longrightarrow> own (qload s) (handled (wpcs s))) \<and>
     (mpc s \<noteq> M_Loop \<longrightarrow> qhard s) \<and>
     (\<forall>j. mpc s = M_Signal j \<longrightarrow> j \<le> length (wpcs s)) \<and>
     (mpc s = M_Free \<or> mpc s = M_Done \<longrightarrow> list_all (\<lambda>p. p = W_Exit) (wpcs s)) \<and>
     (\<forall>i < length (wpcs s). signalled i (mpc s) \<longrightarrow> wpcs s ! i \<noteq> W_Wait \<and> wpcs s ! i \<noteq> W_Sleep)"

lemma handled_update: "handled (ps[i := p]) \<subseteq> handled ps \<union> {a. p = W_Handle a}"
  using set_update_subset_insert [of ps i p] by (auto simp: handled_def)

lemma handled_nth: "i < length ps \<Longrightarrow> ps ! i = W_Handle a \<Longrightarrow> a \<in> handled ps"
  by (auto simp: handled_def dest: nth_mem)

lemma handled_update_other: "(\<And>a. p \<noteq> W_Handle a) \<Longrightarrow> handled (ps[i := p]) \<subseteq> handled ps"
  using handled_update [of ps i p] by auto

lemma handled_wake: "i < length ps \<Longrightarrow> handled (ps[i := wake (ps ! i)]) \<subseteq> handled ps"
  using handled_update [of ps i "wake (ps ! i)"] handled_nth [of i ps] by (auto simp: wake_def split: if_splits)

text \<open>A step of a worker that does not touch its queue.\<close>

lemma busy_not_done: "queue_inv s \<Longrightarrow> i < length (wpcs s) \<Longrightarrow> wpcs s ! i \<noteq> W_Exit \<Longrightarrow> mpc s \<noteq> M_Free \<and> mpc s \<noteq> M_Done"
  by (auto simp: queue_inv_def list_all_length)

lemma queue_inv_pc:
  assumes inv: "queue_inv s" and i: "i < length (wpcs s)" and "\<And>a. p \<noteq> W_Handle a" and "wpcs s ! i \<noteq> W_Exit"
    and "p = W_Wait \<longrightarrow> \<not> qhard s" and "p = W_Sleep \<longrightarrow> wpcs s ! i = W_Wait"
  shows "queue_inv (set_pc i p s)"
proof -
  have busy: "mpc s \<noteq> M_Free" "mpc s \<noteq> M_Done" using busy_not_done [OF inv i assms(4)] by simp_all
  then have "own (qload s) (handled ((wpcs s)[i := p]))"
    using inv own_subset [OF _ handled_update_other [OF assms(3)]] by (simp add: queue_inv_def)
  with assms(5,6) inv i busy show ?thesis
    by (auto simp: queue_inv_def set_pc_def nth_list_update)
qed

lemma worker_step_inv:
  assumes inv: "queue_inv s" and i: "i < length (wpcs s)" and step: "worker_step i (wpcs s ! i) s = Some s'"
  shows "queue_inv s'"
proof (cases "wpcs s ! i")
  case W_Leave
  have len: "length (workload_queues (qload s)) = length (wpcs s)" and own: "own (qload s) (handled (wpcs s))"
    using inv busy_not_done [OF inv i] W_Leave by (simp_all add: queue_inv_def)
  show ?thesis
  proof (cases "next_incoming (workload_queues (qload s) ! i)")
    case None
    then have "workload_queue_pull True i (qload s) = Inr (Pull_Returns None, qload s)"
      using i len by (simp add: workload_queue_pull_def workload_queue_get_def)
    with step W_Leave have "s' = set_pc i W_Exit s" by simp
    with queue_inv_pc [OF inv i, of W_Exit] W_Leave show ?thesis by simp
  next
    case (Some a)
    from own_pull [OF own _ Some] i len obtain w' where
      "workload_queue_pull True i (qload s) = Inr (Pull_Returns (Some a), w')" and w': "own w' (insert a (handled (wpcs s)))"
      "length (workload_queues w') = length (wpcs s)" by auto
    with step W_Leave have s': "s' = set_pc i (W_Handle a) (s\<lparr>qload := w'\<rparr>)" by simp
    have "own w' (handled ((wpcs s)[i := W_Handle a]))"
      using handled_update [of "wpcs s" i "W_Handle a"] by (intro own_subset [OF w'(1)]) auto
    with inv i busy_not_done [OF inv i] W_Leave w'(2) show ?thesis
      unfolding s' by (auto simp: queue_inv_def set_pc_def nth_list_update)
  qed
next
  case (W_Handle a)
  then have s': "s' = set_pc i W_Lock (s\<lparr>qload := free_message a (qload s)\<rparr>)" using step by simp
  have "own (free_message a (qload s)) (handled (wpcs s))"
    using inv handled_nth [OF i W_Handle] own_free busy_not_done [OF inv i] W_Handle by (simp add: queue_inv_def)
  then have "queue_inv (s\<lparr>qload := free_message a (qload s)\<rparr>)"
    using inv by (simp add: queue_inv_def free_message_def)
  from queue_inv_pc [OF this, of i W_Lock] i W_Handle show ?thesis unfolding s' by simp
next
  case W_Flag
  with step have "s' = set_pc i (if qhard s then W_Leave else W_Wait) s" by simp
  with queue_inv_pc [OF inv i] W_Flag show ?thesis by simp
qed (use step queue_inv_pc [OF inv i] in auto)

lemma queue_inv_step:
  assumes "queue_step sp s s'" and inv: "queue_inv s"
  shows "queue_inv s'"
  using assms(1)
proof cases
  case (work i)
  with worker_step_inv [OF inv] show ?thesis by blast
next
  case (add i fd buf a h w)
  have "own w (handled (wpcs s))" using own_add [OF _ add(5) _ add(6)] inv add(2) by (simp add: queue_inv_def)
  then have "own w (handled ((wpcs s)[i := wake (wpcs s ! i)]))" using handled_wake [OF add(3)] by (rule own_subset)
  moreover have "length (workload_queues w) = length (wpcs s)"
    using add_effect [OF add(5,6)] inv by (auto simp: queue_inv_def)
  ultimately show ?thesis
    using inv add(2) unfolding add(1) by (simp add: queue_inv_def set_pc_def signal_queue_def)
next
  case (signal i)
  have "own (qload s) (handled ((wpcs s)[i := wake (wpcs s ! i)]))"
    using own_subset [OF _ handled_wake [OF signal(3)]] inv signal(2) by (simp add: queue_inv_def)
  moreover have "wake (wpcs s ! i) \<noteq> W_Wait \<and> wake (wpcs s ! i) \<noteq> W_Sleep" using signal(4) by (auto simp: wake_def)
  ultimately show ?thesis
    using inv signal(2,3) unfolding signal(1) by (auto simp: queue_inv_def set_pc_def signal_queue_def nth_list_update less_Suc_eq)
next
  case (spurious i)
  with queue_inv_pc [OF inv, of i W_Woken] show ?thesis by simp
next
  case signalled
  with inv show ?thesis by (auto simp: queue_inv_def)
qed (use inv in \<open>auto simp: queue_inv_def\<close>)

lemma queue_inv_start: "queue_inv (queue_start n)"
  by (auto simp: queue_inv_def queue_start_def workload_queues_init_def own_def handled_def)

interpretation queues: step_invariant "\<lambda>s. \<exists>n. s = queue_start n" "queue_step sp" queue_inv
  for sp
  by unfold_locales (use queue_inv_start queue_inv_step in blast)+

subsection \<open>Shutdown ends\<close>

text \<open>How many steps a worker can still make, and the main thread, once it has left its loop.\<close>

fun pc_bound :: "worker_pc \<Rightarrow> nat" where
  "pc_bound W_Exit = 0"
| "pc_bound W_Leave = 1"
| "pc_bound W_Flag = 2"
| "pc_bound W_Test = 3"
| "pc_bound W_Lock = 4"
| "pc_bound W_Woken = 4"
| "pc_bound W_Start = 5"
| "pc_bound W_Sleep = 5"
| "pc_bound (W_Handle a) = 5"
| "pc_bound W_Wait = 6"

fun main_bound :: "nat \<Rightarrow> main_pc \<Rightarrow> nat" where
  "main_bound n M_Loop = 0"
| "main_bound n (M_Signal j) = 3 + (n - j)"
| "main_bound n M_Join = 2"
| "main_bound n M_Free = 1"
| "main_bound n M_Done = 0"

definition worker_bound :: "Queue_System \<Rightarrow> nat \<Rightarrow> nat" where
  "worker_bound s i = pc_bound (wpcs s ! i) + (if qnext i s = None then 0 else 10)"

definition shutdown_bound :: "Queue_System \<Rightarrow> nat" where
  "shutdown_bound s = (\<Sum>i < length (wpcs s). worker_bound s i) + main_bound (length (wpcs s)) (mpc s)"

lemma sum_update_less:
  fixes f g :: "nat \<Rightarrow> nat"
  assumes "i < n" and "f i < g i" and "\<And>j. j < n \<Longrightarrow> j \<noteq> i \<Longrightarrow> f j \<le> g j"
  shows "sum f {..<n} < sum g {..<n}"
  using assms by (intro sum_strict_mono_ex1) (auto, metis order_less_imp_le)

text \<open>The other queues, and the other workers, are not concerned by a step of worker \<open>i\<close>.\<close>

lemma bound_of_worker:
  assumes "i < length (wpcs s)" and "wpcs s' = (wpcs s)[i := p]" and "mpc s' = mpc s"
    and "\<And>j. j < length (wpcs s) \<Longrightarrow> j \<noteq> i \<Longrightarrow> qnext j s' = qnext j s"
    and "pc_bound p + (if qnext i s' = None then 0 else 10) < worker_bound s i"
  shows "shutdown_bound s' < shutdown_bound s"
proof -
  have "(\<Sum>j < length (wpcs s). worker_bound s' j) < (\<Sum>j < length (wpcs s). worker_bound s j)"
    using assms by (intro sum_update_less [of i]) (auto simp: worker_bound_def)
  then show ?thesis using assms by (simp add: shutdown_bound_def)
qed

lemma worker_step_bound:
  assumes inv: "queue_inv s" and hard: "qhard s" and i: "i < length (wpcs s)"
    and step: "worker_step i (wpcs s ! i) s = Some s'"
  shows "shutdown_bound s' < shutdown_bound s \<and> mpc s' = mpc s"
proof (cases "wpcs s ! i")
  case W_Leave
  have len: "length (workload_queues (qload s)) = length (wpcs s)" and own: "own (qload s) (handled (wpcs s))"
    using inv busy_not_done [OF inv i] W_Leave by (simp_all add: queue_inv_def)
  show ?thesis
  proof (cases "next_incoming (workload_queues (qload s) ! i)")
    case None
    then have "workload_queue_pull True i (qload s) = Inr (Pull_Returns None, qload s)"
      using i len by (simp add: workload_queue_pull_def workload_queue_get_def)
    with step W_Leave have s': "s' = set_pc i W_Exit s" by simp
    show ?thesis
      using None W_Leave unfolding s'
      by (auto simp: set_pc_def qnext_def worker_bound_def intro!: bound_of_worker [OF i])
  next
    case (Some a)
    from own_pull [OF own _ Some] i len obtain w' where
      "workload_queue_pull True i (qload s) = Inr (Pull_Returns (Some a), w')"
      and w': "workload_queues w' = (workload_queues (qload s))[i := (workload_queues (qload s) ! i)\<lparr>next_incoming := None\<rparr>]"
      by auto
    with step W_Leave have s': "s' = set_pc i (W_Handle a) (s\<lparr>qload := w'\<rparr>)" by simp
    show ?thesis
      using Some W_Leave i len w' unfolding s'
      by (auto simp: set_pc_def qnext_def worker_bound_def intro!: bound_of_worker [OF i])
  qed
next
  case (W_Handle a)
  with step have s': "s' = set_pc i W_Lock (s\<lparr>qload := free_message a (qload s)\<rparr>)" by simp
  show ?thesis
    using W_Handle unfolding s'
    by (auto simp: set_pc_def qnext_def worker_bound_def free_message_def intro!: bound_of_worker [OF i])
qed (use step hard in \<open>auto simp: set_pc_def qnext_def worker_bound_def intro!: bound_of_worker [OF i]\<close>)

lemma shutdown_step:
  assumes step: "queue_step sp s s'" and inv: "queue_inv s" and down: "mpc s \<noteq> M_Loop"
  shows "shutdown_bound s' < shutdown_bound s \<and> mpc s' \<noteq> M_Loop"
  using step
proof cases
  case (work i)
  with worker_step_bound [OF inv _ work] inv down show ?thesis by (auto simp: queue_inv_def)
next
  case (signal i)
  have "(\<Sum>j < length (wpcs s). worker_bound s' j) \<le> (\<Sum>j < length (wpcs s). worker_bound s j)"
    unfolding signal(1) using signal(3)
    by (intro sum_mono) (auto simp: worker_bound_def set_pc_def signal_queue_def qnext_def wake_def nth_list_update)
  with signal show ?thesis by (auto simp: shutdown_bound_def set_pc_def signal_queue_def)
next
  case (spurious i)
  then have "shutdown_bound s' < shutdown_bound s"
    by (auto simp: set_pc_def qnext_def worker_bound_def intro!: bound_of_worker [of i])
  with spurious down show ?thesis by (simp add: set_pc_def)
qed (use down in \<open>auto simp: shutdown_bound_def worker_bound_def qnext_def\<close>)

text \<open>Freeing the queues at the end meets no message twice and no dangling pointer.\<close>

lemma free_pending:
  assumes "\<forall>q \<in> set qs. \<forall>a. next_incoming q = Some a \<longrightarrow> (\<exists>m. cells h a = Some m \<and> msg_next m = None)"
    and "distinct (concat (map (\<lambda>q. case next_incoming q of None \<Rightarrow> [] | Some a \<Rightarrow> [a]) qs))"
  shows "\<exists>h'. workload_queues_free qs h = Inr h'"
  using assms
proof (induction qs arbitrary: h)
  case (Cons q qs)
  show ?case
  proof (cases "next_incoming q")
    case None
    with Cons show ?thesis by simp
  next
    case (Some a)
    then obtain m where m: "cells h a = Some m" "msg_next m = None" using Cons.prems(1) by auto
    have "\<exists>h'. workload_queues_free qs (heap_free a h) = Inr h'"
      using Cons.prems Some by (intro Cons.IH) (fastforce split: option.splits)+
    with Some m show ?thesis by (simp add: numeral_eq_Suc)
  qed
qed simp

lemma own_distinct:
  assumes "own w H"
  shows "distinct (concat (map (\<lambda>q. case next_incoming q of None \<Rightarrow> [] | Some a \<Rightarrow> [a]) (workload_queues w)))"
proof -
  let ?f = "\<lambda>q. case next_incoming q of None \<Rightarrow> [] | Some a \<Rightarrow> [a]" and ?qs = "workload_queues w"
  have "distinct (concat (map ?f (take k ?qs)))" for k
  proof (induction k)
    case (Suc k)
    show ?case
    proof (cases "k < length ?qs")
      case True
      have "a \<notin> set (concat (map ?f (take k ?qs)))" if a: "next_incoming (?qs ! k) = Some a" for a
      proof
        assume "a \<in> set (concat (map ?f (take k ?qs)))"
        then obtain j where j: "j < k" "next_incoming (?qs ! j) = Some a"
          by (auto simp: in_set_conv_nth split: option.splits)
        with a True assms have "last_incoming (?qs ! j) = Some a" "last_incoming (?qs ! k) = Some a"
          using own_pending [OF assms] by (metis less_trans)+
        with j True assms show False unfolding own_def by (metis less_trans nat_neq_iff option.distinct(1))
      qed
      with Suc True show ?thesis by (auto simp: take_Suc_conv_app_nth split: option.splits)
    qed (use Suc in simp)
  qed simp
  from this [of "length ?qs"] show ?thesis by simp
qed

lemma shutdown_progress:
  assumes inv: "queue_inv s" and down: "mpc s \<noteq> M_Loop" and stuck: "\<nexists>s'. queue_step False s s'"
  shows "mpc s = M_Done"
proof (cases "mpc s = M_Done")
  case False
  have own: "own (qload s) (handled (wpcs s))" and len: "length (workload_queues (qload s)) = length (wpcs s)"
    using inv False by (simp_all add: queue_inv_def)
  have idle: "wpcs s ! i = W_Exit \<or> wpcs s ! i = W_Sleep" if i: "i < length (wpcs s)" for i
  proof (rule ccontr)
    assume ne: "\<not> (wpcs s ! i = W_Exit \<or> wpcs s ! i = W_Sleep)"
    have "\<exists>s'. worker_step i (wpcs s ! i) s = Some s'"
    proof (cases "wpcs s ! i")
      case W_Leave
      show ?thesis
      proof (cases "next_incoming (workload_queues (qload s) ! i)")
        case None
        with W_Leave i len show ?thesis by (simp add: workload_queue_pull_def workload_queue_get_def)
      next
        case (Some a)
        with own_pull [OF own _ Some] i len W_Leave show ?thesis by auto
      qed
    qed (use ne in auto)
    with stuck i queue_step.work show False by blast
  qed
  show ?thesis
  proof (cases "mpc s")
    case (M_Signal j)
    then have j: "j \<le> length (wpcs s)" using inv by (simp add: queue_inv_def)
    have "\<not> holds_mutex (wpcs s ! j)" if "j < length (wpcs s)" using idle [OF that] by auto
    with M_Signal j stuck queue_step.signal [OF M_Signal] queue_step.signalled [of s] show ?thesis
      by (metis le_neq_implies_less)
  next
    case M_Join
    then have "wpcs s ! i = W_Exit" if "i < length (wpcs s)" for i
      using idle [OF that] inv that by (auto simp: queue_inv_def)
    with stuck queue_step.join [OF M_Join] show ?thesis by (auto simp: list_all_length)
  next
    case M_Free
    have "\<exists>h'. workload_queues_free (workload_queues (qload s)) (messages (qload s)) = Inr h'"
      using own own_distinct [OF own] by (intro free_pending) (auto simp: own_def in_set_conv_nth)
    with stuck queue_step.free [OF M_Free] show ?thesis by blast
  qed (use down in simp_all)
qed

lemma shutdown_steps:
  assumes "(queue_step sp ^^ k) s s'" and "queue_inv s" and "mpc s \<noteq> M_Loop"
  shows "k + shutdown_bound s' \<le> shutdown_bound s \<and> queue_inv s' \<and> mpc s' \<noteq> M_Loop"
  using assms(1)
proof (induction k arbitrary: s')
  case 0
  with assms show ?case by simp
next
  case (Suc k)
  then obtain s1 where s1: "(queue_step sp ^^ k) s s1" "queue_step sp s1 s'" by auto
  from Suc.IH [OF s1(1)] shutdown_step [OF s1(2)] queue_inv_step [OF s1(2)] show ?case by fastforce
qed

lemma shutdown_bound_le: "shutdown_bound s \<le> 17 * length (wpcs s) + 3"
proof -
  have "pc_bound p \<le> 6" for p by (cases p) simp_all
  then have "worker_bound s i \<le> 16" for i by (auto simp: worker_bound_def intro: le_trans [of _ 6])
  then have "(\<Sum>i < length (wpcs s). worker_bound s i) \<le> 16 * length (wpcs s)"
    using sum_bounded_above [of "{..<length (wpcs s)}" "worker_bound s" 16] by simp
  moreover have "main_bound (length (wpcs s)) (mpc s) \<le> length (wpcs s) + 3" by (cases "mpc s") simp_all
  ultimately show ?thesis by (simp add: shutdown_bound_def)
qed

lemma wpcs_length: "queue_step sp s s' \<Longrightarrow> length (wpcs s') = length (wpcs s)"
proof (erule queue_step.cases)
  fix i sa s'' assume "s = sa" "s' = s''" "worker_step i (wpcs sa ! i) sa = Some s''"
  then show ?thesis
    by (cases "wpcs sa ! i") (auto simp: set_pc_def split: sum.splits pull_result.splits option.splits)
qed (auto simp: set_pc_def signal_queue_def)

lemma wpcs_length_steps: "(queue_step sp)\<^sup>*\<^sup>* s s' \<Longrightarrow> length (wpcs s') = length (wpcs s)"
  by (induction rule: rtranclp_induct) (simp_all add: wpcs_length)

lemma shutdown_reaches_end:
  assumes "queue_inv s" and "mpc s \<noteq> M_Loop"
  shows "\<exists>s'. (queue_step False)\<^sup>*\<^sup>* s s' \<and> mpc s' = M_Done"
  using assms
proof (induction "shutdown_bound s" arbitrary: s rule: less_induct)
  case less
  show ?case
  proof (cases "\<exists>s'. queue_step False s s'")
    case True
    then obtain s1 where s1: "queue_step False s s1" by blast
    from less.hyps [of s1] shutdown_step [OF s1 less.prems] queue_inv_step [OF s1 less.prems(1)]
    obtain s' where "(queue_step False)\<^sup>*\<^sup>* s1 s'" "mpc s' = M_Done" by blast
    with s1 show ?thesis by (meson converse_rtranclp_into_rtranclp)
  next
    case False
    with shutdown_progress [OF less.prems] show ?thesis by blast
  qed
qed

subsection \<open>Properties\<close>

text \<open>
  C6: The shutdown of the server ends. From every state that the main thread and the workers can reach, once
  the main thread has left its loop: every run, under every schedule and with spurious wake-ups, has at
  most \<open>17 n + 3\<close> more steps for \<open>n\<close> workers; a run without spurious wake-ups reaches the end; and a
  state in which no thread can make a step of its own is the end, with all workers joined. No signal of
  the condition variables is lost, although the flag is set outside of the mutex. (Handling a message is one step
  here, and so assumed to return.)
\<close>

theorem shutdown_terminates:
  assumes "(queue_step True)\<^sup>*\<^sup>* (queue_start n) s" and "mpc s \<noteq> M_Loop"
  shows "(\<forall>k s'. (queue_step True ^^ k) s s' \<longrightarrow> k \<le> 17 * unat n + 3) \<and>
    (\<exists>s'. (queue_step False)\<^sup>*\<^sup>* s s' \<and> mpc s' = M_Done) \<and>
    (\<forall>s'. (queue_step True)\<^sup>*\<^sup>* s s' \<and> (\<nexists>s''. queue_step False s' s'') \<longrightarrow>
      mpc s' = M_Done \<and> list_all (\<lambda>p. p = W_Exit) (wpcs s'))"
proof (intro conjI allI impI)
  have inv: "queue_inv s" using queues.reachable_inv [OF _ assms(1)] by blast
  have n: "length (wpcs s) = unat n" using wpcs_length_steps [OF assms(1)] by (simp add: queue_start_def)
  show "k \<le> 17 * unat n + 3" if "(queue_step True ^^ k) s s'" for k s'
    using shutdown_steps [OF that inv assms(2)] shutdown_bound_le [of s] n by simp
  show "\<exists>s'. (queue_step False)\<^sup>*\<^sup>* s s' \<and> mpc s' = M_Done" using shutdown_reaches_end [OF inv assms(2)] .
  fix s' assume s': "(queue_step True)\<^sup>*\<^sup>* s s' \<and> (\<nexists>s''. queue_step False s' s'')"
  then obtain k where "(queue_step True ^^ k) s s'" by (auto simp: rtranclp_power)
  from shutdown_steps [OF this inv assms(2)] have inv': "queue_inv s'" "mpc s' \<noteq> M_Loop" by simp_all
  show "mpc s' = M_Done" using shutdown_progress [OF inv'] s' by blast
  then show "list_all (\<lambda>p. p = W_Exit) (wpcs s')" using inv'(1) by (simp add: queue_inv_def)
qed

theorem shutdown_terminates_witness:
  "\<exists>s. (queue_step True)\<^sup>*\<^sup>* (queue_start 2) s \<and> mpc s = M_Signal 0 \<and>
     (\<forall>k s'. (queue_step True ^^ k) s s' \<longrightarrow> k \<le> 37) \<and> (\<exists>s'. (queue_step False)\<^sup>*\<^sup>* s s' \<and> mpc s' = M_Done)"
proof -
  have "queue_step True (queue_start 2) ((queue_start 2)\<lparr>qhard := True, mpc := M_Signal 0\<rparr>)"
    by (rule queue_step.leave) (simp add: queue_start_def)
  then have r: "(queue_step True)\<^sup>*\<^sup>* (queue_start 2) ((queue_start 2)\<lparr>qhard := True, mpc := M_Signal 0\<rparr>)" by blast
  from shutdown_terminates [OF r] r show ?thesis
    by (intro exI [of _ "(queue_start 2)\<lparr>qhard := True, mpc := M_Signal 0\<rparr>"]) simp
qed

end
