(* ===== verification/Server_Log.thy ===== *)
theory Server_Log
  imports Server_Main "HOL-Library.Sublist"
begin

text \<open>
  Logging in the server: the guarded log of \<open>src/server/global_state.h\<close>, the signal handlers and
  the log streams of \<open>src/server/main.c\<close> and \<open>config.c\<close>.

  \<^item> Every thread has a stack of activities. \<open>glog_guarded\<close> takes the mutex of the log, writes a line
    and releases the mutex, in three steps; a signal puts its handler on top of the stack of any thread
    at any time, and the handler logs as well before it sets its flag.
  \<^item> The log library is an argument: \<open>add\<close> is \<open>log_add_fp\<close>, and \<open>outputs\<close> are the streams that a
    message is written to. What the code relies on is that a message goes to the streams that
    have been added.
\<close>

subsection \<open>The mutex of the log\<close>

datatype log_pc = G_Lock | G_Write | G_Unlock

text \<open>Code that logs; a handler that logs, of a hard signal or of a soft one; a handler that has logged.\<close>

datatype log_frame =
    Code log_pc
  | Handler bool log_pc
  | Sets_Flag bool

record Log_System =
  log_guard :: "nat option"
  stacks :: "log_frame list list"
  flags :: System

definition hard_signal_handler :: log_frame where
  "hard_signal_handler = Handler True G_Lock"

definition soft_signal_handler :: log_frame where
  "soft_signal_handler = Handler False G_Lock"

fun frame_pc :: "log_frame \<Rightarrow> log_pc option" where
  "frame_pc (Code pc) = Some pc"
| "frame_pc (Handler h pc) = Some pc"
| "frame_pc (Sets_Flag h) = None"

text \<open>The end of \<open>glog_guarded\<close> and what the code goes on with.\<close>

fun go_on :: "log_pc \<Rightarrow> log_frame \<Rightarrow> log_frame list" where
  "go_on G_Lock (Code _) = [Code G_Write]"
| "go_on G_Lock (Handler h _) = [Handler h G_Write]"
| "go_on G_Write (Code _) = [Code G_Unlock]"
| "go_on G_Write (Handler h _) = [Handler h G_Unlock]"
| "go_on G_Unlock (Code _) = []"
| "go_on G_Unlock (Handler h _) = [Sets_Flag h]"
| "go_on _ (Sets_Flag h) = [Sets_Flag h]"

definition set_stack :: "nat \<Rightarrow> log_frame list \<Rightarrow> Log_System \<Rightarrow> Log_System" where
  "set_stack t fs s = s\<lparr>stacks := (stacks s)[t := fs]\<rparr>"

text \<open>One step of \<open>glog_guarded\<close> by thread \<open>t\<close>, with frame \<open>f\<close> on top of \<open>fs\<close>; nothing while it has to wait.\<close>

definition glog_guarded :: "nat \<Rightarrow> log_pc \<Rightarrow> log_frame \<Rightarrow> log_frame list \<Rightarrow> Log_System \<Rightarrow> Log_System option" where
  "glog_guarded t pc f fs s =
     (case pc of
        G_Lock \<Rightarrow>
          if log_guard s = None then Some (set_stack t (go_on pc f @ fs) (s\<lparr>log_guard := Some t\<rparr>)) else None
      | G_Write \<Rightarrow> Some (set_stack t (go_on pc f @ fs) s)
      | G_Unlock \<Rightarrow> Some (set_stack t (go_on pc f @ fs) (s\<lparr>log_guard := None\<rparr>)))"

text \<open>A step that a thread makes with the frame on top of its stack.\<close>

definition top_step :: "nat \<Rightarrow> Log_System \<Rightarrow> Log_System option" where
  "top_step t s =
     (case stacks s ! t of
        [] \<Rightarrow> None
      | f # fs \<Rightarrow>
          (case f of
             Code pc \<Rightarrow> glog_guarded t pc f fs s
           | Handler h pc \<Rightarrow> glog_guarded t pc f fs s
           | Sets_Flag h \<Rightarrow>
               Some (set_stack t fs (s\<lparr>flags := (if h then shutdown_hard (flags s) else shutdown_soft (flags s))\<rparr>))))"

inductive log_step :: "Log_System \<Rightarrow> Log_System \<Rightarrow> bool" where
  call: "t < length (stacks s) \<Longrightarrow> stacks s ! t = [] \<Longrightarrow> log_step s (set_stack t [Code G_Lock] s)"
| top: "t < length (stacks s) \<Longrightarrow> top_step t s = Some s' \<Longrightarrow> log_step s s'"
| signal: "t < length (stacks s) \<Longrightarrow> f \<in> {hard_signal_handler, soft_signal_handler} \<Longrightarrow>
    log_step s (set_stack t (f # stacks s ! t) s)"

inductive_cases log_stepE: "log_step s s'"

definition log_start :: "nat \<Rightarrow> System \<Rightarrow> Log_System" where
  "log_start n sys = \<lparr>log_guard = None, stacks = replicate n [], flags = sys\<rparr>"

subsection \<open>Who holds the mutex\<close>

definition in_section :: "log_frame \<Rightarrow> bool" where
  "in_section f \<longleftrightarrow> frame_pc f = Some G_Write \<or> frame_pc f = Some G_Unlock"

definition sections :: "log_frame list \<Rightarrow> nat" where
  "sections fs = length (filter in_section fs)"

text \<open>The owner of the mutex is the one thread with a frame between its lock and its unlock, and only one.\<close>

definition log_inv :: "Log_System \<Rightarrow> bool" where
  "log_inv s \<longleftrightarrow> (\<forall>t < length (stacks s). sections (stacks s ! t) = (if log_guard s = Some t then 1 else 0)) \<and>
     (\<forall>t. log_guard s = Some t \<longrightarrow> t < length (stacks s))"

lemma set_stack_sel [simp]:
  "stacks (set_stack t fs s) = (stacks s)[t := fs]" "log_guard (set_stack t fs s) = log_guard s"
  by (simp_all add: set_stack_def)

lemma sections_Cons [simp]: "sections (f # fs) = (if in_section f then 1 else 0) + sections fs"
  by (simp add: sections_def)

lemma sections_Nil [simp]: "sections [] = 0"
  by (simp add: sections_def)

lemma in_section_simps [simp]:
  "in_section (Code pc) = (pc \<noteq> G_Lock)" "in_section (Handler h pc) = (pc \<noteq> G_Lock)" "\<not> in_section (Sets_Flag h)"
  by (cases pc; simp add: in_section_def)+

lemma handlers_outside [simp]: "\<not> in_section hard_signal_handler" "\<not> in_section soft_signal_handler"
  by (simp_all add: hard_signal_handler_def soft_signal_handler_def)

lemma log_inv_stack:
  assumes "log_inv s" and "t < length (stacks s)" and "sections fs = sections (stacks s ! t)"
  shows "log_inv (set_stack t fs s)"
  using assms by (auto simp: log_inv_def nth_list_update)

text \<open>The steps of \<open>glog_guarded\<close>, whoever calls it.\<close>

lemma glog_inv:
  assumes "log_inv s" and "t < length (stacks s)" and "stacks s ! t = f # fs" and "frame_pc f = Some pc"
    and "glog_guarded t pc f fs s = Some s'"
  shows "log_inv s'"
proof -
  have "sections (f # fs) = (if log_guard s = Some t then 1 else 0)"
    using assms(1-3) unfolding log_inv_def by metis
  with assms show ?thesis
    by (cases f; cases pc) (auto simp: glog_guarded_def log_inv_def nth_list_update split: if_splits)
qed

lemma top_step_inv:
  assumes "log_inv s" and "t < length (stacks s)" and "top_step t s = Some s'"
  shows "log_inv s'"
proof -
  obtain f fs where st: "stacks s ! t = f # fs" using assms(3) by (auto simp: top_step_def split: list.splits)
  show ?thesis
  proof (cases f)
    case (Sets_Flag h)
    let ?s = "s\<lparr>flags := (if h then shutdown_hard (flags s) else shutdown_soft (flags s))\<rparr>"
    have "log_inv ?s" using assms(1) by (simp add: log_inv_def)
    moreover have "s' = set_stack t fs ?s" using assms(3) st Sets_Flag by (auto simp: top_step_def)
    ultimately show ?thesis using log_inv_stack [of ?s t fs] assms(2) st Sets_Flag by auto
  qed (use glog_inv [OF assms(1,2) st] assms(3) st in \<open>auto simp: top_step_def\<close>)
qed

lemma log_inv_step: "log_step s s' \<Longrightarrow> log_inv s \<Longrightarrow> log_inv s'"
  by (erule log_stepE) (auto intro: log_inv_stack top_step_inv)

lemma log_inv_start: "log_inv (log_start n sys)"
  by (simp add: log_inv_def log_start_def)

interpretation log_threads: step_invariant "\<lambda>s. \<exists>n sys. s = log_start n sys" log_step log_inv
  by unfold_locales (auto simp: log_inv_start intro: log_inv_step)

subsection \<open>A thread that waits for itself\<close>

definition waits_for_log :: "log_frame list \<Rightarrow> bool" where
  "waits_for_log fs \<longleftrightarrow> (case fs of [] \<Rightarrow> False | f # _ \<Rightarrow> frame_pc f = Some G_Lock)"

lemma waits_simps [simp]:
  "\<not> waits_for_log []" "waits_for_log (f # fs) = (frame_pc f = Some G_Lock)"
  "frame_pc hard_signal_handler = Some G_Lock" "frame_pc soft_signal_handler = Some G_Lock"
  by (simp_all add: waits_for_log_def hard_signal_handler_def soft_signal_handler_def)

lemma top_step_waits:
  "top_step t s = None \<longleftrightarrow> stacks s ! t = [] \<or> waits_for_log (stacks s ! t) \<and> log_guard s \<noteq> None"
  by (auto simp: top_step_def glog_guarded_def split: list.split log_frame.split log_pc.split)

text \<open>What the other threads can do while the owner of the mutex waits for it.\<close>

lemma top_step_other:
  assumes "log_inv s" and "u < length (stacks s)" and "log_guard s = Some t" and "u \<noteq> t" and "top_step u s = Some s'"
  shows "log_guard s' = Some t \<and> (\<forall>v. v \<noteq> u \<longrightarrow> stacks s' ! v = stacks s ! v) \<and> \<not> waits_for_log (stacks s ! u)"
proof -
  obtain f fs where st: "stacks s ! u = f # fs" using assms(5) by (auto simp: top_step_def split: list.splits)
  have "sections (f # fs) = 0" using assms(1-4) st unfolding log_inv_def by (metis option.inject)
  with assms st show ?thesis
    by (cases f) (auto simp: top_step_def glog_guarded_def split: if_splits log_pc.splits)
qed

definition stuck_step :: "Log_System \<Rightarrow> Log_System \<Rightarrow> bool" where
  "stuck_step s s' \<longleftrightarrow> log_guard s' = log_guard s \<and> length (stacks s') = length (stacks s) \<and>
     (\<forall>u < length (stacks s). waits_for_log (stacks s ! u) \<longrightarrow>
        waits_for_log (stacks s' ! u) \<and> suffix (stacks s ! u) (stacks s' ! u))"

lemma log_step_length: "log_step s s' \<Longrightarrow> length (stacks s') = length (stacks s)"
  by (erule log_stepE)
    (auto simp: top_step_def glog_guarded_def split: list.splits log_frame.splits log_pc.splits if_splits)

lemma log_step_stuck:
  assumes "log_step s s'" and inv: "log_inv s" and g: "log_guard s = Some t" "waits_for_log (stacks s ! t)"
  shows "stuck_step s s'"
  using assms(1)
proof cases
  case (call u)
  then show ?thesis by (auto simp: stuck_step_def nth_list_update)
next
  case (top u)
  have "u \<noteq> t" using top(2) g top_step_waits [of t s] by auto
  then show ?thesis
    using top_step_other [OF inv top(1) g(1) _ top(2)] log_step_length [OF assms(1)] g(1)
    by (auto simp: stuck_step_def)
next
  case (signal u f)
  then show ?thesis by (auto simp: stuck_step_def nth_list_update suffix_ConsI)
qed

lemma stuck_for_ever:
  assumes "log_step\<^sup>*\<^sup>* s s'" and "log_inv s" and "log_guard s = Some t" and "waits_for_log (stacks s ! t)"
  shows "log_inv s' \<and> stuck_step s s'"
  using assms(1)
proof (induction rule: rtranclp_induct)
  case base
  then show ?case using assms(2) by (simp add: stuck_step_def)
next
  case (step s1 s2)
  have t: "t < length (stacks s)" using assms(2,3) by (simp add: log_inv_def)
  then have "log_guard s1 = Some t" "waits_for_log (stacks s1 ! t)"
    using step.IH assms(3,4) by (simp_all add: stuck_step_def)
  then have "stuck_step s1 s2" using log_step_stuck [OF step.hyps(2)] step.IH by blast
  with step.IH step.hyps(2) show ?case
    by (auto simp: stuck_step_def intro: log_inv_step dest: suffix_order.trans)
qed

subsection \<open>Streams\<close>

text \<open>
  The stream that \<open>config_parse_file\<close> opens and the one that \<open>inner_main\<close> opens; the state of the log
  library and the streams that are open. A line goes to every stream that the library knows, and
  writing to a closed one is undefined.
\<close>

datatype stream = Config_Log | Main_Log

record 'l Streams =
  lib :: 'l
  opened :: "stream list"

definition log_line :: "('l \<Rightarrow> stream list) \<Rightarrow> 'l Streams \<Rightarrow> 'l Streams result" where
  "log_line outputs s =
     (if list_all (\<lambda>f. f \<in> set (opened s)) (outputs (lib s)) then Inr s else Inl Use_After_Free)"

definition fclose :: "stream \<Rightarrow> 'l Streams \<Rightarrow> 'l Streams result" where
  "fclose f s =
     (if f \<in> set (opened s) then Inr (s\<lparr>opened := removeAll f (opened s)\<rparr>) else Inl Use_After_Free)"

definition config_free :: "Config option \<Rightarrow> 'l Streams \<Rightarrow> 'l Streams result" where
  "config_free p s =
     (case p of
        None \<Rightarrow> Inr s
      | Some config \<Rightarrow> if log_f config \<noteq> None then fclose Config_Log s else Inr s)"

text \<open>The state after \<open>config_parse_file\<close>, and what \<open>main\<close> does with its stream.\<close>

definition config_streams :: "Config \<Rightarrow> 'l \<Rightarrow> 'l Streams" where
  "config_streams config l = \<lparr>lib = l, opened = (if log_f config \<noteq> None then [Config_Log] else [])\<rparr>"

definition main_log :: "(stream \<Rightarrow> 'l \<Rightarrow> 'l) \<Rightarrow> Config \<Rightarrow> 'l Streams \<Rightarrow> 'l Streams" where
  "main_log add config s = (if log_f config \<noteq> None then s\<lparr>lib := add Config_Log (lib s)\<rparr> else s)"

text \<open>\<open>inner_main\<close> before it listens; \<open>can_log\<close> says whether the log file can be opened.\<close>

definition inner_main_log ::
    "(stream \<Rightarrow> 'l \<Rightarrow> 'l) \<Rightarrow> ('l \<Rightarrow> stream list) \<Rightarrow> bool \<Rightarrow> 'l Streams \<Rightarrow> 'l Streams result" where
  "inner_main_log add outputs can_log s =
     bind_result (log_line outputs s) (\<lambda>s.
     bind_result (log_line outputs s) (\<lambda>s.
       log_line outputs
         (if can_log then s\<lparr>opened := Main_Log # opened s, lib := add Main_Log (lib s)\<rparr> else s)))"

text \<open>The end of \<open>inner_main\<close>, after the summary, and its early return when the server cannot listen.\<close>

definition inner_main_log_end ::
    "('l \<Rightarrow> stream list) \<Rightarrow> bool \<Rightarrow> Config \<Rightarrow> 'l Streams \<Rightarrow> 'l Streams result" where
  "inner_main_log_end outputs f_log config s =
     bind_result (log_line outputs s) (\<lambda>s.
     bind_result (config_free (Some config) s) (\<lambda>s.
     bind_result (log_line outputs s) (\<lambda>s.
       if f_log then fclose Main_Log s else Inr s)))"

definition inner_main_log_abort :: "('l \<Rightarrow> stream list) \<Rightarrow> bool \<Rightarrow> 'l Streams \<Rightarrow> 'l Streams result" where
  "inner_main_log_abort outputs f_log s =
     bind_result (log_line outputs s) (\<lambda>s. if f_log then fclose Main_Log s else Inr s)"

text \<open>All log lines of a server that starts, writes \<open>n\<close> lines while it runs, and shuts down.\<close>

fun log_lines :: "nat \<Rightarrow> ('l \<Rightarrow> stream list) \<Rightarrow> 'l Streams \<Rightarrow> 'l Streams result" where
  "log_lines 0 outputs s = Inr s"
| "log_lines (Suc n) outputs s = bind_result (log_line outputs s) (log_lines n outputs)"

definition log_session ::
    "(stream \<Rightarrow> 'l \<Rightarrow> 'l) \<Rightarrow> ('l \<Rightarrow> stream list) \<Rightarrow> nat \<Rightarrow> bool \<Rightarrow> Config \<Rightarrow> 'l \<Rightarrow> 'l Streams result" where
  "log_session add outputs n can_log config l =
     bind_result (inner_main_log add outputs can_log (main_log add config (config_streams config l))) (\<lambda>s.
     bind_result (log_lines n outputs s) (inner_main_log_end outputs can_log config))"

lemma log_lines_idle: "log_line outputs s = Inr s \<Longrightarrow> log_lines n outputs s = Inr s"
  by (induction n) simp_all

lemma log_line_ok: "set (outputs (lib s)) \<subseteq> set (opened s) \<Longrightarrow> log_line outputs s = Inr s"
  by (auto simp: log_line_def list_all_iff)

subsection \<open>Properties\<close>

text \<open>
  C12: A signal during a log message can stop the server for ever. In every state that threads and signals
  can reach: if a signal comes to the thread that holds the mutex of the log, then from then on, whatever the
  threads do and whatever signals follow, the mutex is never released, and this thread and every thread
  that waits for it stay where they are. And this is the only way to get stuck: as long as no
  thread waits for a mutex that it holds itself, some thread that is not idle can make a step.
\<close>

theorem signal_while_logging_deadlocks:
  assumes "log_step\<^sup>*\<^sup>* (log_start n sys) s"
  shows "(\<forall>t f s'. log_guard s = Some t \<and> f \<in> {hard_signal_handler, soft_signal_handler} \<and>
      log_step\<^sup>*\<^sup>* (set_stack t (f # stacks s ! t) s) s' \<longrightarrow>
      log_guard s' = Some t \<and> suffix (f # stacks s ! t) (stacks s' ! t) \<and>
      (\<forall>u < length (stacks s). waits_for_log (stacks s ! u) \<longrightarrow> suffix (stacks s ! u) (stacks s' ! u))) \<and>
    ((\<exists>t < length (stacks s). stacks s ! t \<noteq> []) \<and> (\<forall>t < length (stacks s). top_step t s = None) \<longrightarrow>
      (\<exists>t. log_guard s = Some t \<and> waits_for_log (stacks s ! t)))"
proof (intro conjI allI impI)
  have inv: "log_inv s" using log_threads.reachable_inv [OF _ assms] by blast
  fix t f s' assume a: "log_guard s = Some t \<and> f \<in> {hard_signal_handler, soft_signal_handler} \<and>
      log_step\<^sup>*\<^sup>* (set_stack t (f # stacks s ! t) s) s'"
  let ?s = "set_stack t (f # stacks s ! t) s"
  have t: "t < length (stacks s)" using inv a by (simp add: log_inv_def)
  have "log_inv ?s" using log_inv_stack [OF inv t] a by auto
  moreover have "waits_for_log (stacks ?s ! t)" using t a by auto
  ultimately have st: "stuck_step ?s s'" using stuck_for_ever [of ?s s' t] a by simp
  then show "log_guard s' = Some t" using a by (simp add: stuck_step_def)
  show top: "suffix (f # stacks s ! t) (stacks s' ! t)" using st t a by (auto simp: stuck_step_def)
  fix u assume u: "u < length (stacks s)" "waits_for_log (stacks s ! u)"
  show "suffix (stacks s ! u) (stacks s' ! u)"
    using st u top by (cases "u = t") (auto simp: stuck_step_def dest: suffix_ConsD)
next
  assume a: "(\<exists>t < length (stacks s). stacks s ! t \<noteq> []) \<and> (\<forall>t < length (stacks s). top_step t s = None)"
  have inv: "log_inv s" using log_threads.reachable_inv [OF _ assms] by blast
  from a obtain u where "u < length (stacks s)" "stacks s ! u \<noteq> []" "top_step u s = None" by blast
  then obtain t where t: "log_guard s = Some t" using top_step_waits by blast
  then have "t < length (stacks s)" "stacks s ! t \<noteq> []" using inv by (auto simp: log_inv_def)
  then show "\<exists>t. log_guard s = Some t \<and> waits_for_log (stacks s ! t)" using a t top_step_waits by blast
qed

theorem signal_while_logging_deadlocks_witness:
  "\<forall>sys. \<exists>s. (log_step\<^sup>*\<^sup>* (log_start 2 sys) s \<and> log_guard s = Some 0 \<and> stacks s = [[Code G_Write], [Code G_Lock]]) \<and>
     (\<forall>s'. log_step\<^sup>*\<^sup>* (set_stack 0 [hard_signal_handler, Code G_Write] s) s' \<longrightarrow>
       log_guard s' = Some 0 \<and> suffix [hard_signal_handler, Code G_Write] (stacks s' ! 0) \<and> suffix [Code G_Lock] (stacks s' ! 1))" (is "\<forall>sys. ?P sys")
proof
  fix sys
  let ?s1 = "set_stack 0 [Code G_Lock] (log_start 2 sys)"
  let ?s2 = "set_stack 1 [Code G_Lock] ?s1"
  let ?s3 = "\<lparr>log_guard = Some 0, stacks = [[Code G_Write], [Code G_Lock]], flags = sys\<rparr>"
  have l: "stacks (log_start 2 sys) = [[], []]" by (simp add: log_start_def numeral_2_eq_2)
  have s1: "log_step (log_start 2 sys) ?s1" by (rule log_step.call) (simp_all add: l)
  have s2: "log_step ?s1 ?s2" by (rule log_step.call) (simp_all add: l)
  have s3: "log_step ?s2 ?s3"
    by (rule log_step.top [of 0]) (simp_all add: l top_step_def glog_guarded_def set_stack_def log_start_def numeral_2_eq_2)
  note r = converse_rtranclp_into_rtranclp [OF s1 converse_rtranclp_into_rtranclp [OF s2 r_into_rtranclp [where r = log_step, OF s3]]]
  have "log_guard s' = Some 0 \<and> suffix [hard_signal_handler, Code G_Write] (stacks s' ! 0) \<and> suffix [Code G_Lock] (stacks s' ! 1)"
    if "log_step\<^sup>*\<^sup>* (set_stack 0 [hard_signal_handler, Code G_Write] ?s3) s'" for s'
    using that signal_while_logging_deadlocks [OF r, THEN conjunct1, rule_format, of 0 hard_signal_handler s']
    by (auto dest: spec [of _ "1 :: nat"])
  with r show "?P sys" by (intro exI [of _ ?s3]) simp
qed

text \<open>
  C26: The shutdown of the server writes to a closed log. Let the log library write each line to every stream
  that has been added. For every accepted configuration, the whole run goes well until the last line;
  and if the stream of the configuration could be opened, then \<open>config_free\<close> closes it and the
  last line of \<open>inner_main\<close> is written to it all the same. Otherwise all streams are closed at the end.
\<close>

theorem last_line_goes_to_closed_log:
  assumes "config_parse_file toml can_open = Some config"
    and add: "\<And>f l. set (outputs (add f l)) = insert f (set (outputs l))" and "outputs l = []"
  shows "log_session add outputs n can_log config l =
     (if can_open (socket_filepath config) then Inl Use_After_Free
      else Inr \<lparr>lib = if can_log then add Main_Log l else l, opened = []\<rparr>)"
proof -
  have f: "(log_f config \<noteq> None) = can_open (socket_filepath config)"
    using assms(1) by (auto simp: config_parse_file_def Let_def split: option.splits if_splits)
  have closed: "log_line outputs s = Inl Use_After_Free" if "Config_Log \<in> set (outputs (lib s))" "Config_Log \<notin> set (opened s)" for s
    using that by (auto simp: log_line_def list_all_iff)
  show ?thesis
    using f by (auto simp: log_session_def inner_main_log_def main_log_def config_streams_def inner_main_log_end_def
        config_free_def fclose_def log_line_ok log_lines_idle closed add assms(3))
qed

theorem last_line_goes_to_closed_log_witness:
  "log_session (#) (\<lambda>l. l) 9 True
     (the (config_parse_file (Some (Some (Some (sample_toml 5)))) (\<lambda>p. True))) [] = Inl Use_After_Free"
proof -
  have "config_parse_file (Some (Some (Some (sample_toml 5)))) (\<lambda>p. True) \<noteq> None" by code_simp
  then obtain c where c: "config_parse_file (Some (Some (Some (sample_toml 5)))) (\<lambda>p. True) = Some c" by auto
  show ?thesis
    using last_line_goes_to_closed_log [OF c, of "\<lambda>l. l" "(#)" "[]" 9 True] by (simp add: c)
qed

end
