(* ===== verification/Spec2Isabelle.thy ===== *)
theory Spec2Isabelle
  imports Server_Sections Server_Api Run_Action HTable_Races Queue_Threads Server_Log
begin

text \<open>
  A verification development for a file storage server and its client library, both written in C.

  \<^bold>\<open>The program.\<close> The server (\<open>src/server/\<close>) keeps files in memory. Its main thread (\<open>main.c\<close>) polls a listening
  socket and the connections of the clients; the receiver (\<open>receiver.c\<close>) reads from readable connections into
  one deserializer per connection (\<open>deserializer.c\<close>) and hands complete messages over to a random worker
  through that worker's queue (\<open>workload_queue.c\<close>). A worker (\<open>worker.c\<close>) decodes the request, performs it on
  the hash table of files (\<open>htable.c\<close>), which evicts files to stay within the limits of the configuration
  (\<open>config.c\<close>), and writes the response. A client process links the library \<open>serverapi.c\<close>, which turns
  the calls of \<open>include/serverapi.h\<close> into messages and responses into results. \<open>utilities.c\<close> is shared.

  \<^bold>\<open>The theories, in the order in which they build on each other.\<close>
  \<^item> \<open>C_Prelude\<close>: outcomes of C computations (\<open>'a result\<close>: a value, or the fault that ends the process or is
    undefined behaviour), partial heaps with use-after-free detection, words and lists; the locale
    \<open>step_invariant\<close> of a component that runs for ever.
  \<^item> \<open>Utilities\<close>: \<open>utilities.c\<close>. The codec of 64-bit numbers is a bijection, and the locale
    \<open>prefix_codec\<close> is what every reader of a message relies on; the retry loops around \<open>read\<close> and
    \<open>write\<close> lose nothing for any script of signals, short transfers and errors; \<open>wait_msec\<close>.
  \<^item> \<open>Deserializer\<close>: \<open>deserializer.c\<close>. Framing is independent of chunking; where the length arithmetic wraps.
  \<^item> \<open>Config\<close>: \<open>config.c\<close>, with the answers of the TOML library as an argument.
  \<^item> \<open>HTable\<close> (operations on pointers: buckets, doubly linked items, FIFO list, mutexes as flags), \<open>HTable_Inv\<close> (the
    representation of the table by address lists), \<open>Storage_Spec\<close> (the abstract store, a map from
    paths to files, and the locale \<open>simulation\<close> of a component that implements an abstract one),
    \<open>HTable_Refine\<close> (every request on the table implements the request on the map; interpretation of
    \<open>simulation\<close>), \<open>HTable_Locks\<close> (mutual exclusion and hand-over of file locks), \<open>HTable_Evict\<close> (writing,
    appending and both eviction policies), \<open>HTable_Visitor\<close> and \<open>HTable_Free\<close>: \<open>htable.c\<close>. The hash function
    \<open>XXH64\<close> is a third-party function and a parameter; nothing is assumed about it.
  \<^item> \<open>HTable_Threads\<close>: the same operations cut into their critical sections, run by any number of threads under
    a schedule; without interruption they are the operations of \<open>HTable\<close>; no schedule without visits deadlocks,
    and a visit locks the clients of a bucket out for ever.
    \<open>HTable_Linear\<close>: requests on metadata other than creation are linearizable, with the map of paths as
    their sequential specification, and a bound on the turns they need. \<open>HTable_Races\<close>: the schedules in which
    creation loses a file or eviction ends the server.
  \<^item> \<open>Workload_Queue\<close>: \<open>workload_queue.c\<close>; the locale \<open>mailbox\<close> states what a queue really is, one place.
  \<^item> \<open>Queue_Threads\<close>: the workers, the main thread, the queues and their condition variables at the grain of
    \<open>pthread\<close> calls; no wake-up is lost, and the shutdown ends if handling a message returns.
  \<^item> \<open>Worker\<close>: \<open>worker.c\<close>, every handler and the dispatch; a second interpretation of \<open>simulation\<close>, from
    message bytes to response bytes, which says where the responses are not the documented ones.
  \<^item> \<open>Receiver\<close>: \<open>receiver.c\<close>, every operation; one iteration of the polling loop takes what \<open>poll\<close>, \<open>accept\<close>,
    \<open>read\<close> and \<open>rand\<close> return as its argument.
  \<^item> \<open>Server_Main\<close>: \<open>main.c\<close>, \<open>global_state.c\<close> and the thread loops as a step relation on the state of the
    whole server, with signals as steps; its invariant holds in every reachable state (interpretation of
    \<open>step_invariant\<close>).
  \<^item> \<open>Server_Runs\<close>: every run of that relation has a history of handled messages; when these are requests on
    metadata, the files and responses are those of the map of files for the history. There a message is
    handled in one step.
  \<^item> \<open>Server_Sections\<close>: the same server with workers that are interrupted between the critical sections of
    \<open>HTable_Threads\<close> while they handle requests on metadata; for requests other than creation its runs are
    linearizable, and a worker that is not interrupted makes the one step of \<open>Server_Main\<close>.
  \<^item> \<open>Server_Log\<close>: the guarded log of \<open>global_state.h\<close> and the signal handlers, interleaved, and the log streams from
    \<open>config.c\<close> to the end of \<open>main.c\<close>, with the log library as an argument.
  \<^item> \<open>Server_Api\<close>: \<open>serverapi.c\<close>, every function; the connection, the file system of the client and
    \<open>realpath\<close> are parts of the state or arguments.
  \<^item> \<open>Cli\<close>: \<open>client/cli.c\<close>. The parser of the command line, with what \<open>getopt\<close> returns as its argument; the linked
    list it builds is the list of the actions.
  \<^item> \<open>Run_Action\<close>: \<open>client/run_action.c\<close> and \<open>client/main.c\<close>. The library calls of every action, with \<open>realpath\<close>,
    the current directory and directory entries as arguments, the main function of the client and the
    texts it prints.
  \<^item> This theory: what a client sees of the server, through library, receiver, worker and table.

  \<^bold>\<open>Scripts, draws and fuel.\<close> System calls that may fail or do part of the work are driven by scripts, lists of
  their outcomes; an exhausted script means that every further call succeeds in full. Random draws
  are a list as well, and the eviction loop returns with \<open>Stuck\<close> when it is used up; the termination
  theorems state which draws are enough. Loops over linked structures take one more than the number of
  allocated addresses as fuel, and the theorems show that this never runs out on a
  well-formed structure.

  \<^bold>\<open>Concurrency.\<close> \<open>HTable\<close> and \<open>Workload_Queue\<close> run one operation at a time, and there a second attempt to take a mutex
  is the fault \<open>Deadlock\<close>. \<open>HTable_Threads\<close> and \<open>Queue_Threads\<close> interleave the critical sections of the same code,
  and prove that an operation which is not interrupted is the atomic one. The step relation of \<open>Server_Main\<close>
  interleaves whole iterations of the polling loop and whole messages of workers, which is exact for a server
  with one worker only; with more workers, creations, writes and visits of different workers interleave within
  a message (\<open>HTable_Races\<close>, \<open>HTable_Threads\<close>), and \<open>Server_Sections\<close> has the requests on metadata at that grain.
  \<open>Queue_Threads\<close> takes the handling of a message as one step, and so assumes that it returns; a worker that
  needs a bucket that a visit has left locked does not. Critical sections are
  sequentially consistent, which the mutexes guarantee; the code reads \<open>bucket->head\<close> outside of
  them in \<open>htable_create_file\<close> and \<open>htable_visit\<close>, and each of these reads is a step of its own.

  A signal handler is a frame on the stack of any thread in \<open>Server_Log\<close> and a step that sets a flag in
  \<open>Server_Main\<close>.

  \<^bold>\<open>Not modelled.\<close> The texts of the log; failing allocation and failing calls of mutexes (the process ends); the
  mutex of the thread counter; the TOML parser, the hash function, the log library and \<open>getopt\<close>,
  which are not part of the program.
\<close>

subsection \<open>The bytes that reach a client\<close>

definition replies :: "int \<Rightarrow> Server \<Rightarrow> Server \<Rightarrow> byte list" where
  "replies fd s s' = concat (map snd (filter (\<lambda>(f, _). f = fd) (drop (length (out s)) (out s'))))"

lemma replies_append:
  "out s' = out s @ outs \<Longrightarrow> replies fd s s' = concat (map snd (filter (\<lambda>(f, _). f = fd) outs))"
  by (simp add: replies_def)

lemma replies_pieces:
  "filter (\<lambda>(f, _). f = fd) (concat (map (file_pieces fd) fs)) = concat (map (file_pieces fd) fs)"
  by (induction fs) (simp_all add: file_pieces_def)

lemma pieces_bytes: "concat (map snd (concat (map (file_pieces fd) fs))) = concat (map file_bytes fs)"
  by (induction fs) (simp_all add: file_bytes_def file_pieces_def)

text \<open>
  What \<open>serverapi.h\<close> says a call returns, 0 on success and -1 on failure, for a reply of the table.
\<close>

fun documented_result :: "reply \<Rightarrow> int" where
  "documented_result (Reply e new_fd) = (if e = HTABLE_ERR_OK then 0 else - 1)"

lemma meta_reply_first:
  assumes "meta_request fd aop k = Some x" and "out s' = out s @ meta_response fd aop (Reply e g)"
  shows "\<exists>bs. replies fd s s' =
    (if aop = API_OP_LOCK_FILE \<or> documented_result (Reply e g) = 0 then RESPONSE_OK else RESPONSE_ERR) # bs"
  using assms(1) unfolding replies_append [OF assms(2)]
  by (cases aop) (auto simp: status_byte_def)

lemma send_evicted_idle:
  assumes "script s = []" and "0 \<le> ret" and "\<forall>f \<in> set fs. file_ok f"
  shows "send_evicted fd ret fs s = Inr (s\<lparr>out := out s @ concat (map (file_pieces fd) fs)\<rparr>)"
  using assms
proof (induction fs arbitrary: ret s)
  case (Cons f fs)
  obtain ret' where "0 \<le> ret'" "send_file fd ret f s = Inr (ret', s\<lparr>out := out s @ file_pieces fd f\<rparr>)"
    using send_file_idle [of s f ret fd] Cons.prems by auto
  with Cons show ?case by simp
qed simp

subsection \<open>Properties of the whole system\<close>

text \<open>
  C1: A request on metadata from end to end: \<open>openFile\<close>, \<open>lockFile\<close>, \<open>unlockFile\<close>, \<open>closeFile\<close> and \<open>removeFile\<close>, and
  opening with creation. The polling loop of the server reads the bytes that the call sends, in chunks of any
  sizes, and hands the message over to a worker that has not freed a message before (\<open>queue_ok\<close>: after that, the next
  message is a use after free, \<open>next_message_after_free\<close>); that worker takes one turn; its answer
  comes back. Then the table of the server is the map of files after the request. The call returns 0
  exactly when the map replies \<open>HTABLE_ERR_OK\<close>, except that \<open>lockFile\<close> always returns 0: for a missing file, and for a
  file that another client holds, too, where \<open>serverapi.h\<close> promises -1 on failure. The map has a reply of
  the table that the documentation does not have either: it refuses with \<open>HTABLE_ERR_OK\<close> to remove a file that is locked by
  another client, so \<open>removeFile\<close> returns 0.
\<close>

theorem request_end_to_end:
  assumes rx: "calm (receiver st)" "0 < i" "i < active_sockets_count (receiver st)"
      "deserializers (receiver st) ! i = deserializer_create" "rx_num_workers (receiver st) \<noteq> 0"
      "queue_ok (thread_of (rx_num_workers (receiver st)) rnd) (workload st)"
    and srv: "server_ok XXH64 s" and c: "connected c" and k: "0 \<notin> set k" "length k < 2 ^ 32"
    and x: "meta_request (poll_fd (active_sockets (receiver st) ! i)) aop k = Some x"
    and sp: "spec_exec x (htable_lookup XXH64 (table s)) = Inr (r, m)"
    and ks: "length k + 17 \<le> length ks"
  shows "\<exists>c' st' w' s'.
    make_simple_request aop k e (c\<lparr>incoming := replies (poll_fd (active_sockets (receiver st) ! i)) s s'\<rparr>) =
      (if aop = API_OP_LOCK_FILE then 0 else documented_result r, c') \<and>
    serve i rnd ks (drop (length (sent c)) (sent c')) st = Inr ([], st') \<and>
    worker_turn XXH64 (thread_of (rx_num_workers (receiver st)) rnd) stop (workload st') s = Inr (Serves, w', s') \<and>
    server_ok XXH64 s' \<and> htable_lookup XXH64 (table s') = m"
proof -
  let ?nw = "rx_num_workers (receiver st)" and ?fd = "poll_fd (active_sockets (receiver st) ! i)"
  let ?p = "api_op_code aop # k"
  have inv: "htable_inv XXH64 (table s)" and sc: "script s = []" using srv by (simp_all add: server_ok_def)
  have "length (frame ?p) < 2 ^ 64" "frame ?p \<noteq> []" "de_rep (deserializers (receiver st) ! i) []"
    using k(2) rx(4) de_rep_create by (simp_all add: frame_def u64_to_big_endian_def)
  then obtain st' where st': "serve i rnd ks (frame ?p) st = Inr ([], st')" "queue_ok (thread_of ?nw rnd) (workload st')"
    "pending (thread_of ?nw rnd) (workload st') = Some (?fd, complete_msg (frame ?p))"
    using serve_frame [of st i "[]" ?p "frame ?p" ks rnd] rx ks by auto
  obtain g ht where ht: "htable_exec XXH64 x (table s) = Inr (r, ht)" "htable_inv XXH64 ht" "htable_lookup XXH64 ht = m"
    using htable_exec_refines [OF inv, of x] sp by (auto simp: refines_def split: sum.splits)
  define s' where "s' = s\<lparr>table := ht, out := out s @ meta_response ?fd aop r\<rparr>"
  have h: "worker_handle_message XXH64 ?fd (frame ?p) (of_nat (length (frame ?p))) s = Inr s'"
    unfolding handle_meta [OF x k sc] by (simp add: ht(1) s'_def)
  obtain w' where w: "worker_turn XXH64 (thread_of ?nw rnd) stop (workload st') s = Inr (Serves, w', s')"
    using worker_turn_pending [OF st'(2,3), of XXH64 stop s] h by (auto simp: complete_msg_def)
  obtain er g where r: "r = Reply er g" by (cases r)
  obtain bs where rep: "replies ?fd s s' = (if aop = API_OP_LOCK_FILE \<or> documented_result r = 0 then RESPONSE_OK else RESPONSE_ERR) # bs"
    using meta_reply_first [OF x, of s' s er g] by (auto simp: s'_def r)
  have res: "documented_result r \<in> {0, - 1}" by (simp add: r)
  obtain c' where c': "make_simple_request aop k e (c\<lparr>incoming := replies ?fd s s'\<rparr>) = (if aop = API_OP_LOCK_FILE then 0 else documented_result r, c')"
    "sent c' = sent c @ frame ?p"
    using simple_request_sends [of "c\<lparr>incoming := replies ?fd s s'\<rparr>" aop k e] c rep res
    by (auto simp: connected_def RESPONSE_OK_def RESPONSE_ERR_def split: if_splits)
  have "server_ok XXH64 s'" "htable_lookup XXH64 (table s') = m" using ht sc by (simp_all add: s'_def server_ok_def)
  with c' st'(1) w show ?thesis by (intro exI [of _ c'] exI [of _ st'] exI [of _ w'] exI [of _ s']) simp
qed


lemma sample_rx:
  "queue_ok (thread_of (rx_num_workers (receiver sample_poll_state)) 9) (workload sample_poll_state)"
  unfolding sample_poll_sel by (intro init_queue_ok thread_of_lt) simp_all

theorem request_end_to_end_witness:
  "\<exists>s c' st' w' s'. sample_server CACHE_EVICTION_POLICY_FIFO [Create [97] 3 False] = Inr s \<and>
    make_simple_request API_OP_CLOSE_FILE [97] EINVAL ((sample_client [])\<lparr>incoming := replies 5 s s'\<rparr>) = (0, c') \<and>
    serve 2 9 (replicate 20 2) (sent c') sample_poll_state = Inr ([], st') \<and>
    worker_turn (\<lambda>_. 0) (thread_of 2 9) False (workload st') s = Inr (Serves, w', s')"
proof -
  obtain s where s: "sample_server CACHE_EVICTION_POLICY_FIFO [Create [97] 3 False] = Inr s" "server_ok (\<lambda>_. 0) s"
    "htable_lookup (\<lambda>_. 0) (table s) = [[97] \<mapsto> new_file [97] 3 False]"
    by (rule sample_server_created)
  define m where "m = htable_lookup (\<lambda>_. 0) (table s)"
  obtain m' where m': "spec_exec (Close [97] 5) m = Inr (Reply HTABLE_ERR_OK (- 1), m')"
    by (simp add: m_def s(3) as_reply_def spec_close_def new_file_def)
  have "\<exists>c' st' w' s'.
    make_simple_request API_OP_CLOSE_FILE [97] EINVAL ((sample_client [])\<lparr>incoming := replies (poll_fd (active_sockets (receiver sample_poll_state) ! 2)) s s'\<rparr>) =
      (if API_OP_CLOSE_FILE = API_OP_LOCK_FILE then 0 else documented_result (Reply HTABLE_ERR_OK (- 1)), c') \<and>
    serve 2 9 (replicate 20 2) (drop (length (sent (sample_client []))) (sent c')) sample_poll_state = Inr ([], st') \<and>
    worker_turn (\<lambda>_. 0) (thread_of (rx_num_workers (receiver sample_poll_state)) 9) False (workload st') s = Inr (Serves, w', s') \<and>
    server_ok (\<lambda>_. 0) s' \<and> htable_lookup (\<lambda>_. 0) (table s') = m'"
  proof (rule request_end_to_end)
    show "meta_request (poll_fd (active_sockets (receiver sample_poll_state) ! 2)) API_OP_CLOSE_FILE [97] = Some (Close [97] 5)"
      by (simp add: sample_poll_sel)
    show "spec_exec (Close [97] 5) (htable_lookup (\<lambda>_. 0) (table s)) = Inr (Reply HTABLE_ERR_OK (- 1), m')"
      using m' unfolding m_def .
    show "length [97 :: byte] + 17 \<le> length (replicate 20 (2 :: nat))" by simp
  qed (use s(2) sample_rx in \<open>simp_all add: sample_poll_sel(1-4)\<close>)
  moreover have "sent (sample_client []) = []" by (simp add: sample_client_def)
  ultimately show ?thesis using s(1) by (simp add: sample_poll_sel) blast
qed

text \<open>
  C3: Writing from end to end, evictions included. The bytes that \<open>writeFile\<close> sends for a file of the client
  are the message of a write request; the server stores the bytes of the file; and from what the server
  answers the client succeeds and stores exactly the evicted files in its directory, under their
  base names, and reads the answer to its end.
\<close>

theorem write_file_end_to_end:
  assumes srv: "server_ok XXH64 s" and c: "connected c" and k: "0 \<notin> set k" "length k < 2 ^ 32"
    and f: "client_files c k = Some data" and data: "length data < 2 ^ 62"
    and r: "htable_replace_file_contents XXH64 (draws s) (table s) k data = Inr (e, evicted, ds, ht)"
    and ev: "length evicted < 2 ^ 32" "\<forall>f \<in> set evicted. sendable f \<and> writable c (dir @ [47] @ gnu_basename (key f))"
  shows "\<exists>s' c'.
    worker_handle_message XXH64 fd (drop (length (sent c)) (sent c')) (of_nat (length (drop (length (sent c)) (sent c')))) s = Inr s' \<and>
    table s' = ht \<and> writeFile k (Some dir) (c\<lparr>incoming := replies fd s s'\<rparr>) = Inr (0, c') \<and>
    client_files c' = store_files dir evicted (client_files c) \<and> incoming c' = []"
proof -
  have sc: "script s = []" using srv by (simp add: server_ok_def)
  let ?n = "u64_to_big_endian (ucast (of_nat (length evicted) :: u32))"
  have n: "(ucast (of_nat (length evicted) :: u32) :: u64) = of_nat (length evicted)"
    using ev(1) by (simp add: unsigned_of_nat take_bit_nat_eq_self)
  define s1 where "s1 = s\<lparr>table := ht, draws := ds, out := out s @ [(fd, [RESPONSE_OK]), (fd, ?n)]\<rparr>"
  define s' where "s' = s1\<lparr>out := out s1 @ concat (map (file_pieces fd) evicted)\<rparr>"
  have "send_evicted fd (htable_err_code e OR 1 OR 1) evicted s1 = Inr s'"
  proof -
    have "0 \<le> htable_err_code e" using err_code_nonneg [of e] by linarith
    then show ?thesis unfolding s'_def using sc ev(2) by (intro send_evicted_idle) (simp_all add: s1_def sendable_def)
  qed
  then have h: "worker_handle_message XXH64 fd (write_message k data) (of_nat (length (write_message k data))) s = Inr s'"
    unfolding handle_write [OF k data sc] r by (simp add: s1_def)
  have "replies fd s s' = RESPONSE_OK # u64_to_big_endian (of_nat (length evicted)) @ concat (map file_bytes evicted)"
    by (subst replies_append [of _ _ "[(fd, [RESPONSE_OK]), (fd, ?n)] @ concat (map (file_pieces fd) evicted)"])
      (simp_all add: s'_def s1_def replies_pieces pieces_bytes n)
  then have w: "writeFile k (Some dir) (c\<lparr>incoming := replies fd s s'\<rparr>) =
    Inr (0, (requested API_OP_WRITE_FILE (write_message k data) (c\<lparr>incoming := replies fd s s'\<rparr>))
      \<lparr>incoming := [], client_files := store_files dir evicted (client_files c)\<rparr>)"
    using writeFile_stores [of "c\<lparr>incoming := replies fd s s'\<rparr>" k data evicted "[]" dir] c f ev by (simp add: connected_def)
  have "sent (requested API_OP_WRITE_FILE (write_message k data) (c\<lparr>incoming := replies fd s s'\<rparr>)) = sent c @ write_message k data"
    by simp
  with w h show ?thesis
    by (intro exI [of _ s'] exI [of _ "(requested API_OP_WRITE_FILE (write_message k data) (c\<lparr>incoming := replies fd s s'\<rparr>))
      \<lparr>incoming := [], client_files := store_files dir evicted (client_files c)\<rparr>"]) (simp add: s'_def s1_def)
qed

theorem write_file_end_to_end_witness:
  "\<exists>s s' c'. sample_server CACHE_EVICTION_POLICY_SEGMENTED_FIFO sample_three = Inr s \<and>
     writeFile [97] (Some [100]) ((sample_client [])\<lparr>incoming := replies 3 (s\<lparr>draws := [0]\<rparr>) s'\<rparr>) = Inr (0, c') \<and>
     client_files c' [100, 47, 97] = Some [7, 8]"
proof -
  have "run spec_exec sample_three Map.empty \<noteq> Inl e" for e
    by (simp add: sample_three_def as_reply_def spec_create_def)
  then obtain rs m where "run spec_exec sample_three Map.empty = Inr (rs, m)" by (metis obj_sumE surj_pair)
  then obtain s where s: "sample_server CACHE_EVICTION_POLICY_SEGMENTED_FIFO sample_three = Inr s" "server_ok (\<lambda>_. 0) s"
    by (rule sample_server_ok)
  let ?s = "s\<lparr>draws := [0]\<rparr>"
  have ok: "server_ok (\<lambda>_. 0) ?s" using s(2) by (simp add: server_ok_def)
  have "case sample_server CACHE_EVICTION_POLICY_SEGMENTED_FIFO sample_three of Inl _ \<Rightarrow> False
    | Inr s \<Rightarrow> (case htable_replace_file_contents (\<lambda>_. 0) [0] (table s) [97] [7, 8] of Inl _ \<Rightarrow> False
       | Inr (e, evicted, ds, ht) \<Rightarrow>
           map (\<lambda>f. (key f, contents f, length_in_bytes f)) evicted = [([97], Some [7, 8], 2)])"
    unfolding sample_three_def by code_simp
  then obtain e evicted ds ht where r: "htable_replace_file_contents (\<lambda>_. 0) (draws ?s) (table ?s) [97] [7, 8] = Inr (e, evicted, ds, ht)"
    and m: "map (\<lambda>f. (key f, contents f, length_in_bytes f)) evicted = [([97], Some [7, 8], 2)]"
    using s(1) by (auto split: sum.splits)
  then obtain f where f: "evicted = [f]" "key f = [97]" "contents f = Some [7, 8]" "length_in_bytes f = 2" by auto
  then have cb: "content_bytes f = [7, 8]" by (simp add: content_bytes_def)
  have g: "gnu_basename [97] = [97]" by (simp add: gnu_basename_def)
  have cf: "client_files (sample_client []) [97] = Some [7, 8]" by (simp add: sample_client_def)
  have ev: "\<forall>f \<in> set evicted. sendable f \<and> writable (sample_client []) ([100] @ [47] @ gnu_basename (key f))"
    using f cb by (simp add: sendable_def file_ok_def sample_client_def)
  obtain s' c' where w: "writeFile [97] (Some [100]) ((sample_client [])\<lparr>incoming := replies 3 ?s s'\<rparr>) = Inr (0, c')"
    "client_files c' = store_files [100] evicted (client_files (sample_client []))"
    using write_file_end_to_end [OF ok connected_sample _ _ cf _ r _ ev, of 3] f(1) by auto
  have "client_files c' [100, 47, 97] = Some [7, 8]" using w(2) f(1,2) cb g by simp
  with s(1) w(1) show ?thesis by blast
qed

text \<open>
  C2: What one client writes is what another reads. When the file of the first client fits the limits of the
  server, \<open>writeFile\<close> succeeds, and a later \<open>readFile\<close> of any client that sends the request and gets the
  answer of the server succeeds and returns exactly the bytes of the file.
\<close>

theorem write_then_read_end_to_end:
  assumes srv: "server_ok XXH64 s" and c: "connected c1" "connected c2" and k: "0 \<notin> set k" "length k < 2 ^ 32"
    and f: "client_files c1 k = Some data" and data: "data \<noteq> []" "length data < 2 ^ 31"
    and old: "htable_lookup XXH64 (table s) k = Some f0"
    and fits: "\<not> items_count (stats (table s)) > max_items_count (table s)"
      "\<not> total_space_in_bytes (stats (table s)) + of_nat (length data) - length_in_bytes f0 > max_space_in_bytes (table s)"
  shows "\<exists>s1 s2 c1' c2'.
    worker_handle_message XXH64 fd1 (write_message k data) (of_nat (length (write_message k data))) s = Inr s1 \<and>
    writeFile k (Some dir) (c1\<lparr>incoming := replies fd1 s s1\<rparr>) = Inr (0, c1') \<and> sent c1' = sent c1 @ write_message k data \<and>
    worker_handle_message XXH64 fd2 (frame (api_op_code API_OP_READ_FILE # k)) (of_nat (length (frame (api_op_code API_OP_READ_FILE # k)))) s1 = Inr s2 \<and>
    readFile k (c2\<lparr>incoming := replies fd2 s1 s2\<rparr>) = Inr (0, Some data, c2') \<and>
    sent c2' = sent c2 @ frame (api_op_code API_OP_READ_FILE # k)"
proof -
  have "length data < 2 ^ 62" using data(2) by simp
  then obtain s1 s2 where
    h1: "worker_handle_message XXH64 fd1 (write_message k data) (of_nat (length (write_message k data))) s = Inr s1"
    and o1: "out s1 = out s @ [(fd1, [RESPONSE_OK]), (fd1, u64_to_big_endian 0)]"
    and h2: "worker_handle_message XXH64 fd2 (frame (api_op_code API_OP_READ_FILE # k)) (of_nat (length (frame (api_op_code API_OP_READ_FILE # k)))) s1 = Inr s2"
    and o2: "out s2 = out s1 @ [(fd2, RESPONSE_OK # u64_to_big_endian (of_nat (length data))), (fd2, data)]"
    using write_then_read [OF srv k old data(1) _ fits, of fd1 fd2] by blast
  have r1: "replies fd1 s s1 = RESPONSE_OK # u64_to_big_endian (of_nat (length [])) @ concat (map file_bytes []) @ []"
    using replies_append [OF o1] by simp
  have r2: "replies fd2 s1 s2 = RESPONSE_OK # u64_to_big_endian (of_nat (length data)) @ data @ []"
    using replies_append [OF o2] by simp
  have "\<exists>c1'. writeFile k (Some dir) (c1\<lparr>incoming := replies fd1 s s1\<rparr>) = Inr (0, c1') \<and> sent c1' = sent c1 @ write_message k data"
    using writeFile_stores [of "c1\<lparr>incoming := replies fd1 s s1\<rparr>" k data "[]" "[]" dir] c(1) f r1 by (simp add: connected_def)
  moreover have "\<exists>c2'. readFile k (c2\<lparr>incoming := replies fd2 s1 s2\<rparr>) = Inr (0, Some data, c2') \<and>
      sent c2' = sent c2 @ frame (api_op_code API_OP_READ_FILE # k)"
    using readFile_receives [of "c2\<lparr>incoming := replies fd2 s1 s2\<rparr>" data "[]" k] c(2) r2 data(2) by (simp add: connected_def)
  ultimately show ?thesis using h1 h2 by blast
qed

theorem write_then_read_end_to_end_witness:
  "\<exists>s s1 s2 c1' c2'. sample_server CACHE_EVICTION_POLICY_SEGMENTED_FIFO [Create [97] 3 True] = Inr s \<and>
     worker_handle_message (\<lambda>_. 0) 3 (write_message [97] [7, 8]) (of_nat (length (write_message [97] [7, 8]))) s = Inr s1 \<and>
     writeFile [97] (Some [100]) ((sample_client [])\<lparr>incoming := replies 3 s s1\<rparr>) = Inr (0, c1') \<and>
     readFile [97] ((sample_client [])\<lparr>incoming := replies 4 s1 s2\<rparr>) = Inr (0, Some [7, 8], c2')"
proof -
  obtain s where s: "sample_server CACHE_EVICTION_POLICY_SEGMENTED_FIFO [Create [97] 3 True] = Inr s" "server_ok (\<lambda>_. 0) s"
    "htable_lookup (\<lambda>_. 0) (table s) = [[97] \<mapsto> new_file [97] 3 True]" "out s = []"
    by (rule sample_server_created)
  have "case sample_server CACHE_EVICTION_POLICY_SEGMENTED_FIFO [Create [97] 3 True] of Inl _ \<Rightarrow> False
    | Inr s \<Rightarrow> items_count (stats (table s)) = 1 \<and> max_items_count (table s) = 2 \<and>
        total_space_in_bytes (stats (table s)) = 0 \<and> max_space_in_bytes (table s) = 10000"
    by code_simp
  then have st: "items_count (stats (table s)) = 1" "max_items_count (table s) = 2"
    "total_space_in_bytes (stats (table s)) = 0" "max_space_in_bytes (table s) = 10000" using s(1) by simp_all
  have l: "htable_lookup (\<lambda>_. 0) (table s) [97] = Some (new_file [97] 3 True)" by (simp add: s(3))
  have f: "client_files (sample_client []) [97] = Some [7, 8]" by (simp add: sample_client_def)
  from write_then_read_end_to_end [OF s(2) connected_sample connected_sample [of "[]"] _ _ f _ _ l, of 3 "[100]" 4] s(1) show ?thesis
    by (auto simp: st new_file_def)
qed

text \<open>
  C17: The lock protocol desynchronises its client. When a second client asks for the lock of a file that another client
  holds, \<open>lockFile\<close> returns 0 although the lock still belongs to the other client; when that client unlocks the file,
  the server sends a second byte to the new owner, who does not wait for one; the next request of the new owner
  takes it for its response: \<open>closeFile\<close> of a path that does not exist returns 0, and the error that the server answers
  stays in the stream for the request after that.
\<close>

theorem lock_handover_desynchronises:
  assumes srv: "server_ok XXH64 s" and c: "connected c"
    and k: "0 \<notin> set k" "length k < 2 ^ 32" and k2: "0 \<notin> set k2" "length k2 < 2 ^ 32"
    and f: "htable_lookup XXH64 (table s) k = Some f" "is_locked f" "subs f = []"
    and fd: "fd2 \<noteq> fd_owner f" "fd2 \<noteq> - 1" and none: "htable_lookup XXH64 (table s) k2 = None"
  shows "\<exists>s1 s2 s3 c1 c2.
    handle_request XXH64 (fd2, API_OP_LOCK_FILE, k) s = Inr ((), s1) \<and>
    lockFile k (c\<lparr>incoming := replies fd2 s s1\<rparr>) = (0, c1) \<and>
    htable_lookup XXH64 (table s1) k = Some (f\<lparr>subs := [fd2]\<rparr>) \<and>
    handle_request XXH64 (fd_owner f, API_OP_UNLOCK_FILE, k) s1 = Inr ((), s2) \<and>
    replies fd2 s1 s2 = [RESPONSE_OK] \<and> htable_lookup XXH64 (table s2) k = Some (f\<lparr>fd_owner := fd2\<rparr>) \<and>
    handle_request XXH64 (fd2, API_OP_CLOSE_FILE, k2) s2 = Inr ((), s3) \<and> replies fd2 s2 s3 = [RESPONSE_ERR] \<and>
    closeFile k2 (c1\<lparr>incoming := incoming c1 @ replies fd2 s1 s2 @ replies fd2 s2 s3\<rparr>) = (0, c2) \<and>
    incoming c2 = [RESPONSE_ERR]"
proof -
  let ?m = "htable_lookup XXH64 (table s)"
  have "k2 \<noteq> k" using f(1) none by auto
  have handed: "f\<lparr>subs := [], fd_owner := fd2\<rparr> = f\<lparr>fd_owner := fd2\<rparr>" using f(3) by (cases f) simp
  obtain s1 where s1: "handle_request XXH64 (fd2, API_OP_LOCK_FILE, k) s = Inr ((), s1)" "server_ok XXH64 s1"
    "htable_lookup XXH64 (table s1) = ?m(k \<mapsto> f\<lparr>subs := [fd2]\<rparr>)" "out s1 = out s @ [(fd2, [RESPONSE_OK])]"
    by (rule handle_spec [OF srv k, of fd2 API_OP_LOCK_FILE "Lock k fd2" "Reply HTABLE_ERR_OK_WAIT (- 1)" "?m(k \<mapsto> f\<lparr>subs := [fd2]\<rparr>)"])
      (use f in \<open>simp_all add: as_reply_def spec_lock_def del: handle_request.simps\<close>)
  obtain s2 where s2: "handle_request XXH64 (fd_owner f, API_OP_UNLOCK_FILE, k) s1 = Inr ((), s2)" "server_ok XXH64 s2"
    "htable_lookup XXH64 (table s2) = ?m(k \<mapsto> f\<lparr>subs := [], fd_owner := fd2\<rparr>)"
    "out s2 = out s1 @ [(fd_owner f, [RESPONSE_OK]), (fd2, [RESPONSE_OK])]"
    by (rule handle_spec [OF s1(2) k, of "fd_owner f" API_OP_UNLOCK_FILE "Unlock k (fd_owner f)" "Reply HTABLE_ERR_OK fd2" "?m(k \<mapsto> f\<lparr>subs := [], fd_owner := fd2\<rparr>)"])
      (use f(2) fd(2) in \<open>simp_all add: s1(3) spec_unlock_def status_byte_def del: handle_request.simps\<close>)
  obtain s3 where s3: "handle_request XXH64 (fd2, API_OP_CLOSE_FILE, k2) s2 = Inr ((), s3)"
    "out s3 = out s2 @ [(fd2, [RESPONSE_ERR])]"
    by (rule handle_spec [OF s2(2) k2, of fd2 API_OP_CLOSE_FILE "Close k2 fd2" "Reply HTABLE_ERR_FILE_NOT_FOUND (- 1)" "?m(k \<mapsto> f\<lparr>subs := [], fd_owner := fd2\<rparr>)"])
      (use none \<open>k2 \<noteq> k\<close> in \<open>simp_all add: s2(3) as_reply_def spec_close_def status_byte_def del: handle_request.simps\<close>)
  have r: "replies fd2 s s1 = [RESPONSE_OK]" "replies fd2 s1 s2 = [RESPONSE_OK]" "replies fd2 s2 s3 = [RESPONSE_ERR]"
    using replies_append [OF s1(4)] replies_append [OF s2(4)] replies_append [OF s3(2)] fd(1) by simp_all
  have conn: "connected (d\<lparr>incoming := bs\<rparr>) = connected d" for d :: Client and bs by (simp add: connected_def)
  obtain c1 where c1: "lockFile k (c\<lparr>incoming := replies fd2 s s1\<rparr>) = (0, c1)" "connected c1" "incoming c1 = []"
    using simple_request_sends [of "c\<lparr>incoming := [RESPONSE_OK]\<rparr>" API_OP_LOCK_FILE k EINVAL] c
    by (simp add: r conn lockFile_def RESPONSE_OK_def RESPONSE_ERR_def)
  obtain c2 where c2: "closeFile k2 (c1\<lparr>incoming := incoming c1 @ replies fd2 s1 s2 @ replies fd2 s2 s3\<rparr>) = (0, c2)" "incoming c2 = [RESPONSE_ERR]"
    using simple_request_sends [of "c1\<lparr>incoming := [RESPONSE_OK, RESPONSE_ERR]\<rparr>" API_OP_CLOSE_FILE k2 EINVAL] c1(2)
    by (simp add: r conn c1(3) closeFile_def RESPONSE_OK_def RESPONSE_ERR_def)
  have "htable_lookup XXH64 (table s1) k = Some (f\<lparr>subs := [fd2]\<rparr>)" "htable_lookup XXH64 (table s2) k = Some (f\<lparr>fd_owner := fd2\<rparr>)"
    by (simp_all add: s1(3)) (simp only: s2(3) handed fun_upd_same)
  with s1(1) c1(1) s2(1) r s3(1) c2 show ?thesis by blast
qed

theorem lock_handover_desynchronises_witness:
  "\<exists>s s1 s2 s3 c1 c2. sample_server CACHE_EVICTION_POLICY_FIFO [Create [97] 3 True] = Inr s \<and>
    handle_request (\<lambda>_. 0) (4, API_OP_LOCK_FILE, [97]) s = Inr ((), s1) \<and>
    lockFile [97] ((sample_client [])\<lparr>incoming := replies 4 s s1\<rparr>) = (0, c1) \<and>
    handle_request (\<lambda>_. 0) (3, API_OP_UNLOCK_FILE, [97]) s1 = Inr ((), s2) \<and>
    handle_request (\<lambda>_. 0) (4, API_OP_CLOSE_FILE, [98]) s2 = Inr ((), s3) \<and> replies 4 s2 s3 = [RESPONSE_ERR] \<and>
    closeFile [98] (c1\<lparr>incoming := incoming c1 @ replies 4 s1 s2 @ replies 4 s2 s3\<rparr>) = (0, c2)"
proof -
  obtain s where s: "sample_server CACHE_EVICTION_POLICY_FIFO [Create [97] 3 True] = Inr s" "server_ok (\<lambda>_. 0) s"
    "htable_lookup (\<lambda>_. 0) (table s) = [[97] \<mapsto> new_file [97] 3 True]"
    by (rule sample_server_created)
  have l: "htable_lookup (\<lambda>_. 0) (table s) [97] = Some (new_file [97] 3 True)" "htable_lookup (\<lambda>_. 0) (table s) [98] = None"
    by (simp_all add: s(3))
  have f: "is_locked (new_file [97] 3 True)" "subs (new_file [97] 3 True) = []" "fd_owner (new_file [97] 3 True) = 3"
    by (simp_all add: new_file_def)
  from lock_handover_desynchronises [OF s(2) connected_sample [of "[]"] _ _ _ _ l(1) f(1,2) _ _ l(2), of 4] s(1)
  show ?thesis unfolding f(3) by (simp del: handle_request.simps) blast
qed

end
